(* ===== verification/Ember_Prelude.thy ===== *)
theory Ember_Prelude
  imports Main "HOL-Library.Word" "HOL-Library.AList" "HOL-Library.Monad_Syntax"
    "HOL-Library.Multiset" "HOL-Library.Char_ord" "HOL-Library.List_Lexorder"
begin

text \<open>
  Shared vocabulary of the EmberDB development.

  \<^item> A Go \<^verbatim>\<open>string\<close> and a Go \<^verbatim>\<open>[]byte\<close> are both byte sequences and both become
    \<^typ>\<open>string\<close> (one \<^typ>\<open>char\<close> is one byte); byte arithmetic goes through \<open>byte_val\<close>.
  \<^item> A Go map is a \<open>gomap\<close>: either the nil map, which can be read and deleted from but
    panics when it is assigned to, or an association list with distinct keys.
  \<^item> A computation that can panic has an \<^typ>\<open>'a option\<close> result, \<^const>\<open>None\<close> being the panic.
  \<^item> \<open>map_iface\<close> is the interface the store relies on, interpreted by \<open>gomap\<close>; the counting
    loops of \<^verbatim>\<open>HDEL\<close>, \<^verbatim>\<open>SADD\<close> and \<^verbatim>\<open>SREM\<close> are proved once over it.
\<close>

named_theorems gomap_simps \<open>rewriting Go map operations\<close>
named_theorems wf_intros \<open>well-formedness is kept by an operation\<close>
named_theorems op_defs \<open>definitions of the operations of a component\<close>

type_synonym u8 = "8 word"
type_synonym u16 = "16 word"
type_synonym u32 = "32 word"
type_synonym u64 = "64 word"

section \<open>Go maps\<close>

datatype ('k, 'v) gomap = NilMap | GoMap "('k \<times> 'v) list"

fun entries :: "('k, 'v) gomap \<Rightarrow> ('k \<times> 'v) list" where
  "entries NilMap = []"
| "entries (GoMap xs) = xs"

definition lookup :: "('k, 'v) gomap \<Rightarrow> 'k \<Rightarrow> 'v option" where
  "lookup m k = map_of (entries m) k"

text \<open>\<^verbatim>\<open>m[k] = v\<close>; assigning to an entry of the nil map panics.\<close>

fun assign :: "('k, 'v) gomap \<Rightarrow> 'k \<Rightarrow> 'v \<Rightarrow> ('k, 'v) gomap option" where
  "assign NilMap k v = None"
| "assign (GoMap xs) k v = Some (GoMap (AList.update k v xs))"

text \<open>\<^verbatim>\<open>delete(m, k)\<close>; a no-op on the nil map.\<close>

fun remove :: "('k, 'v) gomap \<Rightarrow> 'k \<Rightarrow> ('k, 'v) gomap" where
  "remove NilMap k = NilMap"
| "remove (GoMap xs) k = GoMap (AList.delete k xs)"

definition len :: "('k, 'v) gomap \<Rightarrow> nat" where
  "len m = length (entries m)"

definition keys :: "('k, 'v) gomap \<Rightarrow> 'k list" where
  "keys m = map fst (entries m)"

definition gm_wf :: "('k, 'v) gomap \<Rightarrow> bool" where
  "gm_wf m \<longleftrightarrow> distinct (keys m)"

text \<open>\<^verbatim>\<open>v, ok := m[k]\<close>: the value (the type's zero value when the key is absent) and whether it
  was there.\<close>

definition comma_ok :: "('k, 'v) gomap \<Rightarrow> 'k \<Rightarrow> 'v \<Rightarrow> 'v \<times> bool" where
  "comma_ok m k zero = (case lookup m k of None \<Rightarrow> (zero, False) | Some v \<Rightarrow> (v, True))"

definition has_key :: "('k, 'v) gomap \<Rightarrow> 'k \<Rightarrow> bool" where
  "has_key m k \<longleftrightarrow> lookup m k \<noteq> None"

lemma lookup_NilMap [simp]: "lookup NilMap = Map.empty"
  by (simp add: lookup_def fun_eq_iff)

lemma lookup_GoMap_Nil [simp]: "lookup (GoMap []) = Map.empty"
  by (simp add: lookup_def fun_eq_iff)

lemma assign_eq_None [simp]: "assign m k v = None \<longleftrightarrow> m = NilMap"
  by (cases m) auto

lemma assign_total: "m \<noteq> NilMap \<Longrightarrow> \<exists>m'. assign m k v = Some m' \<and> m' \<noteq> NilMap"
  by (cases m) auto

lemma assign_not_Nil [dest]: "assign m k v = Some m' \<Longrightarrow> m' \<noteq> NilMap"
  by (cases m) auto

lemma lookup_assign [gomap_simps]:
  "assign m k v = Some m' \<Longrightarrow> lookup m' = (lookup m)(k \<mapsto> v)"
  by (cases m) (auto simp: lookup_def AList.update_conv')

lemma lookup_remove [gomap_simps, simp]: "lookup (remove m k) = (lookup m)(k := None)"
  by (cases m) (auto simp: lookup_def AList.delete_conv')

lemma remove_eq_Nil [simp]: "remove m k = NilMap \<longleftrightarrow> m = NilMap"
  by (cases m) auto

lemma gm_wf_Nil [simp, intro!]: "gm_wf NilMap" and gm_wf_empty [simp, intro!]: "gm_wf (GoMap [])"
  by (auto simp: gm_wf_def keys_def)

lemma gm_wf_assign [wf_intros]: "gm_wf m \<Longrightarrow> assign m k v = Some m' \<Longrightarrow> gm_wf m'"
  by (cases m) (auto simp: gm_wf_def keys_def AList.distinct_update)

lemma gm_wf_remove [wf_intros]: "gm_wf m \<Longrightarrow> gm_wf (remove m k)"
  by (cases m) (auto simp: gm_wf_def keys_def AList.distinct_delete)

lemma lookup_eq_map_of: "lookup m = map_of (entries m)"
  by (simp add: lookup_def fun_eq_iff)

lemma set_keys: "set (keys m) = dom (lookup m)"
  by (simp add: keys_def lookup_eq_map_of dom_map_of_conv_image_fst)

lemma len_eq_card: "gm_wf m \<Longrightarrow> len m = card (dom (lookup m))"
  unfolding set_keys [symmetric]
  by (metis distinct_card gm_wf_def keys_def len_def length_map)

lemma len_eq_0: "len m = 0 \<longleftrightarrow> lookup m = Map.empty"
  by (simp add: len_def lookup_eq_map_of)

lemma finite_dom_lookup [simp]: "finite (dom (lookup m))"
  by (simp add: set_keys [symmetric])

lemma has_key_iff: "has_key m k \<longleftrightarrow> k \<in> dom (lookup m)"
  by (auto simp: has_key_def)

section \<open>Iteration\<close>

text \<open>What the language promises of an iteration: every entry once, in some order.\<close>

definition is_iteration :: "(('k, 'v) gomap \<Rightarrow> 'k list) \<Rightarrow> bool" where
  "is_iteration iter \<longleftrightarrow> (\<forall>m. mset (iter m) = mset (keys m))"

lemma iteration_facts:
  assumes "is_iteration iter" "gm_wf m"
  shows "distinct (iter m)" "set (iter m) = dom (lookup m)"
proof -
  have "mset (iter m) = mset (keys m)" using assms(1) by (simp add: is_iteration_def)
  then show "distinct (iter m)" "set (iter m) = dom (lookup m)"
    using assms(2) mset_eq_imp_distinct_iff [of "iter m" "keys m"] mset_eq_setD [of "iter m" "keys m"]
    by (simp_all add: gm_wf_def set_keys)
qed

lemma is_iteration_keys: "is_iteration keys"
  by (simp add: is_iteration_def)

section \<open>Loops over a map\<close>

text \<open>
  The three loop shapes of the store, over the operations of any map: delete every key of a list
  and count the hits, insert the missing keys of a list and count them, assign a list of bindings
  in order.
\<close>

fun del_loop :: "('m \<Rightarrow> 'k \<Rightarrow> 'v option) \<Rightarrow> ('m \<Rightarrow> 'k \<Rightarrow> 'm) \<Rightarrow> 'k list \<Rightarrow> 'm \<Rightarrow> nat \<Rightarrow> 'm \<times> nat" where
  "del_loop get del [] m n = (m, n)"
| "del_loop get del (k # ks) m n =
     (if get m k \<noteq> None then del_loop get del ks (del m k) (n + 1) else del_loop get del ks m n)"

fun add_loop :: "('m \<Rightarrow> 'k \<Rightarrow> 'v option) \<Rightarrow> ('m \<Rightarrow> 'k \<Rightarrow> 'v \<Rightarrow> 'm option) \<Rightarrow> 'v \<Rightarrow> 'k list \<Rightarrow> 'm \<Rightarrow> nat
    \<Rightarrow> ('m \<times> nat) option" where
  "add_loop get put v [] m n = Some (m, n)"
| "add_loop get put v (k # ks) m n =
     (if get m k = None then do { m' \<leftarrow> put m k v; add_loop get put v ks m' (n + 1) }
      else add_loop get put v ks m n)"

fun put_loop :: "('m \<Rightarrow> 'k \<Rightarrow> 'v \<Rightarrow> 'm option) \<Rightarrow> ('k \<times> 'v) list \<Rightarrow> 'm \<Rightarrow> 'm option" where
  "put_loop put [] m = Some m"
| "put_loop put ((k, v) # kvs) m = do { m' \<leftarrow> put m k v; put_loop put kvs m' }"

text \<open>What a client may rely on when it reads and deletes.\<close>

locale map_readable =
  fixes get :: "'m \<Rightarrow> 'k \<Rightarrow> 'v option"
    and del :: "'m \<Rightarrow> 'k \<Rightarrow> 'm"
    and ok :: "'m \<Rightarrow> bool"
  assumes get_del: "ok m \<Longrightarrow> get (del m k) = (get m)(k := None)"
    and ok_del: "ok m \<Longrightarrow> ok (del m k)"
    and finite_dom: "ok m \<Longrightarrow> finite (dom (get m))"
begin

lemma del_loop_spec:
  assumes "ok m" "del_loop get del ks m n = (m', n')"
  shows "ok m' \<and> get m' = (get m) |` (- set ks) \<and> n' = n + card (set ks \<inter> dom (get m))"
  using assms
proof (induction ks arbitrary: m n)
  case Nil
  then show ?case by simp
next
  case (Cons k ks)
  show ?case
  proof (cases "get m k = None")
    case True
    with Cons.IH [of m n] Cons.prems show ?thesis
      by (auto simp: restrict_map_def fun_eq_iff insert_absorb2 domIff)
  next
    case False
    have *: "ok m' \<and> get m' = (get (del m k)) |` (- set ks)
        \<and> n' = n + 1 + card (set ks \<inter> dom (get (del m k)))"
      using Cons.IH [of "del m k" "n + 1"] Cons.prems False ok_del by simp
    have "set (k # ks) \<inter> dom (get m) = insert k (set ks \<inter> dom (get (del m k)))"
      using False Cons.prems(1) by (auto simp: get_del)
    moreover have "k \<notin> set ks \<inter> dom (get (del m k))"
      using Cons.prems(1) by (simp add: get_del)
    ultimately have "card (set (k # ks) \<inter> dom (get m)) = Suc (card (set ks \<inter> dom (get (del m k))))"
      by simp
    with * Cons.prems(1) show ?thesis
      by (auto simp: get_del restrict_map_def fun_eq_iff)
  qed
qed

end

text \<open>What a client may rely on when it also assigns: no panic on a writable map.\<close>

locale map_iface = map_readable get del ok
  for get :: "'m \<Rightarrow> 'k \<Rightarrow> 'v option" and del :: "'m \<Rightarrow> 'k \<Rightarrow> 'm" and ok :: "'m \<Rightarrow> bool" +
  fixes put :: "'m \<Rightarrow> 'k \<Rightarrow> 'v \<Rightarrow> 'm option"
    and writable :: "'m \<Rightarrow> bool"
  assumes put_ok: "ok m \<Longrightarrow> writable m \<Longrightarrow>
      \<exists>m'. put m k v = Some m' \<and> ok m' \<and> writable m' \<and> get m' = (get m)(k \<mapsto> v)"
begin

lemma putE:
  assumes "ok m" "writable m"
  obtains m' where "put m k v = Some m'" "ok m'" "writable m'" "get m' = (get m)(k \<mapsto> v)"
  using put_ok [OF assms] by blast

lemma put_loop_spec:
  "ok m \<Longrightarrow> writable m \<Longrightarrow>
    \<exists>m'. put_loop put kvs m = Some m' \<and> ok m' \<and> writable m' \<and> get m' = get m ++ map_of (rev kvs)"
proof (induction kvs arbitrary: m)
  case Nil
  then show ?case by simp
next
  case (Cons p kvs)
  obtain k v where p: "p = (k, v)" by force
  obtain m1 where m1: "put m k v = Some m1" "ok m1" "writable m1" "get m1 = (get m)(k \<mapsto> v)"
    using putE [OF Cons.prems] by blast
  obtain m' where m': "put_loop put kvs m1 = Some m'" "ok m'" "writable m'"
    "get m' = get m1 ++ map_of (rev kvs)"
    using Cons.IH [OF m1(2,3)] by blast
  have "get m' = get m ++ map_of (rev (p # kvs))"
    by (simp add: m'(4) m1(4) p)
  with m' m1(1) p show ?case by simp
qed

lemma add_loop_spec:
  "ok m \<Longrightarrow> writable m \<Longrightarrow>
    \<exists>m'. add_loop get put v ks m n = Some (m', n + card (set ks - dom (get m))) \<and> ok m' \<and> writable m'
      \<and> get m' = (\<lambda>k. if get m k = None \<and> k \<in> set ks then Some v else get m k)"
proof (induction ks arbitrary: m n)
  case Nil
  then show ?case by (auto simp: fun_eq_iff)
next
  case (Cons k ks)
  show ?case
  proof (cases "get m k = None")
    case True
    obtain m1 where m1: "put m k v = Some m1" "ok m1" "writable m1" "get m1 = (get m)(k \<mapsto> v)"
      using putE [OF Cons.prems] by blast
    have "set (k # ks) - dom (get m) = insert k (set ks - dom (get m1))"
      using True m1 by auto
    then have "card (set (k # ks) - dom (get m)) = Suc (card (set ks - dom (get m1)))"
      using m1 by simp
    moreover obtain m' where "add_loop get put v ks m1 (n + 1) =
        Some (m', n + 1 + card (set ks - dom (get m1)))" "ok m'" "writable m'"
      "get m' = (\<lambda>k. if get m1 k = None \<and> k \<in> set ks then Some v else get m1 k)"
      using Cons.IH [OF m1(2,3)] by blast
    ultimately show ?thesis using True m1 by (auto simp: fun_eq_iff)
  next
    case False
    then have "set (k # ks) - dom (get m) = set ks - dom (get m)" by auto
    with Cons.IH [OF Cons.prems, of n] False show ?thesis by (auto simp: fun_eq_iff)
  qed
qed

end

interpretation gm: map_iface lookup remove gm_wf assign "\<lambda>m. m \<noteq> NilMap"
proof unfold_locales
  fix m :: "('a, 'b) gomap" and k v
  assume "gm_wf m" "m \<noteq> NilMap"
  then show "\<exists>m'. assign m k v = Some m' \<and> gm_wf m' \<and> m' \<noteq> NilMap \<and> lookup m' = (lookup m)(k \<mapsto> v)"
    using assign_total [of m k v] gm_wf_assign [of m k v] lookup_assign [of m k v] by blast
qed (auto intro: wf_intros)

end
