(* ===== verification/Resp_Buffer.thy ===== *)
theory Resp_Buffer
  imports Ember_Prelude "HOL-Library.Sublist"
begin

text \<open>
  \<^verbatim>\<open>utils/go-resp/doublebuffer\<close>: the writer through which a connection sends its replies. Goroutines call \<^verbatim>\<open>Write\<close>, which appends
  to the back buffer; one goroutine, the flusher, swaps the buffers and writes the front one to the socket. The two
  wake each other through channels of capacity one, a channel being a flag here. The state has a program counter for
  each goroutine; an action is one step of one of them between two synchronisations, \<^const>\<open>None\<close> where it
  cannot run. \<open>sock\<close> is what the socket has taken, and the ghost field \<open>accepted\<close> is what was appended to
  the back buffer so far. The profiling counters and the pool of byte slices are left out.
\<close>

section \<open>State\<close>

datatype dbErr = ErrClosedPipe | Canceled | SocketErr string

text \<open>The flusher: at the head of its loop, after the swap, before the write, returned.\<close>

datatype flusherPc = FWait | FSwapped string | FWrite string | FExit

text \<open>A goroutine that writes: the chunk it is at and the bytes behind it; about to look at the context, about to lock,
  waiting for \<^verbatim>\<open>bufferReadyFlag\<close>, about to signal \<^verbatim>\<open>dataReadyFlag\<close>.\<close>

datatype writerPc = WIdle | WTry string string | WLock string string | WBlocked string string | WSignal string string

datatype closePc = CNone | CWait | CDone "dbErr option"

record DoubleBuffer =
  dataReadyFlag :: bool
  dataClosed :: bool
  bufferReadyFlag :: bool
  backBuffer :: string
  bufferLimit :: nat
  contextErr :: "dbErr option"
  flusherAt :: flusherPc
  writersAt :: "writerPc list"
  closeAt :: closePc
  sock :: string
  accepted :: string
  panicked :: bool

definition NewWriterSize :: "nat \<Rightarrow> nat \<Rightarrow> DoubleBuffer" where
  "NewWriterSize n limit =
     \<lparr>dataReadyFlag = False, dataClosed = False, bufferReadyFlag = False, backBuffer = [], bufferLimit = limit, contextErr = None,
      flusherAt = FWait, writersAt = replicate n WIdle, closeAt = CNone, sock = [], accepted = [], panicked = False\<rparr>"

abbreviation setWriter :: "nat \<Rightarrow> writerPc \<Rightarrow> DoubleBuffer \<Rightarrow> DoubleBuffer" where
  "setWriter i w db \<equiv> db\<lparr>writersAt := (writersAt db)[i := w]\<rparr>"

definition pcAt :: "writerPc list \<Rightarrow> nat \<Rightarrow> writerPc" where
  "pcAt ws i = (if i < length ws then ws ! i else WIdle)"

abbreviation writer :: "DoubleBuffer \<Rightarrow> nat \<Rightarrow> writerPc" where
  "writer db \<equiv> pcAt (writersAt db)"

section \<open>\<^verbatim>\<open>Write\<close> and \<^verbatim>\<open>writeChunk\<close>\<close>

text \<open>\<^verbatim>\<open>Write\<close> cuts what is longer than the limit into chunks of that length.\<close>

definition dbWrite :: "nat \<Rightarrow> string \<Rightarrow> DoubleBuffer \<Rightarrow> DoubleBuffer option" where
  "dbWrite i p db =
     (if i < length (writersAt db) \<and> writer db i = WIdle
      then Some (setWriter i (WTry (take (bufferLimit db) p) (drop (bufferLimit db) p)) db) else None)"

text \<open>The rest of the chunks after one was written.\<close>

definition nextChunk :: "nat \<Rightarrow> string \<Rightarrow> writerPc" where
  "nextChunk limit rest = (if rest = [] then WIdle else WTry (take limit rest) (drop limit rest))"

definition checkContext :: "nat \<Rightarrow> DoubleBuffer \<Rightarrow> DoubleBuffer option" where
  "checkContext i db =
     (case writer db i of
        WTry p rest \<Rightarrow>
          Some (if contextErr db \<noteq> None then setWriter i WIdle db
                else if p = [] then setWriter i (nextChunk (bufferLimit db) rest) db
                else setWriter i (WLock p rest) db)
      | _ \<Rightarrow> None)"

text \<open>The part under the mutex.\<close>

definition lockAppend :: "nat \<Rightarrow> DoubleBuffer \<Rightarrow> DoubleBuffer option" where
  "lockAppend i db =
     (case writer db i of
        WLock p rest \<Rightarrow>
          Some (if length (backBuffer db) + length p > bufferLimit db then setWriter i (WBlocked p rest) db
                else setWriter i (WSignal p rest) (db\<lparr>backBuffer := backBuffer db @ p, accepted := accepted db @ p\<rparr>))
      | _ \<Rightarrow> None)"

text \<open>The two branches of the \<^verbatim>\<open>select\<close> a blocked writer waits in.\<close>

definition wakeBlocked :: "nat \<Rightarrow> DoubleBuffer \<Rightarrow> DoubleBuffer option" where
  "wakeBlocked i db =
     (case writer db i of
        WBlocked p rest \<Rightarrow> if bufferReadyFlag db then Some (setWriter i (WTry p rest) (db\<lparr>bufferReadyFlag := False\<rparr>)) else None
      | _ \<Rightarrow> None)"

definition giveUp :: "nat \<Rightarrow> DoubleBuffer \<Rightarrow> DoubleBuffer option" where
  "giveUp i db =
     (case writer db i of
        WBlocked p rest \<Rightarrow> if contextErr db \<noteq> None then Some (setWriter i WIdle db) else None
      | _ \<Rightarrow> None)"

text \<open>Sending on a closed channel panics, also inside a \<^verbatim>\<open>select\<close> with a default.\<close>

definition signalData :: "nat \<Rightarrow> DoubleBuffer \<Rightarrow> DoubleBuffer option" where
  "signalData i db =
     (case writer db i of
        WSignal p rest \<Rightarrow>
          Some (if dataClosed db then db\<lparr>panicked := True\<rparr>
                else setWriter i (nextChunk (bufferLimit db) rest) (db\<lparr>dataReadyFlag := True\<rparr>))
      | _ \<Rightarrow> None)"

section \<open>\<^verbatim>\<open>flusher\<close>\<close>

definition flushSwap :: "DoubleBuffer \<Rightarrow> DoubleBuffer option" where
  "flushSwap db =
     (if flusherAt db = FWait \<and> dataReadyFlag db
      then Some (db\<lparr>dataReadyFlag := False, flusherAt := FSwapped (backBuffer db), backBuffer := []\<rparr>) else None)"

definition flushReady :: "DoubleBuffer \<Rightarrow> DoubleBuffer option" where
  "flushReady db =
     (case flusherAt db of
        FSwapped front \<Rightarrow> Some (db\<lparr>bufferReadyFlag := True, flusherAt := (if front = [] then FWait else FWrite front)\<rparr>)
      | _ \<Rightarrow> None)"

text \<open>\<^verbatim>\<open>wr.Write\<close> takes the whole buffer, or fails after \<open>n\<close> bytes.\<close>

definition flushWrite :: "DoubleBuffer \<Rightarrow> DoubleBuffer option" where
  "flushWrite db =
     (case flusherAt db of FWrite front \<Rightarrow> Some (db\<lparr>sock := sock db @ front, flusherAt := FWait\<rparr>) | _ \<Rightarrow> None)"

definition flushFail :: "nat \<Rightarrow> string \<Rightarrow> DoubleBuffer \<Rightarrow> DoubleBuffer option" where
  "flushFail n e db =
     (case flusherAt db of
        FWrite front \<Rightarrow> Some (db\<lparr>sock := sock db @ take n front, contextErr := Some (SocketErr e), flusherAt := FExit\<rparr>)
      | _ \<Rightarrow> None)"

text \<open>The deferred function: \<open>wrClose\<close> is \<^const>\<open>None\<close> if the writer is no \<^verbatim>\<open>io.WriteCloser\<close> and otherwise what its \<^verbatim>\<open>Close\<close>
  returns; \<^verbatim>\<open>cancel(nil)\<close> leaves the cause \<^verbatim>\<open>context.Canceled\<close>.\<close>

definition exitCause :: "dbErr option option \<Rightarrow> dbErr" where
  "exitCause wrClose = (case wrClose of None \<Rightarrow> ErrClosedPipe | Some None \<Rightarrow> Canceled | Some (Some e) \<Rightarrow> e)"

text \<open>The loop ends when the channel is closed and empty.\<close>

definition flushEnd :: "dbErr option option \<Rightarrow> DoubleBuffer \<Rightarrow> DoubleBuffer option" where
  "flushEnd wrClose db =
     (if flusherAt db = FWait \<and> \<not> dataReadyFlag db \<and> dataClosed db
      then Some (db\<lparr>contextErr := Some (exitCause wrClose), flusherAt := FExit\<rparr>) else None)"

section \<open>\<^verbatim>\<open>Close\<close>\<close>

definition dbClose :: "DoubleBuffer \<Rightarrow> DoubleBuffer option" where
  "dbClose db =
     (if closeAt db = CWait then None
      else case contextErr db of
             Some e \<Rightarrow> Some (db\<lparr>closeAt := CDone (Some e)\<rparr>)
           | None \<Rightarrow> Some (if dataClosed db then db\<lparr>panicked := True\<rparr> else db\<lparr>dataClosed := True, closeAt := CWait\<rparr>))"

definition closeEnd :: "DoubleBuffer \<Rightarrow> DoubleBuffer option" where
  "closeEnd db =
     (case contextErr db of
        Some e \<Rightarrow> if closeAt db = CWait then Some (db\<lparr>closeAt := CDone (if e = ErrClosedPipe then None else Some e)\<rparr>) else None
      | None \<Rightarrow> None)"

text \<open>\<^verbatim>\<open>Reset\<close> closes and starts again on another writer; it is meant for tests and called with no write under way.
  \<^verbatim>\<open>bufferReadyFlag\<close> is kept as it is.\<close>

definition dbReset :: "DoubleBuffer \<Rightarrow> DoubleBuffer option" where
  "dbReset db =
     (case closeAt db of
        CDone _ \<Rightarrow>
          if list_all (\<lambda>w. w = WIdle) (writersAt db)
          then Some (db\<lparr>backBuffer := [], dataReadyFlag := False, dataClosed := False, contextErr := None, flusherAt := FWait,
                       closeAt := CNone, sock := [], accepted := []\<rparr>) else None
      | _ \<Rightarrow> None)"

section \<open>Runs\<close>

text \<open>The steps the writer takes by itself, without a new call and without a failure of the socket.\<close>

inductive inner_step :: "dbErr option option \<Rightarrow> DoubleBuffer \<Rightarrow> DoubleBuffer \<Rightarrow> bool" for wrClose where
  check: "\<not> panicked db \<Longrightarrow> checkContext i db = Some db' \<Longrightarrow> inner_step wrClose db db'"
| lock: "\<not> panicked db \<Longrightarrow> lockAppend i db = Some db' \<Longrightarrow> inner_step wrClose db db'"
| wake: "\<not> panicked db \<Longrightarrow> wakeBlocked i db = Some db' \<Longrightarrow> inner_step wrClose db db'"
| give_up: "\<not> panicked db \<Longrightarrow> giveUp i db = Some db' \<Longrightarrow> inner_step wrClose db db'"
| signal: "\<not> panicked db \<Longrightarrow> signalData i db = Some db' \<Longrightarrow> inner_step wrClose db db'"
| swap: "\<not> panicked db \<Longrightarrow> flushSwap db = Some db' \<Longrightarrow> inner_step wrClose db db'"
| ready: "\<not> panicked db \<Longrightarrow> flushReady db = Some db' \<Longrightarrow> inner_step wrClose db db'"
| out: "\<not> panicked db \<Longrightarrow> flushWrite db = Some db' \<Longrightarrow> inner_step wrClose db db'"
| stop: "\<not> panicked db \<Longrightarrow> flushEnd wrClose db = Some db' \<Longrightarrow> inner_step wrClose db db'"
| closed: "\<not> panicked db \<Longrightarrow> closeEnd db = Some db' \<Longrightarrow> inner_step wrClose db db'"

inductive db_reach :: "dbErr option option \<Rightarrow> nat \<Rightarrow> nat \<Rightarrow> DoubleBuffer \<Rightarrow> bool" for wrClose n limit where
  init: "db_reach wrClose n limit (NewWriterSize n limit)"
| inner: "db_reach wrClose n limit db \<Longrightarrow> inner_step wrClose db db' \<Longrightarrow> db_reach wrClose n limit db'"
| call: "db_reach wrClose n limit db \<Longrightarrow> \<not> panicked db \<Longrightarrow> dbWrite i p db = Some db' \<Longrightarrow> db_reach wrClose n limit db'"
| fail: "db_reach wrClose n limit db \<Longrightarrow> \<not> panicked db \<Longrightarrow> flushFail k e db = Some db' \<Longrightarrow> db_reach wrClose n limit db'"
| close: "db_reach wrClose n limit db \<Longrightarrow> \<not> panicked db \<Longrightarrow> dbClose db = Some db' \<Longrightarrow> db_reach wrClose n limit db'"
| reset: "db_reach wrClose n limit db \<Longrightarrow> \<not> panicked db \<Longrightarrow> dbReset db = Some db' \<Longrightarrow> db_reach wrClose n limit db'"

section \<open>The invariant\<close>

fun inflight :: "flusherPc \<Rightarrow> string" where
  "inflight (FSwapped f) = f"
| "inflight (FWrite f) = f"
| "inflight _ = []"

fun pcOk :: "nat \<Rightarrow> writerPc \<Rightarrow> bool" where
  "pcOk limit (WTry p rest) \<longleftrightarrow> length p \<le> limit \<and> (0 < limit \<and> p = [] \<longrightarrow> rest = [])"
| "pcOk limit (WLock p rest) \<longleftrightarrow> length p \<le> limit \<and> p \<noteq> []"
| "pcOk limit (WBlocked p rest) \<longleftrightarrow> length p \<le> limit \<and> p \<noteq> []"
| "pcOk limit _ \<longleftrightarrow> True"

fun signalling :: "writerPc \<Rightarrow> bool" where
  "signalling (WSignal p rest) \<longleftrightarrow> True"
| "signalling _ \<longleftrightarrow> False"

fun blocked :: "writerPc \<Rightarrow> bool" where
  "blocked (WBlocked p rest) \<longleftrightarrow> True"
| "blocked _ \<longleftrightarrow> False"

text \<open>On its way to the back buffer with something to append.\<close>

fun coming :: "writerPc \<Rightarrow> bool" where
  "coming (WTry p rest) \<longleftrightarrow> p \<noteq> []"
| "coming (WLock p rest) \<longleftrightarrow> True"
| "coming _ \<longleftrightarrow> False"

definition db_inv :: "DoubleBuffer \<Rightarrow> bool" where
  "db_inv db \<longleftrightarrow>
     length (backBuffer db) \<le> bufferLimit db
   \<and> list_all (pcOk (bufferLimit db)) (writersAt db)
   \<and> prefix (sock db) (accepted db)
   \<and> (flusherAt db \<noteq> FExit \<longrightarrow> sock db @ inflight (flusherAt db) @ backBuffer db = accepted db)
   \<and> (flusherAt db = FExit \<longrightarrow> contextErr db \<noteq> None)
   \<and> (backBuffer db \<noteq> [] \<longrightarrow> dataReadyFlag db \<or> list_ex signalling (writersAt db))
   \<and> (contextErr db = None \<and> \<not> bufferReadyFlag db \<and> list_ex blocked (writersAt db) \<longrightarrow>
        (\<exists>f. flusherAt db = FSwapped f) \<or> backBuffer db \<noteq> [] \<or> list_ex coming (writersAt db))"

lemma pcAt_busy: "pcAt ws i = v \<Longrightarrow> v \<noteq> WIdle \<Longrightarrow> i < length ws \<and> ws ! i = v"
  by (auto simp: pcAt_def split: if_splits)

lemma ex_at:
  assumes "i < length ws" "\<not> P (ws ! i)"
  shows "list_ex P (ws[i := w]) \<longleftrightarrow> P w \<or> list_ex P ws"
proof -
  have "P (ws ! n) \<Longrightarrow> n \<noteq> i" for n using assms(2) by auto
  then show ?thesis
    using assms(1) unfolding list_ex_length by (metis length_list_update nth_list_update)
qed

lemma ex_set: "pcAt ws i = v \<Longrightarrow> v \<noteq> WIdle \<Longrightarrow> \<not> P v \<Longrightarrow> list_ex P (ws[i := w]) \<longleftrightarrow> P w \<or> list_ex P ws"
  using pcAt_busy ex_at by metis

lemma all_set: "list_all P ws \<Longrightarrow> P w \<Longrightarrow> list_all P (ws[i := w])"
  unfolding list_all_iff by (metis insertE set_update_subset_insert subsetD)

lemma ex_mono: "list_ex P (ws[i := w]) \<Longrightarrow> P w \<or> list_ex P ws"
  by (metis list_ex_iff insertE set_update_subset_insert subsetD)

lemma ex_here: "i < length ws \<Longrightarrow> P w \<Longrightarrow> list_ex P (ws[i := w])"
  by (metis list_ex_iff set_update_memI)

lemma all_at: "list_all P ws \<Longrightarrow> pcAt ws i = v \<Longrightarrow> v \<noteq> WIdle \<Longrightarrow> P v"
  using pcAt_busy by (metis list_all_length)

lemma parts_prefix: "a @ b @ c = d \<Longrightarrow> prefix (a @ b) d \<and> prefix (a @ take n b) d"
  by (metis append.assoc append_take_drop_id prefixI)

lemma init_inv: "db_inv (NewWriterSize n limit)"
  by (auto simp: db_inv_def NewWriterSize_def list_all_iff list_ex_iff)

lemma nextChunk_ok: "pcOk limit (nextChunk limit rest)" "\<not> signalling (nextChunk limit rest)" "\<not> blocked (nextChunk limit rest)"
  by (auto simp: nextChunk_def)

text \<open>Each action keeps the invariant; a writer's action is traced through \<open>ex_set\<close>, which says how the conditions on
  some writer change.\<close>

lemma checkContext_inv:
  assumes inv: "db_inv db" and step: "checkContext i db = Some db'"
  shows "db_inv db'"
proof -
  obtain p rest where w: "writer db i = WTry p rest" using step by (auto simp: checkContext_def split: writerPc.splits)
  note set = ex_set [OF w writerPc.distinct(2)] and all = all_set [of "pcOk (bufferLimit db)" "writersAt db"]
  consider (err) "contextErr db \<noteq> None" "db' = setWriter i WIdle db"
    | (empty) "contextErr db = None" "p = []" "db' = setWriter i (nextChunk (bufferLimit db) rest) db"
    | (lock) "contextErr db = None" "p \<noteq> []" "db' = setWriter i (WLock p rest) db"
    using step w by (auto simp: checkContext_def split: if_splits)
  then show ?thesis
  proof cases
    case err
    then show ?thesis using inv set [of signalling] all by (auto simp: db_inv_def)
  next
    case empty
    then show ?thesis
      using inv set [of signalling] set [of blocked] set [of coming] all nextChunk_ok [of "bufferLimit db" rest]
      by (auto simp: db_inv_def)
  next
    case lock
    then show ?thesis
      using inv set [of signalling] set [of blocked] all all_at [OF _ w, of "pcOk (bufferLimit db)"]
        ex_here [of i "writersAt db" coming] pcAt_busy [OF w] by (simp add: db_inv_def)
  qed
qed

lemma lockAppend_inv:
  assumes inv: "db_inv db" and step: "lockAppend i db = Some db'"
  shows "db_inv db'"
proof -
  obtain p rest where w: "writer db i = WLock p rest" using step by (auto simp: lockAppend_def split: writerPc.splits)
  note set = ex_set [OF w writerPc.distinct(4)] and all = all_set [of "pcOk (bufferLimit db)" "writersAt db"]
    and ok = all_at [OF _ w, of "pcOk (bufferLimit db)"] and here = ex_here [of i "writersAt db"]
  consider (full) "length (backBuffer db) + length p > bufferLimit db" "db' = setWriter i (WBlocked p rest) db"
    | (room) "length (backBuffer db) + length p \<le> bufferLimit db"
        "db' = setWriter i (WSignal p rest) (db\<lparr>backBuffer := backBuffer db @ p, accepted := accepted db @ p\<rparr>)"
    using step w by (auto simp: lockAppend_def split: if_splits)
  then show ?thesis
  proof cases
    case full
    then show ?thesis using inv set [of signalling] all ok by (auto simp: db_inv_def)
  next
    case room
    then show ?thesis using inv set [of blocked] all ok here [of signalling] pcAt_busy [OF w] by (auto simp: db_inv_def)
  qed
qed

lemma wakeBlocked_inv:
  assumes inv: "db_inv db" and step: "wakeBlocked i db = Some db'"
  shows "db_inv db'"
proof -
  obtain p rest where w: "writer db i = WBlocked p rest"
    and db': "db' = setWriter i (WTry p rest) (db\<lparr>bufferReadyFlag := False\<rparr>)"
    using step by (auto simp: wakeBlocked_def split: writerPc.splits if_splits)
  show ?thesis
    using inv ex_set [OF w writerPc.distinct(6), of signalling] all_set [of "pcOk (bufferLimit db)" "writersAt db"]
      all_at [OF _ w, of "pcOk (bufferLimit db)"] ex_here [of i "writersAt db" coming] pcAt_busy [OF w]
    by (simp add: db_inv_def db')
qed

lemma giveUp_inv:
  assumes inv: "db_inv db" and step: "giveUp i db = Some db'"
  shows "db_inv db'"
proof -
  obtain p rest where w: "writer db i = WBlocked p rest" and db': "db' = setWriter i WIdle db" "contextErr db \<noteq> None"
    using step by (auto simp: giveUp_def split: writerPc.splits if_splits)
  show ?thesis
    using inv db'(2) ex_set [OF w writerPc.distinct(6), of signalling] all_set [of "pcOk (bufferLimit db)" "writersAt db" WIdle]
    by (auto simp: db_inv_def db'(1))
qed

lemma signalData_inv:
  assumes inv: "db_inv db" and step: "signalData i db = Some db'"
  shows "db_inv db'"
proof -
  obtain p rest where w: "writer db i = WSignal p rest" using step by (auto simp: signalData_def split: writerPc.splits)
  note set = ex_set [OF w writerPc.distinct(8)] and all = all_set [of "pcOk (bufferLimit db)" "writersAt db"]
  consider (panic) "db' = db\<lparr>panicked := True\<rparr>"
    | (sent) "db' = setWriter i (nextChunk (bufferLimit db) rest) (db\<lparr>dataReadyFlag := True\<rparr>)"
    using step w by (auto simp: signalData_def split: if_splits)
  then show ?thesis
  proof cases
    case panic
    then show ?thesis using inv by (simp add: db_inv_def)
  next
    case sent
    then show ?thesis
      using inv set [of blocked] set [of coming] all nextChunk_ok [of "bufferLimit db" rest] by (auto simp: db_inv_def)
  qed
qed

lemma dbWrite_inv:
  assumes inv: "db_inv db" and step: "dbWrite i p db = Some db'"
  shows "db_inv db'"
proof -
  let ?w = "WTry (take (bufferLimit db) p) (drop (bufferLimit db) p)" and ?ws = "writersAt db"
  have i: "i < length ?ws" "?ws ! i = WIdle" and db': "db' = setWriter i ?w db"
    using step by (auto simp: dbWrite_def pcAt_def split: if_splits)
  have "list_ex P (?ws[i := ?w]) \<longleftrightarrow> P ?w \<or> list_ex P ?ws" if "\<not> P WIdle" for P
    using i that by (intro ex_at) simp_all
  note ex = this [of signalling] this [of blocked] this [of coming]
  have "pcOk (bufferLimit db) ?w" by auto
  with inv have "list_all (pcOk (bufferLimit db)) (?ws[i := ?w])" by (intro all_set) (simp_all add: db_inv_def)
  then show ?thesis using inv ex unfolding db_inv_def db' by simp blast
qed

lemma flusher_inv:
  assumes "db_inv db"
  shows "flushSwap db = Some db' \<Longrightarrow> db_inv db'" "flushReady db = Some db' \<Longrightarrow> db_inv db'"
    "flushWrite db = Some db' \<Longrightarrow> db_inv db'" "flushFail k e db = Some db' \<Longrightarrow> db_inv db'"
    "flushEnd wrClose db = Some db' \<Longrightarrow> db_inv db'" "dbClose db = Some db' \<Longrightarrow> db_inv db'" "closeEnd db = Some db' \<Longrightarrow> db_inv db'"
  subgoal using assms by (auto simp: flushSwap_def db_inv_def split: if_splits)
  subgoal using assms by (auto simp: flushReady_def db_inv_def split: flusherPc.splits if_splits)
  subgoal using assms by (auto simp: flushWrite_def db_inv_def split: flusherPc.splits dest: parts_prefix)
  subgoal using assms by (auto simp: flushFail_def db_inv_def split: flusherPc.splits dest: parts_prefix)
  subgoal using assms by (auto simp: flushEnd_def db_inv_def split: if_splits)
  subgoal using assms by (auto simp: dbClose_def db_inv_def split: if_splits option.splits)
  subgoal using assms by (auto simp: closeEnd_def db_inv_def split: if_splits option.splits)
  done

lemma dbReset_inv:
  assumes "db_inv db" "dbReset db = Some db'"
  shows "db_inv db'"
proof -
  have idle: "list_all (\<lambda>w. w = WIdle) (writersAt db)" using assms(2) by (auto simp: dbReset_def split: closePc.splits if_splits)
  then have "\<not> list_ex blocked (writersAt db)" by (auto simp: list_all_iff list_ex_iff)
  with assms show ?thesis by (auto simp: dbReset_def db_inv_def split: closePc.splits if_splits)
qed

lemma inner_inv:
  assumes "inner_step wrClose db db'" "db_inv db"
  shows "db_inv db'"
  using assms(1)
proof cases
qed (use assms(2) in \<open>auto intro: checkContext_inv lockAppend_inv wakeBlocked_inv giveUp_inv signalData_inv flusher_inv\<close>)

lemma reach_inv: "db_reach wrClose n limit db \<Longrightarrow> db_inv db"
  by (induction rule: db_reach.induct) (blast intro: init_inv inner_inv dbWrite_inv flusher_inv dbReset_inv)+

section \<open>Termination\<close>

text \<open>A bound on the number of inner steps from a state: a byte that is still to be appended is worth nine, because
  it may lead to a signal, a swap, a write, a signal back and a second try.\<close>

fun pcCost :: "writerPc \<Rightarrow> nat" where
  "pcCost WIdle = 0"
| "pcCost (WTry p rest) = 2 + 9 * (length p + length rest)"
| "pcCost (WLock p rest) = 1 + 9 * (length p + length rest)"
| "pcCost (WBlocked p rest) = 9 * (length p + length rest)"
| "pcCost (WSignal p rest) = 9 + 9 * length rest"

fun flusherCost :: "flusherPc \<Rightarrow> nat" where
  "flusherCost FExit = 0"
| "flusherCost FWait = 1"
| "flusherCost (FWrite f) = 2"
| "flusherCost (FSwapped f) = 6"

definition restCost :: "DoubleBuffer \<Rightarrow> nat" where
  "restCost db = 6 * of_bool (dataReadyFlag db) + 3 * of_bool (bufferReadyFlag db)
     + flusherCost (flusherAt db) + of_bool (closeAt db = CWait) + of_bool (\<not> panicked db)"

definition dbCost :: "DoubleBuffer \<Rightarrow> nat" where
  "dbCost db = sum_list (map pcCost (writersAt db)) + restCost db"

lemma cost_set:
  assumes "pcAt ws i = v" "v \<noteq> WIdle"
  shows "sum_list (map c (ws[i := w])) + c v = sum_list (map c ws) + (c w :: nat)"
proof -
  have i: "i < length ws" "ws ! i = v" using pcAt_busy [OF assms] by auto
  then have "v \<in> set ws" by (metis nth_mem)
  then have "c v \<le> sum_list (map c ws)" by (intro member_le_sum_list) simp_all
  then show ?thesis using i by (simp add: map_update sum_list_update)
qed

lemma cost_nextChunk: "pcCost (nextChunk limit rest) \<le> 2 + 9 * length rest"
proof -
  have "length (take limit rest) + length (drop limit rest) = length rest" by (metis append_take_drop_id length_append)
  then show ?thesis unfolding nextChunk_def pcCost.simps by simp
qed

lemma restCost_writers [simp]: "restCost (db\<lparr>writersAt := ws\<rparr>) = restCost db"
  by (simp add: restCost_def)

lemma cost_setWriter:
  assumes "writer db i = v" "v \<noteq> WIdle" "pcCost w < pcCost v"
  shows "dbCost (setWriter i w db) < dbCost db"
  using cost_set [OF assms(1,2), of pcCost w] assms(3) by (simp add: dbCost_def)

lemma checkContext_cost:
  assumes "checkContext i db = Some db'" "db_inv db" "0 < bufferLimit db"
  shows "dbCost db' < dbCost db"
proof -
  obtain p rest where w: "writer db i = WTry p rest" using assms(1) by (auto simp: checkContext_def split: writerPc.splits)
  note drop = cost_setWriter [OF w writerPc.distinct(2)]
  have "p = [] \<Longrightarrow> rest = []" using all_at [OF _ w, of "pcOk (bufferLimit db)"] assms(2,3) by (auto simp: db_inv_def)
  then have "db' = setWriter i WIdle db \<or> db' = setWriter i (WLock p rest) db"
    using assms(1) w by (auto simp: checkContext_def nextChunk_def split: if_splits)
  then show ?thesis using drop [of WIdle] drop [of "WLock p rest"] by auto
qed

lemma lockAppend_cost:
  assumes "lockAppend i db = Some db'" "db_inv db"
  shows "dbCost db' < dbCost db"
proof -
  obtain p rest where w: "writer db i = WLock p rest" using assms(1) by (auto simp: lockAppend_def split: writerPc.splits)
  have "1 \<le> length p" using all_at [OF _ w, of "pcOk (bufferLimit db)"] assms(2) by (cases p) (auto simp: db_inv_def)
  then have "dbCost (setWriter i (WBlocked p rest) db) < dbCost db" "dbCost (setWriter i (WSignal p rest) db) < dbCost db"
    using cost_setWriter [OF w] by simp_all
  moreover have "dbCost db' = dbCost (setWriter i (WBlocked p rest) db) \<or> dbCost db' = dbCost (setWriter i (WSignal p rest) db)"
    using assms(1) w by (auto simp: lockAppend_def dbCost_def restCost_def split: if_splits)
  ultimately show ?thesis by auto
qed

lemma wakeBlocked_cost:
  assumes "wakeBlocked i db = Some db'"
  shows "dbCost db' < dbCost db"
proof -
  obtain p rest where w: "writer db i = WBlocked p rest" and ready: "bufferReadyFlag db"
    and db': "db' = setWriter i (WTry p rest) (db\<lparr>bufferReadyFlag := False\<rparr>)"
    using assms by (auto simp: wakeBlocked_def split: writerPc.splits if_splits)
  show ?thesis using cost_set [OF w, of pcCost "WTry p rest"] ready unfolding dbCost_def restCost_def db' by simp
qed

lemma giveUp_cost:
  assumes "giveUp i db = Some db'" "db_inv db"
  shows "dbCost db' < dbCost db"
proof -
  obtain p rest where w: "writer db i = WBlocked p rest" using assms(1) by (auto simp: giveUp_def split: writerPc.splits)
  have "1 \<le> length p" using all_at [OF _ w, of "pcOk (bufferLimit db)"] assms(2) by (cases p) (auto simp: db_inv_def)
  then have "dbCost (setWriter i WIdle db) < dbCost db" by (intro cost_setWriter [OF w]) auto
  then show ?thesis using assms(1) w by (simp add: giveUp_def split: if_splits)
qed

lemma signalData_cost:
  assumes "signalData i db = Some db'" "\<not> panicked db"
  shows "dbCost db' < dbCost db"
proof -
  obtain p rest where w: "writer db i = WSignal p rest" using assms(1) by (auto simp: signalData_def split: writerPc.splits)
  then consider "db' = db\<lparr>panicked := True\<rparr>" | "db' = setWriter i (nextChunk (bufferLimit db) rest) (db\<lparr>dataReadyFlag := True\<rparr>)"
    using assms(1) by (auto simp: signalData_def split: if_splits)
  then show ?thesis
  proof cases
    case 1
    then show ?thesis using assms(2) unfolding dbCost_def restCost_def by simp
  next
    case 2
    then show ?thesis
      using cost_set [OF w, of pcCost "nextChunk (bufferLimit db) rest"] cost_nextChunk [of "bufferLimit db" rest]
      unfolding dbCost_def restCost_def by simp
  qed
qed

lemma flusher_cost:
  shows "flushSwap db = Some db' \<Longrightarrow> dbCost db' < dbCost db" "flushReady db = Some db' \<Longrightarrow> dbCost db' < dbCost db"
    "flushWrite db = Some db' \<Longrightarrow> dbCost db' < dbCost db" "flushEnd wrClose db = Some db' \<Longrightarrow> dbCost db' < dbCost db"
    "closeEnd db = Some db' \<Longrightarrow> dbCost db' < dbCost db"
  subgoal by (auto simp: flushSwap_def dbCost_def restCost_def split: if_splits)
  subgoal by (auto simp: flushReady_def dbCost_def restCost_def split: flusherPc.splits if_splits)
  subgoal by (auto simp: flushWrite_def dbCost_def restCost_def split: flusherPc.splits)
  subgoal by (auto simp: flushEnd_def dbCost_def restCost_def split: if_splits)
  subgoal by (auto simp: closeEnd_def dbCost_def restCost_def split: if_splits option.splits)
  done

lemma inner_cost:
  assumes "inner_step wrClose db db'" "db_inv db" "0 < bufferLimit db"
  shows "dbCost db' < dbCost db"
  using assms(1)
proof cases
qed (use assms(2,3) in \<open>blast intro: checkContext_cost lockAppend_cost wakeBlocked_cost giveUp_cost signalData_cost flusher_cost\<close>)+

lemma inner_limit: "inner_step wrClose db db' \<Longrightarrow> bufferLimit db' = bufferLimit db"
  by (erule inner_step.cases)
    (auto simp: checkContext_def lockAppend_def wakeBlocked_def giveUp_def signalData_def flushSwap_def flushReady_def
      flushWrite_def flushEnd_def closeEnd_def split: writerPc.splits flusherPc.splits if_splits option.splits)

definition stuck :: "dbErr option option \<Rightarrow> DoubleBuffer \<Rightarrow> bool" where
  "stuck wrClose db \<longleftrightarrow> (\<forall>db'. \<not> inner_step wrClose db db')"

lemma runs_end:
  assumes "db_inv db" "0 < bufferLimit db"
  shows "\<exists>db'. (inner_step wrClose)\<^sup>*\<^sup>* db db' \<and> stuck wrClose db'"
  using assms
proof (induction "dbCost db" arbitrary: db rule: less_induct)
  case less
  show ?case
  proof (cases "stuck wrClose db")
    case False
    then obtain db1 where s: "inner_step wrClose db db1" by (auto simp: stuck_def)
    with less.hyps [OF inner_cost [OF s less.prems] inner_inv [OF s less.prems(1)]] inner_limit [OF s] less.prems(2)
    obtain db' where "(inner_step wrClose)\<^sup>*\<^sup>* db1 db'" "stuck wrClose db'" by auto
    then show ?thesis using s by (meson converse_rtranclp_into_rtranclp)
  qed blast
qed

section \<open>Delivery\<close>

lemma inner_open:
  assumes "inner_step wrClose db db'" "contextErr db = None" "\<not> dataClosed db"
  shows "contextErr db' = None \<and> \<not> dataClosed db' \<and> \<not> panicked db'"
  using assms
  by cases (auto simp: checkContext_def lockAppend_def wakeBlocked_def giveUp_def signalData_def flushSwap_def flushReady_def
      flushWrite_def flushEnd_def closeEnd_def split: writerPc.splits flusherPc.splits if_splits option.splits)

text \<open>A state in which nothing moves by itself is one where there is nothing left to do: no wakeup is lost.\<close>

lemma stuck_flusher:
  assumes "db_inv db" "\<not> panicked db" "stuck wrClose db" "contextErr db = None"
  shows "flusherAt db = FWait" "\<not> dataReadyFlag db"
proof -
  have no: "flushSwap db = None" "flushReady db = None" "flushWrite db = None"
    using assms(2,3) unfolding stuck_def by (metis inner_step.swap inner_step.ready inner_step.out option.exhaust)+
  have "flusherAt db \<noteq> FExit" using assms(1,4) by (auto simp: db_inv_def)
  then show "flusherAt db = FWait" using no(2,3) by (cases "flusherAt db") (auto simp: flushReady_def flushWrite_def)
  then show "\<not> dataReadyFlag db" using no(1) by (auto simp: flushSwap_def)
qed

lemma stuck_writer:
  assumes "\<not> panicked db" "stuck wrClose db"
  shows "writer db i = WIdle \<or> (\<exists>p rest. writer db i = WBlocked p rest \<and> \<not> bufferReadyFlag db \<and> contextErr db = None)"
proof -
  have "checkContext i db = None" "lockAppend i db = None" "wakeBlocked i db = None" "giveUp i db = None" "signalData i db = None"
    using assms unfolding stuck_def
    by (metis inner_step.check inner_step.lock inner_step.wake inner_step.give_up inner_step.signal option.exhaust)+
  then show ?thesis
    by (cases "writer db i") (auto simp: checkContext_def lockAppend_def wakeBlocked_def giveUp_def signalData_def split: if_splits)
qed

lemma list_ex_pcAt: "list_ex P ws \<Longrightarrow> \<exists>i. P (pcAt ws i)"
  by (auto simp: list_ex_length pcAt_def)

lemma stuck_done:
  assumes "db_inv db" "\<not> panicked db" "stuck wrClose db" "contextErr db = None"
  shows "\<forall>i. writer db i = WIdle" "sock db = accepted db" "backBuffer db = []"
proof -
  note fl = stuck_flusher [OF assms] and wr = stuck_writer [OF assms(2,3)]
  have "\<not> list_ex signalling (writersAt db)" "\<not> list_ex coming (writersAt db)"
    using wr by (metis list_ex_pcAt signalling.simps(2,5) coming.simps(3,4))+
  then have emp: "backBuffer db = []" and nb: "bufferReadyFlag db \<or> \<not> list_ex blocked (writersAt db)"
    using assms(1,4) fl by (auto simp: db_inv_def)
  show idle: "\<forall>i. writer db i = WIdle"
  proof (rule ccontr)
    assume "\<not> ?thesis"
    then obtain i p rest where b: "writer db i = WBlocked p rest" "\<not> bufferReadyFlag db" using wr by blast
    then have "list_ex blocked (writersAt db)"
      using pcAt_busy [OF b(1)] unfolding list_ex_length by (metis blocked.simps(1) writerPc.distinct(5))
    with nb b(2) show False by simp
  qed
  show "backBuffer db = []" by (rule emp)
  then show "sock db = accepted db" using assms(1) fl by (simp add: db_inv_def)
qed

lemma runs_open:
  assumes "(inner_step wrClose)\<^sup>*\<^sup>* db db'" "db_inv db" "contextErr db = None" "\<not> dataClosed db" "\<not> panicked db"
  shows "db_inv db' \<and> contextErr db' = None \<and> \<not> dataClosed db' \<and> \<not> panicked db'"
  using assms by (induction rule: rtranclp_induct) (auto dest: inner_open inner_inv)

text \<open>One goroutine that makes the calls \<open>ps\<close> of \<^verbatim>\<open>Write\<close> one after the other.\<close>

inductive one_writer :: "dbErr option option \<Rightarrow> nat \<Rightarrow> string list \<Rightarrow> DoubleBuffer \<Rightarrow> bool" for wrClose limit where
  start: "one_writer wrClose limit [] (NewWriterSize 1 limit)"
| inner: "one_writer wrClose limit ps db \<Longrightarrow> inner_step wrClose db db' \<Longrightarrow> one_writer wrClose limit ps db'"
| call: "one_writer wrClose limit ps db \<Longrightarrow> \<not> panicked db \<Longrightarrow> dbWrite 0 p db = Some db' \<Longrightarrow> one_writer wrClose limit (ps @ [p]) db'"

fun pending :: "writerPc \<Rightarrow> string" where
  "pending WIdle = []"
| "pending (WTry p rest) = p @ rest"
| "pending (WLock p rest) = p @ rest"
| "pending (WBlocked p rest) = p @ rest"
| "pending (WSignal p rest) = rest"

lemma pending_nextChunk [simp]: "pending (nextChunk limit rest) = rest"
  by (simp add: nextChunk_def)

lemma pcAt_one: "length ws = 1 \<Longrightarrow> pcAt (ws[0 := w]) 0 = w"
  by (auto simp: pcAt_def)

lemma inner_one:
  assumes "inner_step wrClose db db'" "length (writersAt db) = 1" "contextErr db = None" "\<not> dataClosed db"
  shows "length (writersAt db') = 1 \<and> accepted db' @ pending (writer db' 0) = accepted db @ pending (writer db 0)"
proof -
  have i0: "i = 0" if "writer db i \<noteq> WIdle" for i using that assms(2) by (auto simp: pcAt_def split: if_splits)
  from assms(1) show ?thesis
  proof cases
    case (check i)
    then show ?thesis using i0 [of i] assms(2,3)
      by (auto simp: checkContext_def pcAt_one split: writerPc.splits if_splits)
  next
    case (lock i)
    then show ?thesis using i0 [of i] assms(2) by (auto simp: lockAppend_def pcAt_one split: writerPc.splits if_splits)
  next
    case (wake i)
    then show ?thesis using i0 [of i] assms(2) by (auto simp: wakeBlocked_def pcAt_one split: writerPc.splits if_splits)
  next
    case (give_up i)
    then show ?thesis using assms(3) by (auto simp: giveUp_def split: writerPc.splits)
  next
    case (signal i)
    then show ?thesis using i0 [of i] assms(2,4) by (auto simp: signalData_def pcAt_one split: writerPc.splits if_splits)
  qed (use assms(2) in \<open>auto simp: flushSwap_def flushReady_def flushWrite_def flushEnd_def closeEnd_def
      split: flusherPc.splits if_splits option.splits\<close>)
qed

lemma one_writer_inv:
  assumes "one_writer wrClose limit ps db"
  shows "db_inv db \<and> contextErr db = None \<and> \<not> dataClosed db \<and> \<not> panicked db \<and> length (writersAt db) = 1
     \<and> accepted db @ pending (writer db 0) = concat ps"
  using assms
proof (induction rule: one_writer.induct)
  case start
  show ?case using init_inv [of 1 limit] by (simp add: NewWriterSize_def pcAt_def)
next
  case (inner ps db db')
  then show ?case using inner_inv inner_open inner_one by metis
next
  case (call ps db p db')
  then have "writer db 0 = WIdle" "db' = setWriter 0 (WTry (take (bufferLimit db) p) (drop (bufferLimit db) p)) db"
    by (auto simp: dbWrite_def split: if_splits)
  with call dbWrite_inv [OF _ call.hyps(3)] show ?case by (simp add: pcAt_one)
qed

text \<open>After \<^verbatim>\<open>Close\<close> with no write under way only the flusher moves.\<close>

definition closing :: "dbErr option option \<Rightarrow> string \<Rightarrow> DoubleBuffer \<Rightarrow> bool" where
  "closing wrClose out db \<longleftrightarrow> db_inv db \<and> dataClosed db \<and> \<not> panicked db \<and> (\<forall>i. writer db i = WIdle) \<and> accepted db = out
     \<and> (if contextErr db = None then closeAt db = CWait
        else contextErr db = Some (exitCause wrClose) \<and> flusherAt db = FExit \<and> sock db = out
          \<and> closeAt db \<in> {CWait, CDone (if exitCause wrClose = ErrClosedPipe then None else Some (exitCause wrClose))})"

lemma idle_no_signal: "\<forall>i. pcAt ws i = WIdle \<Longrightarrow> \<not> list_ex signalling ws"
  by (metis list_ex_pcAt signalling.simps(2))

lemma closing_inner:
  assumes "inner_step wrClose db db'" "closing wrClose out db"
  shows "closing wrClose out db'"
proof -
  have idle: "\<And>i. writer db i = WIdle" and inv': "db_inv db'" and inv: "db_inv db"
    using assms inner_inv by (auto simp: closing_def)
  from assms(1) show ?thesis
  proof cases
    case swap
    then show ?thesis using assms(2) inv' by (auto simp: closing_def flushSwap_def split: if_splits)
  next
    case ready
    then show ?thesis using assms(2) inv' by (auto simp: closing_def flushReady_def split: flusherPc.splits if_splits)
  next
    case out
    then show ?thesis using assms(2) inv' by (auto simp: closing_def flushWrite_def split: flusherPc.splits if_splits)
  next
    case stop
    then have st: "flusherAt db = FWait" "\<not> dataReadyFlag db"
      "db' = db\<lparr>contextErr := Some (exitCause wrClose), flusherAt := FExit\<rparr>" by (auto simp: flushEnd_def split: if_splits)
    have "backBuffer db = []" using inv st(2) idle_no_signal idle by (auto simp: db_inv_def)
    then have "sock db = accepted db" using inv st(1) by (simp add: db_inv_def)
    then show ?thesis using assms(2) inv' st by (auto simp: closing_def split: if_splits)
  next
    case closed
    then show ?thesis using assms(2) inv' by (auto simp: closing_def closeEnd_def split: if_splits option.splits)
  qed (use idle in \<open>auto simp: checkContext_def lockAppend_def wakeBlocked_def giveUp_def signalData_def\<close>)
qed

lemma closing_stuck:
  assumes "closing wrClose out db" "stuck wrClose db"
  shows "sock db = out \<and> closeAt db = CDone (if exitCause wrClose = ErrClosedPipe then None else Some (exitCause wrClose))"
proof (cases "contextErr db")
  case None
  have inv: "db_inv db" "\<not> panicked db" "dataClosed db" using assms(1) by (auto simp: closing_def)
  then have "flushEnd wrClose db \<noteq> None" using stuck_flusher [OF inv(1,2) assms(2) None] by (simp add: flushEnd_def)
  then show ?thesis using assms(2) inv(2) unfolding stuck_def by (metis inner_step.stop option.exhaust)
next
  case (Some e)
  have "closeEnd db = None" using assms unfolding stuck_def closing_def by (metis inner_step.closed option.exhaust)
  then show ?thesis using assms(1) Some by (auto simp: closing_def closeEnd_def split: if_splits)
qed

section \<open>Properties\<close>

text \<open>C7: no wakeup is lost and nobody waits for ever: from every reachable state of an open buffer, whatever its writers and
  the flusher were doing, every run of their own steps ends after a bounded number of them, and where it ends all
  calls of Write have returned and every accepted byte has reached the socket.\<close>

theorem buffer_delivers:
  assumes "db_reach wrClose n limit db" "0 < bufferLimit db" "contextErr db = None" "\<not> dataClosed db" "\<not> panicked db"
  shows "(\<exists>db'. (inner_step wrClose)\<^sup>*\<^sup>* db db' \<and> stuck wrClose db')
     \<and> (\<forall>k db'. (inner_step wrClose ^^ k) db db' \<longrightarrow> k \<le> dbCost db)
     \<and> (\<forall>db'. (inner_step wrClose)\<^sup>*\<^sup>* db db' \<and> stuck wrClose db' \<longrightarrow>
          (\<forall>i. writer db' i = WIdle) \<and> sock db' = accepted db' \<and> backBuffer db' = [])"
proof (intro conjI)
  note inv = reach_inv [OF assms(1)]
  show "\<exists>db'. (inner_step wrClose)\<^sup>*\<^sup>* db db' \<and> stuck wrClose db'" by (rule runs_end [OF inv assms(2)])
  have "db_inv db' \<and> 0 < bufferLimit db' \<and> k + dbCost db' \<le> dbCost db" if "(inner_step wrClose ^^ k) db db'" for k db'
    using that
  proof (induction k arbitrary: db')
    case (Suc k)
    then obtain db1 where s: "(inner_step wrClose ^^ k) db db1" "inner_step wrClose db1 db'" by auto
    then show ?case using Suc.IH [OF s(1)] inner_cost [OF s(2)] inner_inv [OF s(2)] inner_limit [OF s(2)] by fastforce
  qed (use inv assms(2) in simp)
  then show "\<forall>k db'. (inner_step wrClose ^^ k) db db' \<longrightarrow> k \<le> dbCost db" by fastforce
  show "\<forall>db'. (inner_step wrClose)\<^sup>*\<^sup>* db db' \<and> stuck wrClose db' \<longrightarrow>
      (\<forall>i. writer db' i = WIdle) \<and> sock db' = accepted db' \<and> backBuffer db' = []"
    using runs_open [OF _ inv assms(3-5)] stuck_done by blast
qed

text \<open>C8: the replies of one goroutine reach the socket in order and unchanged, however long they are and however the flusher
  is scheduled: the socket has a prefix of what was written, all of it when nothing moves any more, and the back
  buffer never exceeds its limit.\<close>

theorem replies_in_order:
  assumes "one_writer wrClose limit ps db"
  shows "prefix (sock db) (concat ps) \<and> (stuck wrClose db \<longrightarrow> sock db = concat ps) \<and> length (backBuffer db) \<le> bufferLimit db"
proof -
  note inv = one_writer_inv [OF assms]
  have "prefix (accepted db) (concat ps)" using inv by (metis prefixI)
  moreover have "prefix (sock db) (accepted db)" using inv by (auto simp: db_inv_def)
  moreover have "sock db = concat ps" if "stuck wrClose db"
    using stuck_done [OF _ _ that] inv by (metis append_Nil2 pending.simps(1))
  ultimately show ?thesis using inv by (auto simp: db_inv_def intro: prefix_order.trans)
qed



section \<open>Witnesses\<close>

lemma fresh_buffer:
  "bufferLimit (NewWriterSize n limit) = limit" "contextErr (NewWriterSize n limit) = None" "\<not> dataClosed (NewWriterSize n limit)"
  "\<not> panicked (NewWriterSize n limit)" "closeAt (NewWriterSize n limit) = CNone" "writer (NewWriterSize n limit) i = WIdle"
  "accepted (NewWriterSize n limit) = []"
  by (simp_all add: NewWriterSize_def pcAt_def)

theorem buffer_delivers_witness:
  "\<exists>db'. (inner_step None)\<^sup>*\<^sup>* (NewWriterSize 3 131072) db' \<and> stuck None db'"
  using buffer_delivers [OF db_reach.init, of 3 131072 None] by (simp add: fresh_buffer)

theorem replies_in_order_witness:
  "\<exists>db. dbWrite 0 ''+OK'' (NewWriterSize 1 8) = Some db \<and> one_writer None 8 [''+OK''] db \<and> prefix (sock db) ''+OK''"
proof -
  obtain db where db: "dbWrite 0 ''+OK'' (NewWriterSize 1 8) = Some db" by (simp add: dbWrite_def NewWriterSize_def pcAt_def)
  have "one_writer None 8 ([] @ [''+OK'']) db"
    using one_writer.call [OF one_writer.start _ db] by (simp add: fresh_buffer)
  then show ?thesis using replies_in_order [of None 8 "[''+OK'']" db] db by auto
qed



end
