(* ===== verification/Go_Strconv.thy ===== *)
theory Go_Strconv
  imports Ember_Prelude
begin

text \<open>
  The part of Go's standard library that turns numbers into text and back, as EmberDB uses it:
  \<^verbatim>\<open>strconv.Itoa\<close>, \<^verbatim>\<open>strconv.Atoi\<close>, the 64-bit wrap-around of Go's \<^verbatim>\<open>int\<close>, ASCII case mapping and
  \<^verbatim>\<open>strings.IndexByte\<close>. The round trip \<open>Atoi_Itoa\<close> is what the counters of the store rest on.
\<close>

section \<open>64-bit integers\<close>

definition MaxInt64 :: int where "MaxInt64 = 9223372036854775807"
definition MinInt64 :: int where "MinInt64 = - 9223372036854775808"

text \<open>Go's \<^verbatim>\<open>int\<close> is a 64-bit two's complement number: arithmetic wraps.\<close>

definition wrap64 :: "int \<Rightarrow> int" where
  "wrap64 x = signed_take_bit 63 x"

definition int64_ok :: "int \<Rightarrow> bool" where
  "int64_ok x \<longleftrightarrow> MinInt64 \<le> x \<and> x \<le> MaxInt64"

lemma wrap64_ok [simp, intro!]: "int64_ok (wrap64 x)"
  using signed_take_bit_int_greater_eq_minus_exp [of 63 x] signed_take_bit_int_less_exp [of 63 x]
  by (simp add: int64_ok_def wrap64_def MinInt64_def MaxInt64_def)

lemma wrap64_id: "int64_ok x \<Longrightarrow> wrap64 x = x"
  by (simp add: wrap64_def int64_ok_def MinInt64_def MaxInt64_def signed_take_bit_int_eq_self_iff)

lemma wrap64_cong: "wrap64 x mod 2 ^ 64 = x mod 2 ^ 64"
proof -
  have "take_bit 64 (signed_take_bit 63 x) = take_bit 64 x"
    by (simp add: take_bit_signed_take_bit)
  then show ?thesis by (simp only: wrap64_def take_bit_eq_mod)
qed

section \<open>Printing\<close>

definition digit_char :: "nat \<Rightarrow> char" where
  "digit_char d = char_of (48 + d)"

fun utoa :: "nat \<Rightarrow> string" where
  "utoa n = (if n < 10 then [digit_char n] else utoa (n div 10) @ [digit_char (n mod 10)])"

declare utoa.simps [simp del]

definition Itoa :: "int \<Rightarrow> string" where
  "Itoa x = (if x < 0 then CHR ''-'' # utoa (nat (- x)) else utoa (nat x))"

section \<open>Parsing\<close>

datatype numErr = ErrSyntax | ErrRange

definition is_digit :: "char \<Rightarrow> bool" where
  "is_digit c \<longleftrightarrow> 48 \<le> (of_char c :: nat) \<and> (of_char c :: nat) \<le> 57"

definition digit_val :: "char \<Rightarrow> nat" where
  "digit_val c = of_char c - 48"

text \<open>The digit loop of \<^verbatim>\<open>strconv.ParseUint\<close> at base 10 and 64 bits: a byte that is no digit is a
  syntax error, a value past \<open>2 ^ 64 - 1\<close> a range error, whichever comes first.\<close>

fun parseDigits :: "nat \<Rightarrow> string \<Rightarrow> numErr + nat" where
  "parseDigits n [] = Inr n"
| "parseDigits n (c # cs) =
     (if \<not> is_digit c then Inl ErrSyntax
      else if 18446744073709551615 < n * 10 + digit_val c then Inl ErrRange
      else parseDigits (n * 10 + digit_val c) cs)"

definition ParseUint :: "string \<Rightarrow> numErr + nat" where
  "ParseUint s = (if s = [] then Inl ErrSyntax else parseDigits 0 s)"

text \<open>\<^verbatim>\<open>strconv.Atoi\<close>: an optional sign, then digits, in the range of a 64-bit integer.\<close>

definition Atoi :: "string \<Rightarrow> numErr + int" where
  "Atoi s = (case s of
       [] \<Rightarrow> Inl ErrSyntax
     | c # cs \<Rightarrow>
         (let neg = (c = CHR ''-'');
              body = (if neg \<or> c = CHR ''+'' then cs else s)
          in case ParseUint body of
               Inl e \<Rightarrow> Inl e
             | Inr un \<Rightarrow>
                 (if \<not> neg \<and> un \<ge> 9223372036854775808 then Inl ErrRange
                  else if neg \<and> un > 9223372036854775808 then Inl ErrRange
                  else Inr (if neg then - int un else int un))))"

lemma is_digit_digit_char [simp]: "d < 10 \<Longrightarrow> is_digit (digit_char d)"
  by (simp add: is_digit_def digit_char_def)

lemma digit_val_digit_char [simp]: "d < 10 \<Longrightarrow> digit_val (digit_char d) = d"
  by (simp add: digit_val_def digit_char_def)

lemma utoa_not_Nil [simp]: "utoa n \<noteq> []"
  by (subst utoa.simps) simp

lemma utoa_digits: "c \<in> set (utoa n) \<Longrightarrow> is_digit c"
proof (induction n rule: utoa.induct)
  case (1 n)
  then show ?case by (cases "n < 10") (auto simp: utoa.simps [of n])
qed

lemma not_digit_sign [simp]: "\<not> is_digit (CHR ''-'')" "\<not> is_digit (CHR ''+'')"
  by (simp_all add: is_digit_def)

lemma parseDigits_append:
  "parseDigits n (xs @ ys) = (case parseDigits n xs of Inl e \<Rightarrow> Inl e | Inr m \<Rightarrow> parseDigits m ys)"
  by (induction n xs rule: parseDigits.induct) auto

lemma parseDigits_utoa: "n < 2 ^ 64 \<Longrightarrow> parseDigits 0 (utoa n) = Inr n"
proof (induction n rule: utoa.induct)
  case (1 n)
  show ?case
  proof (cases "n < 10")
    case True
    then show ?thesis by (simp add: utoa.simps [of n])
  next
    case False
    then have "parseDigits 0 (utoa (n div 10)) = Inr (n div 10)"
      using "1.IH" "1.prems" by simp
    moreover have "n div 10 * 10 + n mod 10 = n" by presburger
    ultimately show ?thesis
      using False "1.prems" by (simp add: utoa.simps [of n] parseDigits_append)
  qed
qed

lemma hd_utoa_digit: "utoa n = c # cs \<Longrightarrow> is_digit c"
  using utoa_digits [of c n] by simp

lemma Atoi_utoa_pos: "n < 9223372036854775808 \<Longrightarrow> Atoi (utoa n) = Inr (int n)"
proof -
  assume n: "n < 9223372036854775808"
  obtain c cs where u: "utoa n = c # cs" by (cases "utoa n") auto
  then have "c \<noteq> CHR ''-''" "c \<noteq> CHR ''+''" using hd_utoa_digit [OF u] by auto
  then show ?thesis using n parseDigits_utoa [of n] u by (simp add: Atoi_def ParseUint_def)
qed

theorem Atoi_Itoa: "int64_ok x \<Longrightarrow> Atoi (Itoa x) = Inr x"
proof (cases "x < 0")
  case True
  assume "int64_ok x"
  with True have "nat (- x) \<le> 9223372036854775808"
    by (simp add: int64_ok_def MinInt64_def nat_le_iff)
  with True show ?thesis
    using parseDigits_utoa [of "nat (- x)"] by (simp add: Itoa_def Atoi_def ParseUint_def Let_def)
next
  case False
  assume "int64_ok x"
  with False show ?thesis
    using Atoi_utoa_pos [of "nat x"] by (simp add: Itoa_def int64_ok_def MaxInt64_def nat_less_iff)
qed

lemma Itoa_inject: "int64_ok x \<Longrightarrow> int64_ok y \<Longrightarrow> Itoa x = Itoa y \<longleftrightarrow> x = y"
  by (metis Atoi_Itoa sum.inject(2))

lemma Atoi_ok: "Atoi s = Inr x \<Longrightarrow> int64_ok x"
  by (auto simp: Atoi_def Let_def int64_ok_def MinInt64_def MaxInt64_def
      split: list.splits sum.splits if_splits)

section \<open>ASCII case and byte search\<close>

definition lower_byte :: "char \<Rightarrow> char" where
  "lower_byte c = (if 65 \<le> (of_char c :: nat) \<and> (of_char c :: nat) \<le> 90
                   then char_of ((of_char c :: nat) + 32) else c)"

definition upper_byte :: "char \<Rightarrow> char" where
  "upper_byte c = (if 97 \<le> (of_char c :: nat) \<and> (of_char c :: nat) \<le> 122
                   then char_of ((of_char c :: nat) - 32) else c)"

fun IndexByte :: "string \<Rightarrow> char \<Rightarrow> nat option" where
  "IndexByte [] c = None"
| "IndexByte (x # xs) c = (if x = c then Some 0 else map_option Suc (IndexByte xs c))"

lemma IndexByte_Some_iff:
  "IndexByte s c = Some i \<longleftrightarrow> i < length s \<and> s ! i = c \<and> (\<forall>j < i. s ! j \<noteq> c)"
proof (induction s arbitrary: i)
  case (Cons x xs)
  show ?case
    by (cases i) (auto simp: Cons.IH less_Suc_eq_0_disj)
qed simp

lemma IndexByte_None_iff: "IndexByte s c = None \<longleftrightarrow> c \<notin> set s"
  by (induction s) auto

lemma lower_byte_idem [simp]: "lower_byte (lower_byte c) = lower_byte c"
  by (auto simp: lower_byte_def)

text \<open>Evaluating the conversions on literals.\<close>

lemmas strconv_eval = Atoi_def Let_def ParseUint_def is_digit_def digit_val_def Itoa_def utoa.simps digit_char_def
  lower_byte_def upper_byte_def

end
