(* ===== verification/KV_Store.thy ===== *)
theory KV_Store
  imports Go_Strconv
begin

text \<open>
  \<^verbatim>\<open>utils/kvstore/kvstore.go\<close> and \<^verbatim>\<open>shard.go\<close>: the store's data, its creation, hash slots, \<^verbatim>\<open>Delete\<close>,
  \<^verbatim>\<open>FlushAll\<close> and \<^verbatim>\<open>GetKeysInSlot\<close>, with the well-formedness invariant \<open>kv_wf\<close> of the store.

  The checksum \<^verbatim>\<open>crc16.ChecksumXModem\<close> is a third-party package and is the parameter \<open>crc\<close> of every
  operation that hashes a key. Every operation holds the store's lock (or the lock of one shard) for
  its whole body, so it is one atomic transformer of the store; the locks themselves are not fields.
  The array \<^verbatim>\<open>slots [16384]shard\<close> is a function from the slot number.
\<close>

section \<open>Data\<close>

datatype DataType = StringType | ListType | HashType | SetType | SortedSetType

datatype kvError = ErrWrongType | ErrNotInteger | ErrIncrBy | ErrDecrBy | ErrZAddOdd | ErrZAddScore

fun kvError_text :: "kvError \<Rightarrow> string" where
  "kvError_text ErrWrongType = ''WRONGTYPE Operation against a key holding the wrong kind of value''"
| "kvError_text ErrNotInteger = ''ERR value is not an integer''"
| "kvError_text ErrIncrBy = ''ERR INCRBY val is not an integer''"
| "kvError_text ErrDecrBy = ''ERR DECRBY val is not an integer''"
| "kvError_text ErrZAddOdd = ''ERR ZADD requires an even number of arguments''"
| "kvError_text ErrZAddScore = ''ERR ZADD invalid score''"

text \<open>A score is a Go \<^verbatim>\<open>float64\<close>, kept as its 64 bits.\<close>

record SortedSetMember =
  Member :: string
  Score :: u64

record Value =
  vType :: DataType
  vString :: string
  vList :: "string list"
  vHash :: "(string, string) gomap"
  vSet :: "(string, unit) gomap"
  vSortedSet :: "SortedSetMember list"

definition zeroValue :: Value where
  "zeroValue = \<lparr>vType = StringType, vString = [], vList = [], vHash = NilMap, vSet = NilMap,
     vSortedSet = []\<rparr>"

record shard =
  shard_m :: "(string, Value) gomap"

record KVStore =
  Strings :: "(string, string) gomap"
  Lists :: "(string, string list) gomap"
  Hashes :: "(string, (string, string) gomap) gomap"
  Sets :: "(string, (string, unit) gomap) gomap"
  SortedSets :: "(string, SortedSetMember list) gomap"
  Expirations :: "(string, int) gomap"
  slots :: "nat \<Rightarrow> shard"
  clusterEnabled :: bool

type_synonym crc16 = "string \<Rightarrow> u16"

definition NewKVStore :: "bool list \<Rightarrow> KVStore" where
  "NewKVStore cluster =
     \<lparr>Strings = GoMap [], Lists = GoMap [], Hashes = GoMap [], Sets = GoMap [], SortedSets = GoMap [],
      Expirations = GoMap [], slots = (\<lambda>_. \<lparr>shard_m = NilMap\<rparr>),
      clusterEnabled = (case cluster of [] \<Rightarrow> False | c # _ \<Rightarrow> c)\<rparr>"

section \<open>Hash slots and shards\<close>

text \<open>The part of the key that is hashed: a non-empty \<^verbatim>\<open>{tag}\<close> after the first brace, else the key.\<close>

definition hashTag :: "string \<Rightarrow> string" where
  "hashTag key =
     (case IndexByte key (CHR ''{'') of
        None \<Rightarrow> key
      | Some start \<Rightarrow>
          (case IndexByte (drop (start + 1) key) (CHR ''}'') of
             None \<Rightarrow> key
           | Some end \<Rightarrow> if end > 0 then take end (drop (start + 1) key) else key))"

definition SlotForKey :: "crc16 \<Rightarrow> string \<Rightarrow> u16" where
  "SlotForKey crc key = crc (hashTag key) mod 16384"

abbreviation slotIndex :: "crc16 \<Rightarrow> string \<Rightarrow> nat" where
  "slotIndex crc key \<equiv> unat (SlotForKey crc key)"

definition getShard :: "crc16 \<Rightarrow> KVStore \<Rightarrow> string \<Rightarrow> shard" where
  "getShard crc kv key = slots kv (slotIndex crc key)"

definition ensure :: "shard \<Rightarrow> shard" where
  "ensure s = (if shard_m s = NilMap then s\<lparr>shard_m := GoMap []\<rparr> else s)"

definition setShard :: "nat \<Rightarrow> shard \<Rightarrow> KVStore \<Rightarrow> KVStore" where
  "setShard i s kv = kv\<lparr>slots := (slots kv)(i := s)\<rparr>"

text \<open>\<^verbatim>\<open>v, ok := s.m[key]\<close> on the key's shard.\<close>

definition shardValue :: "crc16 \<Rightarrow> KVStore \<Rightarrow> string \<Rightarrow> Value \<times> bool" where
  "shardValue crc kv key = comma_ok (shard_m (getShard crc kv key)) key zeroValue"

text \<open>\<^verbatim>\<open>s.m[key] = v\<close>, with and without \<^verbatim>\<open>s.ensure()\<close> before it, and \<^verbatim>\<open>delete(s.m, key)\<close>.\<close>

definition putShard :: "crc16 \<Rightarrow> KVStore \<Rightarrow> string \<Rightarrow> Value \<Rightarrow> KVStore option" where
  "putShard crc kv key v =
     (let s = getShard crc kv key
      in do { m \<leftarrow> assign (shard_m s) key v;
              Some (setShard (slotIndex crc key) (s\<lparr>shard_m := m\<rparr>) kv) })"

definition putEnsured :: "crc16 \<Rightarrow> KVStore \<Rightarrow> string \<Rightarrow> Value \<Rightarrow> KVStore option" where
  "putEnsured crc kv key v =
     (let s = ensure (getShard crc kv key)
      in do { m \<leftarrow> assign (shard_m s) key v;
              Some (setShard (slotIndex crc key) (s\<lparr>shard_m := m\<rparr>) kv) })"

definition delShard :: "crc16 \<Rightarrow> KVStore \<Rightarrow> string \<Rightarrow> KVStore" where
  "delShard crc kv key =
     (let s = getShard crc kv key
      in setShard (slotIndex crc key) (s\<lparr>shard_m := remove (shard_m s) key\<rparr>) kv)"

section \<open>Operations\<close>

definition Delete :: "crc16 \<Rightarrow> KVStore \<Rightarrow> string \<Rightarrow> KVStore \<times> int" where
  "Delete crc kv key =
     (if clusterEnabled kv then
        (let (_, found) = shardValue crc kv key;
             kv' = (if found then delShard crc kv key else kv)
         in if found then (kv', 1) else (kv', 0))
      else if \<not> has_key (Strings kv) key \<and> \<not> has_key (Lists kv) key \<and> \<not> has_key (Hashes kv) key
              \<and> \<not> has_key (Sets kv) key \<and> \<not> has_key (SortedSets kv) key
      then (kv, 0)
      else (kv\<lparr>Strings := remove (Strings kv) key, Lists := remove (Lists kv) key,
               Hashes := remove (Hashes kv) key, Sets := remove (Sets kv) key,
               SortedSets := remove (SortedSets kv) key\<rparr>, 1))"

definition applyDelta :: "string \<Rightarrow> bool \<Rightarrow> int \<Rightarrow> kvError + string" where
  "applyDelta current exist delta =
     (if exist then
        (case Atoi current of
           Inl _ \<Rightarrow> Inl ErrNotInteger
         | Inr n \<Rightarrow> Inr (Itoa (wrap64 (n + delta))))
      else Inr (Itoa (wrap64 (0 + delta))))"

definition FlushAll :: "KVStore \<Rightarrow> KVStore" where
  "FlushAll kv =
     (if clusterEnabled kv
      then kv\<lparr>slots := (\<lambda>i. if i < 16384 then (slots kv i)\<lparr>shard_m := NilMap\<rparr> else slots kv i)\<rparr>
      else kv\<lparr>Strings := GoMap [], Lists := GoMap [], Hashes := GoMap [], Sets := GoMap [],
              SortedSets := GoMap [], Expirations := GoMap []\<rparr>)"

text \<open>The loop of \<^verbatim>\<open>GetKeysInSlot\<close>; \<open>iter\<close> is the order in which the runtime iterates over a map.\<close>

fun collectKeys :: "int \<Rightarrow> string list \<Rightarrow> string list \<Rightarrow> string list" where
  "collectKeys cnt acc [] = acc"
| "collectKeys cnt acc (k # ks) =
     (if int (length acc) = cnt then acc else collectKeys cnt (acc @ [k]) ks)"

definition GetKeysInSlot ::
    "((string, Value) gomap \<Rightarrow> string list) \<Rightarrow> KVStore \<Rightarrow> u64 \<Rightarrow> int \<Rightarrow> string list" where
  "GetKeysInSlot iter kv slot cnt =
     (if slot \<ge> 16384 \<or> cnt \<le> 0 then []
      else collectKeys cnt [] (iter (shard_m (slots kv (unat slot)))))"

section \<open>The invariant of the store\<close>

definition inner_wf :: "(string, 'v) gomap \<Rightarrow> bool" where
  "inner_wf m \<longleftrightarrow> gm_wf m \<and> len m \<noteq> 0"

definition zset_wf :: "SortedSetMember list \<Rightarrow> bool" where
  "zset_wf zs \<longleftrightarrow> zs \<noteq> [] \<and> distinct (map Member zs)"

text \<open>A stored value carries the field of its type, and no empty collection is stored.\<close>

definition value_wf :: "Value \<Rightarrow> bool" where
  "value_wf v \<longleftrightarrow> (case vType v of
       StringType \<Rightarrow> True
     | ListType \<Rightarrow> vList v \<noteq> []
     | HashType \<Rightarrow> inner_wf (vHash v)
     | SetType \<Rightarrow> inner_wf (vSet v)
     | SortedSetType \<Rightarrow> zset_wf (vSortedSet v))"

definition shard_ok :: "crc16 \<Rightarrow> nat \<Rightarrow> shard \<Rightarrow> bool" where
  "shard_ok crc i s \<longleftrightarrow> gm_wf (shard_m s) \<and>
     (\<forall>k v. lookup (shard_m s) k = Some v \<longrightarrow> slotIndex crc k = i)"

definition shards_ok :: "crc16 \<Rightarrow> KVStore \<Rightarrow> bool" where
  "shards_ok crc kv \<longleftrightarrow> (\<forall>i. shard_ok crc i (slots kv i))"

definition cluster_wf :: "crc16 \<Rightarrow> KVStore \<Rightarrow> bool" where
  "cluster_wf crc kv \<longleftrightarrow> shards_ok crc kv \<and>
     (\<forall>i k v. lookup (shard_m (slots kv i)) k = Some v \<longrightarrow> value_wf v)"

definition map_wf :: "('v \<Rightarrow> bool) \<Rightarrow> (string, 'v) gomap \<Rightarrow> bool" where
  "map_wf P m \<longleftrightarrow> m \<noteq> NilMap \<and> gm_wf m \<and> (\<forall>k v. lookup m k = Some v \<longrightarrow> P v)"

definition standalone_wf :: "KVStore \<Rightarrow> bool" where
  "standalone_wf kv \<longleftrightarrow> map_wf (\<lambda>_. True) (Strings kv) \<and> map_wf (\<lambda>l. l \<noteq> []) (Lists kv)
     \<and> map_wf inner_wf (Hashes kv) \<and> map_wf inner_wf (Sets kv) \<and> map_wf zset_wf (SortedSets kv)"

definition kv_wf :: "crc16 \<Rightarrow> KVStore \<Rightarrow> bool" where
  "kv_wf crc kv \<longleftrightarrow> cluster_wf crc kv \<and> standalone_wf kv"

section \<open>Shards as one key space\<close>

definition shard_get :: "crc16 \<Rightarrow> KVStore \<Rightarrow> string \<Rightarrow> Value option" where
  "shard_get crc kv key = lookup (shard_m (getShard crc kv key)) key"

lemma shardValue_eq:
  "shardValue crc kv key =
     (case shard_get crc kv key of None \<Rightarrow> (zeroValue, False) | Some v \<Rightarrow> (v, True))"
  by (simp add: shardValue_def shard_get_def comma_ok_def)

lemma slotIndex_bound [simp]: "slotIndex crc key < 16384"
proof -
  have "unat (crc (hashTag key) mod 16384) = unat (crc (hashTag key)) mod 16384"
    by (simp add: unat_mod_distrib)
  then show ?thesis by (simp add: SlotForKey_def)
qed

lemma slots_setShard [simp]: "slots (setShard i s kv) = (slots kv)(i := s)"
  by (simp add: setShard_def)

lemma setShard_frame [simp]:
  "Strings (setShard i s kv) = Strings kv" "Lists (setShard i s kv) = Lists kv"
  "Hashes (setShard i s kv) = Hashes kv" "Sets (setShard i s kv) = Sets kv"
  "SortedSets (setShard i s kv) = SortedSets kv" "Expirations (setShard i s kv) = Expirations kv"
  "clusterEnabled (setShard i s kv) = clusterEnabled kv"
  by (simp_all add: setShard_def)

lemma ensure_not_Nil [simp]: "shard_m (ensure s) \<noteq> NilMap"
  by (simp add: ensure_def)

lemma lookup_ensure [simp]: "lookup (shard_m (ensure s)) = lookup (shard_m s)"
  by (auto simp: ensure_def)

lemma gm_wf_ensure [simp]: "gm_wf (shard_m (ensure s)) = gm_wf (shard_m s)"
  by (simp add: ensure_def)

lemma shard_get_setShard:
  assumes "\<And>k. lookup (shard_m s) k = (if k = key then v else lookup (shard_m (getShard crc kv key)) k)"
  shows "shard_get crc (setShard (slotIndex crc key) s kv) = (shard_get crc kv)(key := v)"
  using assms by (auto simp: shard_get_def getShard_def fun_eq_iff)

lemma shards_ok_setShard:
  assumes "shards_ok crc kv" "gm_wf (shard_m s)"
    "\<And>k v. lookup (shard_m s) k = Some v \<Longrightarrow> k = key \<or> lookup (shard_m (getShard crc kv key)) k \<noteq> None"
  shows "shards_ok crc (setShard (slotIndex crc key) s kv)"
  unfolding shards_ok_def
proof
  fix i
  have "shard_ok crc (slotIndex crc key) (getShard crc kv key)"
    using assms(1) by (simp add: shards_ok_def getShard_def)
  with assms(2,3) have "shard_ok crc (slotIndex crc key) s"
    by (auto simp: shard_ok_def)
  then show "shard_ok crc i (slots (setShard (slotIndex crc key) s kv) i)"
    using assms(1) by (simp add: shards_ok_def)
qed

lemma putEnsured_spec:
  "\<exists>kv'. putEnsured crc kv key v = Some kv' \<and> shard_get crc kv' = (shard_get crc kv)(key \<mapsto> v)
     \<and> (shards_ok crc kv \<longrightarrow> shards_ok crc kv')"
proof -
  let ?s = "ensure (getShard crc kv key)"
  obtain m where m: "assign (shard_m ?s) key v = Some m"
    using assign_total [OF ensure_not_Nil] by blast
  let ?kv' = "setShard (slotIndex crc key) (?s\<lparr>shard_m := m\<rparr>) kv"
  have "shard_get crc ?kv' = (shard_get crc kv)(key \<mapsto> v)"
    by (rule shard_get_setShard) (simp add: lookup_assign [OF m])
  moreover have "shards_ok crc kv \<longrightarrow> shards_ok crc ?kv'"
  proof
    assume ok: "shards_ok crc kv"
    then have "gm_wf (shard_m ?s)" by (simp add: shards_ok_def shard_ok_def getShard_def)
    with m have "gm_wf m" by (blast intro: gm_wf_assign)
    with ok show "shards_ok crc ?kv'"
      by (intro shards_ok_setShard) (auto simp: lookup_assign [OF m] split: if_splits)
  qed
  ultimately show ?thesis using m by (auto simp: putEnsured_def Let_def)
qed

lemma putEnsured_frame:
  "putEnsured crc kv key v = Some kv' \<Longrightarrow>
     clusterEnabled kv' = clusterEnabled kv \<and> Strings kv' = Strings kv \<and> Lists kv' = Lists kv
     \<and> Hashes kv' = Hashes kv \<and> Sets kv' = Sets kv \<and> SortedSets kv' = SortedSets kv"
  by (auto simp: putEnsured_def Let_def bind_eq_Some_conv)

lemma delShard_frame [simp]:
  "clusterEnabled (delShard crc kv key) = clusterEnabled kv" "Strings (delShard crc kv key) = Strings kv"
  "Lists (delShard crc kv key) = Lists kv" "Hashes (delShard crc kv key) = Hashes kv"
  "Sets (delShard crc kv key) = Sets kv" "SortedSets (delShard crc kv key) = SortedSets kv"
  by (simp_all add: delShard_def Let_def)

lemma shard_get_delShard [simp]: "shard_get crc (delShard crc kv key) = (shard_get crc kv)(key := None)"
  unfolding delShard_def Let_def by (rule shard_get_setShard) simp

lemma shards_ok_delShard [simp]: "shards_ok crc kv \<Longrightarrow> shards_ok crc (delShard crc kv key)"
  unfolding delShard_def Let_def
  by (rule shards_ok_setShard)
    (auto intro: wf_intros simp: shards_ok_def shard_ok_def getShard_def split: if_splits)

lemma dom_shard_get: "dom (shard_get crc kv) \<subseteq> (\<Union>i < 16384. dom (lookup (shard_m (slots kv i))))"
proof
  fix k
  assume "k \<in> dom (shard_get crc kv)"
  then have "k \<in> dom (lookup (shard_m (slots kv (slotIndex crc k))))"
    by (auto simp: shard_get_def getShard_def)
  then show "k \<in> (\<Union>i < 16384. dom (lookup (shard_m (slots kv i))))"
    using slotIndex_bound by blast
qed

interpretation sk: map_iface "shard_get crc" "delShard crc" "shards_ok crc" "putEnsured crc" "\<lambda>_. True"
  for crc
proof unfold_locales
  fix m :: KVStore
  show "finite (dom (shard_get crc m))"
    by (rule finite_subset [OF dom_shard_get]) auto
  fix k v
  assume "shards_ok crc m"
  then show "\<exists>m'. putEnsured crc m k v = Some m' \<and> shards_ok crc m' \<and> True
      \<and> shard_get crc m' = (shard_get crc m)(k \<mapsto> v)"
    using putEnsured_spec [of crc m k v] by blast
qed simp_all

text \<open>\<^verbatim>\<open>s.m[key] = v\<close> on a key that is present behaves as after \<^verbatim>\<open>ensure\<close>: its map is not nil.\<close>

lemma putShard_present: "shard_get crc kv key \<noteq> None \<Longrightarrow> putShard crc kv key v = putEnsured crc kv key v"
proof -
  assume "shard_get crc kv key \<noteq> None"
  then have "shard_m (getShard crc kv key) \<noteq> NilMap" by (auto simp: shard_get_def)
  then have "ensure (getShard crc kv key) = getShard crc kv key" by (simp add: ensure_def)
  then show ?thesis by (simp add: putShard_def putEnsured_def)
qed

lemma cluster_wf_alt:
  "cluster_wf crc kv \<longleftrightarrow> shards_ok crc kv \<and> (\<forall>k v. shard_get crc kv k = Some v \<longrightarrow> value_wf v)"
  by (auto simp: cluster_wf_def shard_get_def getShard_def shards_ok_def shard_ok_def)

lemma cluster_wf_put:
  assumes "putEnsured crc kv key v = Some kv'" "cluster_wf crc kv" "value_wf v"
  shows "cluster_wf crc kv'"
  using assms putEnsured_spec [of crc kv key v] by (auto simp: cluster_wf_alt)

lemma cluster_wf_del: "cluster_wf crc kv \<Longrightarrow> cluster_wf crc (delShard crc kv key)"
  by (auto simp: cluster_wf_alt)

lemma cluster_wf_value: "cluster_wf crc kv \<Longrightarrow> shard_get crc kv key = Some v \<Longrightarrow> value_wf v"
  by (simp add: cluster_wf_alt)

lemma standalone_wf_cong:
  "Strings kv' = Strings kv \<Longrightarrow> Lists kv' = Lists kv \<Longrightarrow> Hashes kv' = Hashes kv \<Longrightarrow> Sets kv' = Sets kv
   \<Longrightarrow> SortedSets kv' = SortedSets kv \<Longrightarrow> standalone_wf kv' = standalone_wf kv"
  by (simp add: standalone_wf_def)

lemma kv_wf_put [wf_intros]:
  "putEnsured crc kv key v = Some kv' \<Longrightarrow> kv_wf crc kv \<Longrightarrow> value_wf v \<Longrightarrow> kv_wf crc kv'"
  using putEnsured_frame [of crc kv key v kv']
  by (auto simp: kv_wf_def intro: cluster_wf_put simp: standalone_wf_cong [of kv' kv])

lemma kv_wf_del [wf_intros]: "kv_wf crc kv \<Longrightarrow> kv_wf crc (delShard crc kv key)"
  by (simp add: kv_wf_def cluster_wf_del standalone_wf_cong [of "delShard crc kv key" kv])

lemma map_wf_assign [wf_intros]: "map_wf P m \<Longrightarrow> assign m k v = Some m' \<Longrightarrow> P v \<Longrightarrow> map_wf P m'"
  by (auto simp: map_wf_def lookup_assign intro: wf_intros split: if_splits)

lemma map_wf_remove [wf_intros]: "map_wf P m \<Longrightarrow> map_wf P (remove m k)"
  by (auto simp: map_wf_def intro: wf_intros split: if_splits)

lemma map_wf_empty [simp]: "map_wf P (GoMap [])"
  by (simp add: map_wf_def)

lemma map_wf_value: "map_wf P m \<Longrightarrow> lookup m k = Some v \<Longrightarrow> P v"
  by (simp add: map_wf_def)

lemma map_wf_assign_total: "map_wf P m \<Longrightarrow> \<exists>m'. assign m k v = Some m'"
  by (auto simp: map_wf_def dest: assign_total)

lemma cluster_wf_cong: "slots kv' = slots kv \<Longrightarrow> cluster_wf crc kv' = cluster_wf crc kv"
  by (simp add: cluster_wf_def shards_ok_def)

lemma kv_wf_standalone_update [wf_intros]:
  assumes "kv_wf crc kv"
  shows "map_wf (\<lambda>_. True) m1 \<Longrightarrow> kv_wf crc (kv\<lparr>Strings := m1\<rparr>)"
    and "map_wf (\<lambda>l. l \<noteq> []) m2 \<Longrightarrow> kv_wf crc (kv\<lparr>Lists := m2\<rparr>)"
    and "map_wf inner_wf m3 \<Longrightarrow> kv_wf crc (kv\<lparr>Hashes := m3\<rparr>)"
    and "map_wf inner_wf m4 \<Longrightarrow> kv_wf crc (kv\<lparr>Sets := m4\<rparr>)"
    and "map_wf zset_wf m5 \<Longrightarrow> kv_wf crc (kv\<lparr>SortedSets := m5\<rparr>)"
  using assms by (simp_all add: kv_wf_def standalone_wf_def cluster_wf_def shards_ok_def)

lemma kv_wf_maps:
  assumes "kv_wf crc kv"
  shows "map_wf (\<lambda>_. True) (Strings kv)" "map_wf (\<lambda>l. l \<noteq> []) (Lists kv)" "map_wf inner_wf (Hashes kv)"
    "map_wf inner_wf (Sets kv)" "map_wf zset_wf (SortedSets kv)"
  using assms by (simp_all add: kv_wf_def standalone_wf_def)

lemma kv_wf_shards_ok: "kv_wf crc kv \<Longrightarrow> shards_ok crc kv"
  by (simp add: kv_wf_def cluster_wf_def)

lemma kv_wf_value: "kv_wf crc kv \<Longrightarrow> shard_get crc kv key = Some v \<Longrightarrow> value_wf v"
  unfolding kv_wf_def using cluster_wf_value by blast

end
