(* ===== verification/KV_Abs.thy ===== *)
theory KV_Abs
  imports KV_Store
begin

text \<open>
  What a client sees of the store: five partial functions, one per data type. \<open>absKV\<close> reads the
  same view out of both representations, the five maps of standalone mode and the sixteen thousand
  shards of cluster mode, so that every operation of the store has one abstract specification
  for both. The two modes differ in one point only: in cluster mode a key holds one value, whatever
  its type (\<open>ks_disjoint\<close>), in standalone mode every type has a key space of its own.
\<close>

record KeySpace =
  ks_str :: "string \<rightharpoonup> string"
  ks_list :: "string \<rightharpoonup> string list"
  ks_hash :: "string \<rightharpoonup> (string \<rightharpoonup> string)"
  ks_set :: "string \<rightharpoonup> string set"
  ks_zset :: "string \<rightharpoonup> SortedSetMember list"

definition typed :: "DataType \<Rightarrow> (Value \<Rightarrow> 'a) \<Rightarrow> Value option \<Rightarrow> 'a option" where
  "typed t f ov = (case ov of None \<Rightarrow> None | Some v \<Rightarrow> if vType v = t then Some (f v) else None)"

definition absKV :: "crc16 \<Rightarrow> KVStore \<Rightarrow> KeySpace" where
  "absKV crc kv =
     (if clusterEnabled kv
      then \<lparr>ks_str = (\<lambda>k. typed StringType vString (shard_get crc kv k)),
            ks_list = (\<lambda>k. typed ListType vList (shard_get crc kv k)),
            ks_hash = (\<lambda>k. typed HashType (\<lambda>v. lookup (vHash v)) (shard_get crc kv k)),
            ks_set = (\<lambda>k. typed SetType (\<lambda>v. dom (lookup (vSet v))) (shard_get crc kv k)),
            ks_zset = (\<lambda>k. typed SortedSetType vSortedSet (shard_get crc kv k))\<rparr>
      else \<lparr>ks_str = lookup (Strings kv),
            ks_list = lookup (Lists kv),
            ks_hash = (\<lambda>k. map_option lookup (lookup (Hashes kv) k)),
            ks_set = (\<lambda>k. map_option (\<lambda>s. dom (lookup s)) (lookup (Sets kv) k)),
            ks_zset = lookup (SortedSets kv)\<rparr>)"

text \<open>The types under which a key is present.\<close>

definition ks_types :: "KeySpace \<Rightarrow> string \<Rightarrow> DataType set" where
  "ks_types ks k =
     (if ks_str ks k \<noteq> None then {StringType} else {}) \<union> (if ks_list ks k \<noteq> None then {ListType} else {})
     \<union> (if ks_hash ks k \<noteq> None then {HashType} else {}) \<union> (if ks_set ks k \<noteq> None then {SetType} else {})
     \<union> (if ks_zset ks k \<noteq> None then {SortedSetType} else {})"

text \<open>A key held under another type than \<open>t\<close>: what makes a cluster-mode operation refuse.\<close>

definition wrong_type :: "bool \<Rightarrow> DataType \<Rightarrow> KeySpace \<Rightarrow> string \<Rightarrow> bool" where
  "wrong_type cluster t ks k \<longleftrightarrow> cluster \<and> (\<exists>t' \<in> ks_types ks k. t' \<noteq> t)"

definition ks_clear :: "string \<Rightarrow> KeySpace \<Rightarrow> KeySpace" where
  "ks_clear k ks = \<lparr>ks_str = (ks_str ks)(k := None), ks_list = (ks_list ks)(k := None),
     ks_hash = (ks_hash ks)(k := None), ks_set = (ks_set ks)(k := None), ks_zset = (ks_zset ks)(k := None)\<rparr>"

definition ks_empty :: KeySpace where
  "ks_empty = \<lparr>ks_str = Map.empty, ks_list = Map.empty, ks_hash = Map.empty, ks_set = Map.empty,
     ks_zset = Map.empty\<rparr>"

definition ks_disjoint :: "KeySpace \<Rightarrow> bool" where
  "ks_disjoint ks \<longleftrightarrow> (\<forall>k t t'. t \<in> ks_types ks k \<and> t' \<in> ks_types ks k \<longrightarrow> t = t')"

lemma ks_empty_simps [simp]:
  "ks_str ks_empty = Map.empty" "ks_list ks_empty = Map.empty" "ks_hash ks_empty = Map.empty"
  "ks_set ks_empty = Map.empty" "ks_zset ks_empty = Map.empty" "ks_types ks_empty k = {}"
  "wrong_type c t ks_empty k = False"
  by (simp_all add: ks_empty_def ks_types_def wrong_type_def)

lemma typed_simps [simp]:
  "typed t f None = None" "typed t f (Some v) = (if vType v = t then Some (f v) else None)"
  by (simp_all add: typed_def)

lemma typed_eq_Some: "typed t f ov = Some x \<longleftrightarrow> (\<exists>v. ov = Some v \<and> vType v = t \<and> x = f v)"
  by (auto simp: typed_def split: option.splits)

lemma absKV_cluster [simp]:
  assumes "clusterEnabled kv"
  shows "ks_str (absKV crc kv) k = typed StringType vString (shard_get crc kv k)"
    "ks_list (absKV crc kv) k = typed ListType vList (shard_get crc kv k)"
    "ks_hash (absKV crc kv) k = typed HashType (\<lambda>v. lookup (vHash v)) (shard_get crc kv k)"
    "ks_set (absKV crc kv) k = typed SetType (\<lambda>v. dom (lookup (vSet v))) (shard_get crc kv k)"
    "ks_zset (absKV crc kv) k = typed SortedSetType vSortedSet (shard_get crc kv k)"
  using assms by (simp_all add: absKV_def)

lemma absKV_standalone [simp]:
  assumes "\<not> clusterEnabled kv"
  shows "ks_str (absKV crc kv) = lookup (Strings kv)"
    "ks_list (absKV crc kv) = lookup (Lists kv)"
    "ks_hash (absKV crc kv) k = map_option lookup (lookup (Hashes kv) k)"
    "ks_set (absKV crc kv) k = map_option (\<lambda>s. dom (lookup s)) (lookup (Sets kv) k)"
    "ks_zset (absKV crc kv) = lookup (SortedSets kv)"
  using assms by (simp_all add: absKV_def)

lemma ks_types_cluster:
  "clusterEnabled kv \<Longrightarrow>
     ks_types (absKV crc kv) k = (case shard_get crc kv k of None \<Rightarrow> {} | Some v \<Rightarrow> {vType v})"
  by (cases "shard_get crc kv k") (auto simp: ks_types_def intro: DataType.exhaust split: if_splits)

lemma wrong_type_cluster:
  "clusterEnabled kv \<Longrightarrow>
     wrong_type True t (absKV crc kv) k \<longleftrightarrow> (\<exists>v. shard_get crc kv k = Some v \<and> vType v \<noteq> t)"
  by (auto simp: wrong_type_def ks_types_cluster split: option.splits)

lemma wrong_type_standalone [simp]: "\<not> wrong_type False t ks k"
  by (simp add: wrong_type_def)

lemma wrong_type_absKV:
  "wrong_type (clusterEnabled kv) t (absKV crc kv) k \<longleftrightarrow>
     clusterEnabled kv \<and> (\<exists>v. shard_get crc kv k = Some v \<and> vType v \<noteq> t)"
  using wrong_type_cluster [of kv t crc k] by (cases "clusterEnabled kv") auto

text \<open>Storing one value in cluster mode replaces whatever the key held.\<close>

definition ks_store :: "string \<Rightarrow> Value \<Rightarrow> KeySpace \<Rightarrow> KeySpace" where
  "ks_store k v ks = \<lparr>ks_str = (ks_str ks)(k := typed StringType vString (Some v)),
     ks_list = (ks_list ks)(k := typed ListType vList (Some v)),
     ks_hash = (ks_hash ks)(k := typed HashType (\<lambda>v. lookup (vHash v)) (Some v)),
     ks_set = (ks_set ks)(k := typed SetType (\<lambda>v. dom (lookup (vSet v))) (Some v)),
     ks_zset = (ks_zset ks)(k := typed SortedSetType vSortedSet (Some v))\<rparr>"

lemma absKV_shards:
  assumes "clusterEnabled kv" "clusterEnabled kv'" "shard_get crc kv' = (shard_get crc kv)(k := ov)"
  shows "absKV crc kv' = (case ov of None \<Rightarrow> ks_clear k (absKV crc kv) | Some v \<Rightarrow> ks_store k v (absKV crc kv))"
  using assms by (auto simp: absKV_def ks_clear_def ks_store_def fun_eq_iff split: option.splits)

lemma absKV_put:
  assumes "clusterEnabled kv" "putEnsured crc kv k v = Some kv'"
  shows "absKV crc kv' = ks_store k v (absKV crc kv)"
proof -
  have "shard_get crc kv' = (shard_get crc kv)(k := Some v)"
    using putEnsured_spec [of crc kv k v] assms(2) by auto
  then show ?thesis
    using absKV_shards [of kv kv' crc k "Some v"] assms putEnsured_frame [of crc kv k v kv'] by simp
qed

lemma absKV_del: "clusterEnabled kv \<Longrightarrow> absKV crc (delShard crc kv k) = ks_clear k (absKV crc kv)"
  using absKV_shards [of kv "delShard crc kv k" crc k None] by simp

lemma absKV_Strings:
  "\<not> clusterEnabled kv \<Longrightarrow> absKV crc (kv\<lparr>Strings := m\<rparr>) = (absKV crc kv)\<lparr>ks_str := lookup m\<rparr>"
  by (simp add: absKV_def)

lemma absKV_Lists:
  "\<not> clusterEnabled kv \<Longrightarrow> absKV crc (kv\<lparr>Lists := m\<rparr>) = (absKV crc kv)\<lparr>ks_list := lookup m\<rparr>"
  by (simp add: absKV_def)

lemma absKV_Hashes:
  "\<not> clusterEnabled kv \<Longrightarrow>
     absKV crc (kv\<lparr>Hashes := m\<rparr>) = (absKV crc kv)\<lparr>ks_hash := (\<lambda>k. map_option lookup (lookup m k))\<rparr>"
  by (simp add: absKV_def)

lemma absKV_Sets:
  "\<not> clusterEnabled kv \<Longrightarrow>
     absKV crc (kv\<lparr>Sets := m\<rparr>) = (absKV crc kv)\<lparr>ks_set := (\<lambda>k. map_option (\<lambda>s. dom (lookup s)) (lookup m k))\<rparr>"
  by (simp add: absKV_def)

lemma absKV_SortedSets:
  "\<not> clusterEnabled kv \<Longrightarrow> absKV crc (kv\<lparr>SortedSets := m\<rparr>) = (absKV crc kv)\<lparr>ks_zset := lookup m\<rparr>"
  by (simp add: absKV_def)

lemmas absKV_fields = absKV_Strings absKV_Lists absKV_Hashes absKV_Sets absKV_SortedSets

text \<open>Where the key is not held under another type, a cluster-mode write touches one field only.\<close>

lemma other_fields_absent:
  assumes "\<not> wrong_type True t ks k"
  shows "t \<noteq> StringType \<Longrightarrow> (ks_str ks)(k := None) = ks_str ks"
    and "t \<noteq> ListType \<Longrightarrow> (ks_list ks)(k := None) = ks_list ks"
    and "t \<noteq> HashType \<Longrightarrow> (ks_hash ks)(k := None) = ks_hash ks"
    and "t \<noteq> SetType \<Longrightarrow> (ks_set ks)(k := None) = ks_set ks"
    and "t \<noteq> SortedSetType \<Longrightarrow> (ks_zset ks)(k := None) = ks_zset ks"
proof -
  have *: "t' \<in> ks_types ks k \<Longrightarrow> t' = t" for t'
    using assms by (auto simp: wrong_type_def)
  show "t \<noteq> StringType \<Longrightarrow> (ks_str ks)(k := None) = ks_str ks"
    using * [of StringType] by (cases "ks_str ks k") (auto simp: ks_types_def)
  show "t \<noteq> ListType \<Longrightarrow> (ks_list ks)(k := None) = ks_list ks"
    using * [of ListType] by (cases "ks_list ks k") (auto simp: ks_types_def)
  show "t \<noteq> HashType \<Longrightarrow> (ks_hash ks)(k := None) = ks_hash ks"
    using * [of HashType] by (cases "ks_hash ks k") (auto simp: ks_types_def)
  show "t \<noteq> SetType \<Longrightarrow> (ks_set ks)(k := None) = ks_set ks"
    using * [of SetType] by (cases "ks_set ks k") (auto simp: ks_types_def)
  show "t \<noteq> SortedSetType \<Longrightarrow> (ks_zset ks)(k := None) = ks_zset ks"
    using * [of SortedSetType] by (cases "ks_zset ks k") (auto simp: ks_types_def)
qed

lemma ks_store_typed:
  assumes "\<not> wrong_type True (vType v) ks k"
  shows "vType v = ListType \<Longrightarrow> ks_store k v ks = ks\<lparr>ks_list := (ks_list ks)(k \<mapsto> vList v)\<rparr>"
    and "vType v = HashType \<Longrightarrow> ks_store k v ks = ks\<lparr>ks_hash := (ks_hash ks)(k \<mapsto> lookup (vHash v))\<rparr>"
    and "vType v = SetType \<Longrightarrow> ks_store k v ks = ks\<lparr>ks_set := (ks_set ks)(k \<mapsto> dom (lookup (vSet v)))\<rparr>"
    and "vType v = SortedSetType \<Longrightarrow> ks_store k v ks = ks\<lparr>ks_zset := (ks_zset ks)(k \<mapsto> vSortedSet v)\<rparr>"
  by (rule KeySpace.equality; simp add: ks_store_def other_fields_absent [OF assms])+

lemma ks_clear_typed:
  shows "\<not> wrong_type True ListType ks k \<Longrightarrow> ks_clear k ks = ks\<lparr>ks_list := (ks_list ks)(k := None)\<rparr>"
    and "\<not> wrong_type True HashType ks k \<Longrightarrow> ks_clear k ks = ks\<lparr>ks_hash := (ks_hash ks)(k := None)\<rparr>"
    and "\<not> wrong_type True SetType ks k \<Longrightarrow> ks_clear k ks = ks\<lparr>ks_set := (ks_set ks)(k := None)\<rparr>"
    and "\<not> wrong_type True SortedSetType ks k \<Longrightarrow> ks_clear k ks = ks\<lparr>ks_zset := (ks_zset ks)(k := None)\<rparr>"
  by (rule KeySpace.equality; simp add: ks_clear_def other_fields_absent)+

text \<open>In cluster mode a key has at most one type.\<close>

lemma ks_disjoint_cluster: "clusterEnabled kv \<Longrightarrow> ks_disjoint (absKV crc kv)"
  by (auto simp: ks_disjoint_def ks_types_cluster split: option.splits)

lemma ks_clear_absent: "ks_types ks k = {} \<Longrightarrow> ks_clear k ks = ks"
  by (cases ks) (auto simp: ks_types_def ks_clear_def fun_eq_iff split: if_splits)

lemma ks_types_clear [simp]: "ks_types (ks_clear k ks) k' = (if k' = k then {} else ks_types ks k')"
  by (simp add: ks_types_def ks_clear_def)

section \<open>What it means for an operation to be right\<close>

text \<open>
  \<open>kv_result crc kv out ks r\<close>: the operation does not panic, answers \<open>r\<close>, keeps the store well formed
  and in its mode, and leaves the key space \<open>ks\<close>.
\<close>

type_synonym 'r kvop = "(KVStore \<times> 'r) option"

definition kv_result :: "crc16 \<Rightarrow> KVStore \<Rightarrow> 'r kvop \<Rightarrow> KeySpace \<Rightarrow> 'r \<Rightarrow> bool" where
  "kv_result crc kv out ks r \<longleftrightarrow>
     (\<exists>kv'. out = Some (kv', r) \<and> kv_wf crc kv' \<and> clusterEnabled kv' = clusterEnabled kv
        \<and> absKV crc kv' = ks)"

lemma kv_result_same [intro]: "kv_wf crc kv \<Longrightarrow> kv_result crc kv (Some (kv, r)) (absKV crc kv) r"
  by (simp add: kv_result_def)

lemma kv_result_put:
  assumes "kv_wf crc kv" "clusterEnabled kv" "value_wf v" "ks = ks_store k v (absKV crc kv)"
  shows "kv_result crc kv (do { kv' \<leftarrow> putEnsured crc kv k v; Some (kv', r) }) ks r"
proof -
  obtain kv' where kv': "putEnsured crc kv k v = Some kv'"
    using putEnsured_spec [of crc kv k v] by blast
  show ?thesis
    using assms kv' putEnsured_frame [OF kv'] kv_wf_put [OF kv'] absKV_put [OF _ kv']
    by (simp add: kv_result_def)
qed

lemma kv_result_del:
  assumes "kv_wf crc kv" "clusterEnabled kv" "ks = ks_clear k (absKV crc kv)"
  shows "kv_result crc kv (Some (delShard crc kv k, r)) ks r"
  using assms by (simp add: kv_result_def kv_wf_del absKV_del)

text \<open>The same for the five maps of standalone mode.\<close>

lemma kv_result_maps:
  assumes "kv_wf crc kv" "\<not> clusterEnabled kv"
  shows "map_wf (\<lambda>_. True) m1 \<Longrightarrow> ks = (absKV crc kv)\<lparr>ks_str := lookup m1\<rparr> \<Longrightarrow>
      kv_result crc kv (Some (kv\<lparr>Strings := m1\<rparr>, r)) ks r"
    and "map_wf (\<lambda>l. l \<noteq> []) m2 \<Longrightarrow> ks = (absKV crc kv)\<lparr>ks_list := lookup m2\<rparr> \<Longrightarrow>
      kv_result crc kv (Some (kv\<lparr>Lists := m2\<rparr>, r)) ks r"
    and "map_wf inner_wf m3 \<Longrightarrow> ks = (absKV crc kv)\<lparr>ks_hash := (\<lambda>k. map_option lookup (lookup m3 k))\<rparr> \<Longrightarrow>
      kv_result crc kv (Some (kv\<lparr>Hashes := m3\<rparr>, r)) ks r"
    and "map_wf inner_wf m4 \<Longrightarrow>
      ks = (absKV crc kv)\<lparr>ks_set := (\<lambda>k. map_option (\<lambda>s. dom (lookup s)) (lookup m4 k))\<rparr> \<Longrightarrow>
      kv_result crc kv (Some (kv\<lparr>Sets := m4\<rparr>, r)) ks r"
    and "map_wf zset_wf m5 \<Longrightarrow> ks = (absKV crc kv)\<lparr>ks_zset := lookup m5\<rparr> \<Longrightarrow>
      kv_result crc kv (Some (kv\<lparr>SortedSets := m5\<rparr>, r)) ks r"
  using assms by (simp_all add: kv_result_def absKV_fields kv_wf_standalone_update)

text \<open>Assigning to one of the five maps.\<close>

lemma assignE:
  assumes "map_wf P m" "P v"
  obtains m' where "assign m k v = Some m'" "map_wf P m'" "lookup m' = (lookup m)(k \<mapsto> v)"
proof -
  obtain m' where m': "assign m k v = Some m'"
    using map_wf_assign_total [OF assms(1)] by blast
  show thesis
    by (rule that [OF m' map_wf_assign [OF assms(1) m' assms(2)] lookup_assign [OF m']])
qed

section \<open>Creation, deletion, hash slots\<close>

lemma NewKVStore_wf: "kv_wf crc (NewKVStore c)"
  by (simp add: NewKVStore_def kv_wf_def cluster_wf_def shards_ok_def shard_ok_def standalone_wf_def)

lemma clusterEnabled_NewKVStore [simp]:
  "clusterEnabled (NewKVStore [])  = False" "clusterEnabled (NewKVStore [c]) = c"
  by (simp_all add: NewKVStore_def)

lemma NewKVStore_abs [simp]: "absKV crc (NewKVStore c) = ks_empty"
  by (auto simp: NewKVStore_def absKV_def ks_empty_def shard_get_def getShard_def)

definition spec_delete_count :: "KeySpace \<Rightarrow> string \<Rightarrow> int" where
  "spec_delete_count ks k = (if ks_types ks k = {} then 0 else 1)"

lemma ks_types_standalone_empty:
  "\<not> clusterEnabled kv \<Longrightarrow> ks_types (absKV crc kv) k = {} \<longleftrightarrow>
     \<not> has_key (Strings kv) k \<and> \<not> has_key (Lists kv) k \<and> \<not> has_key (Hashes kv) k
     \<and> \<not> has_key (Sets kv) k \<and> \<not> has_key (SortedSets kv) k"
  by (auto simp: ks_types_def has_key_def)

lemma Delete_result:
  assumes wf: "kv_wf crc kv"
  shows "kv_result crc kv (Some (Delete crc kv k)) (ks_clear k (absKV crc kv))
     (spec_delete_count (absKV crc kv) k)"
proof (cases "clusterEnabled kv")
  case True
  show ?thesis
  proof (cases "shard_get crc kv k")
    case None
    with True have "ks_types (absKV crc kv) k = {}" by (simp add: ks_types_cluster)
    with True None wf show ?thesis
      by (simp add: Delete_def shardValue_eq spec_delete_count_def ks_clear_absent kv_result_same)
  next
    case (Some v)
    with True have "ks_types (absKV crc kv) k \<noteq> {}" by (simp add: ks_types_cluster)
    with True Some wf show ?thesis
      by (simp add: Delete_def shardValue_eq spec_delete_count_def kv_result_del)
  qed
next
  case False
  show ?thesis
  proof (cases "ks_types (absKV crc kv) k = {}")
    case True
    then have "Delete crc kv k = (kv, 0)"
      using False unfolding Delete_def ks_types_standalone_empty [OF False] by simp
    with True wf show ?thesis
      by (simp add: spec_delete_count_def ks_clear_absent kv_result_same)
  next
    case ne: False
    let ?kv = "kv\<lparr>Strings := remove (Strings kv) k, Lists := remove (Lists kv) k,
      Hashes := remove (Hashes kv) k, Sets := remove (Sets kv) k, SortedSets := remove (SortedSets kv) k\<rparr>"
    have "kv_wf crc ?kv"
      using wf by (simp add: kv_wf_standalone_update map_wf_remove kv_wf_maps)
    moreover have "absKV crc ?kv = ks_clear k (absKV crc kv)"
      using False by (auto simp: absKV_def ks_clear_def)
    moreover have "Delete crc kv k = (?kv, 1)"
      using False ne unfolding Delete_def ks_types_standalone_empty [OF False] by simp
    ultimately show ?thesis
      using ne by (simp add: kv_result_def spec_delete_count_def)
  qed
qed

lemma FlushAll_result:
  assumes wf: "kv_wf crc kv"
  shows "kv_result crc kv (Some (FlushAll kv, ())) ks_empty ()"
proof (cases "clusterEnabled kv")
  case True
  have "shard_get crc (FlushAll kv) = Map.empty"
    using True by (auto simp: FlushAll_def shard_get_def getShard_def fun_eq_iff)
  moreover have "shards_ok crc (FlushAll kv)"
    using True kv_wf_shards_ok [OF wf] by (simp add: FlushAll_def shards_ok_def shard_ok_def)
  moreover have "standalone_wf (FlushAll kv)"
    using True wf standalone_wf_cong [of "FlushAll kv" kv] by (simp add: FlushAll_def kv_wf_def)
  ultimately show ?thesis
    using True by (simp add: kv_result_def kv_wf_def cluster_wf_alt absKV_def ks_empty_def)
      (simp add: FlushAll_def)
next
  case False
  then show ?thesis
    using wf by (auto simp: kv_result_def FlushAll_def absKV_def ks_empty_def kv_wf_def standalone_wf_def
        cluster_wf_def shards_ok_def)
qed

lemma collectKeys_take: "cnt \<ge> int (length acc) \<Longrightarrow> collectKeys cnt acc ks = acc @ take (nat cnt - length acc) ks"
proof (induction cnt acc ks rule: collectKeys.induct)
  case (2 cnt acc k ks)
  show ?case
  proof (cases "int (length acc) = cnt")
    case False
    with "2.prems" have "nat cnt - length acc = Suc (nat cnt - length (acc @ [k]))" by simp
    with False 2 show ?thesis by simp
  qed auto
qed simp

lemma GetKeysInSlot_take:
  "GetKeysInSlot iter kv slot cnt =
     (if slot \<ge> 16384 then [] else take (nat cnt) (iter (shard_m (slots kv (unat slot)))))"
  by (auto simp: GetKeysInSlot_def collectKeys_take)

lemma shard_keys:
  assumes "kv_wf crc kv" "i < 16384"
  shows "dom (lookup (shard_m (slots kv i))) = {k. shard_get crc kv k \<noteq> None \<and> slotIndex crc k = i}"
  using kv_wf_shards_ok [OF assms(1)] by (auto simp: shards_ok_def shard_ok_def shard_get_def getShard_def)

lemma hashTag_braces:
  assumes "CHR ''{'' \<notin> set pre" "CHR ''}'' \<notin> set tag" "tag \<noteq> []"
  shows "hashTag (pre @ ''{'' @ tag @ ''}'' @ post) = tag"
proof -
  have "IndexByte (pre @ ''{'' @ tag @ ''}'' @ post) (CHR ''{'') = Some (length pre)"
    using assms(1) by (auto simp: IndexByte_Some_iff nth_append in_set_conv_nth)
  moreover have "IndexByte (tag @ ''}'' @ post) (CHR ''}'') = Some (length tag)"
    using assms(2) by (auto simp: IndexByte_Some_iff nth_append in_set_conv_nth)
  ultimately show ?thesis using assms(3) by (simp add: hashTag_def)
qed

section \<open>Properties\<close>

text \<open>DEL removes a key under every type it is stored under and answers 1 if it was there under any,
  0 otherwise; FLUSHALL leaves the empty key space. Both keep the store well formed, in either mode.\<close>

theorem Delete_FlushAll_refine:
  assumes "kv_wf crc kv"
  shows "kv_result crc kv (Some (Delete crc kv k)) (ks_clear k (absKV crc kv)) (if ks_types (absKV crc kv) k = {} then 0 else 1)
     \<and> kv_result crc kv (Some (FlushAll kv, ())) ks_empty ()"
  using Delete_result [OF assms, of k] FlushAll_result [OF assms] by (simp add: spec_delete_count_def)

theorem Delete_FlushAll_refine_witness:
  "kv_result (\<lambda>_. 7) (NewKVStore [True]) (Some (Delete (\<lambda>_. 7) (NewKVStore [True]) ''k'')) (ks_clear ''k'' ks_empty) 0"
  using Delete_FlushAll_refine [OF NewKVStore_wf, of "\<lambda>_. 7" "[True]" "''k''"] by simp

text \<open>GETKEYSINSLOT answers distinct keys that are stored and hash to the slot, at most \<open>cnt\<close> of
  them and all of them when there are no more, whatever order the shard's map is iterated in.\<close>

theorem GetKeysInSlot_spec:
  assumes "kv_wf crc kv" "is_iteration iter" "unat slot < 16384"
  shows "let here = {k. shard_get crc kv k \<noteq> None \<and> slotIndex crc k = unat slot};
           ks = GetKeysInSlot iter kv slot cnt
     in distinct ks \<and> set ks \<subseteq> here \<and> length ks = min (nat cnt) (card here)
       \<and> (int (card here) \<le> cnt \<longrightarrow> set ks = here)"
proof -
  let ?m = "shard_m (slots kv (unat slot))"
  have wf: "gm_wf ?m" using kv_wf_shards_ok [OF assms(1)] by (simp add: shards_ok_def shard_ok_def)
  note it = iteration_facts [OF assms(2) wf, unfolded shard_keys [OF assms(1,3)]]
  have "\<not> slot \<ge> 16384" using assms(3) by (simp add: word_le_nat_alt)
  then have ks: "GetKeysInSlot iter kv slot cnt = take (nat cnt) (iter ?m)" by (simp add: GetKeysInSlot_take)
  have len: "length (iter ?m) = card {k. shard_get crc kv k \<noteq> None \<and> slotIndex crc k = unat slot}"
    using distinct_card [OF it(1)] it(2) by simp
  show ?thesis
    unfolding Let_def ks
    using it len set_take_subset [of "nat cnt" "iter ?m"] by auto
qed

theorem GetKeysInSlot_spec_witness:
  "\<exists>kv. putEnsured (\<lambda>_. 7) (NewKVStore [True]) ''k'' zeroValue = Some kv \<and> GetKeysInSlot keys kv 7 10 = [''k'']"
proof -
  obtain kv where kv: "putEnsured (\<lambda>_. 7) (NewKVStore [True]) ''k'' zeroValue = Some kv"
      "shard_get (\<lambda>_. 7) kv = (shard_get (\<lambda>_. 7) (NewKVStore [True]))(''k'' \<mapsto> zeroValue)"
    using putEnsured_spec [of "\<lambda>_. 7" "NewKVStore [True]" "''k''" zeroValue] by blast
  have wf: "kv_wf (\<lambda>_. 7) kv"
    by (rule kv_wf_put [OF kv(1) NewKVStore_wf]) (simp add: value_wf_def zeroValue_def)
  have "{k. shard_get (\<lambda>_. 7) kv k \<noteq> None \<and> slotIndex (\<lambda>_. 7) k = unat (7 :: u64)} = {''k''}"
    by (auto simp: kv(2) shard_get_def getShard_def NewKVStore_def SlotForKey_def split: if_splits)
  with GetKeysInSlot_spec [OF wf is_iteration_keys, of 7 10] have
    "length (GetKeysInSlot keys kv 7 10) = 1 \<and> set (GetKeysInSlot keys kv 7 10) = {''k''}"
    by (simp add: Let_def)
  then have "GetKeysInSlot keys kv 7 10 = [''k'']"
    by (cases "GetKeysInSlot keys kv 7 10") auto
  with kv(1) show ?thesis by blast
qed

text \<open>keys that share a non-empty hash tag share a slot, whatever the checksum is; a key without a
  tag is hashed whole, and every slot is below 16384.\<close>

theorem SlotForKey_tags:
  assumes "CHR ''{'' \<notin> set pre" "CHR ''{'' \<notin> set pre'" "CHR ''}'' \<notin> set tag" "tag \<noteq> []" "CHR ''{'' \<notin> set key"
  shows "SlotForKey crc (pre @ ''{'' @ tag @ ''}'' @ post) = SlotForKey crc (pre' @ ''{'' @ tag @ ''}'' @ post')
     \<and> SlotForKey crc (pre @ ''{'' @ tag @ ''}'' @ post) = crc tag mod 16384
     \<and> SlotForKey crc key = crc key mod 16384 \<and> unat (SlotForKey crc key) < 16384"
proof -
  have "hashTag key = key" using assms(5) by (simp add: hashTag_def IndexByte_None_iff [THEN iffD2])
  moreover note hashTag_braces [OF assms(1,3,4), of post] hashTag_braces [OF assms(2,3,4), of post']
  ultimately show ?thesis using slotIndex_bound [of crc key] by (simp add: SlotForKey_def)
qed

theorem SlotForKey_tags_witness:
  "SlotForKey (\<lambda>s. of_nat (length s)) ''{user}:a'' = SlotForKey (\<lambda>s. of_nat (length s)) ''x{user}:bb''
   \<and> SlotForKey (\<lambda>s. of_nat (length s)) ''abc'' = 3"
  using SlotForKey_tags [of "[]" "''x''" "''user''" "''abc''" "\<lambda>s. of_nat (length s)" "'':a''" "'':bb''"] by simp

end
