(* ===== verification/KV_Strings.thy ===== *)
theory KV_Strings
  imports KV_Abs
begin

text \<open>
  \<^verbatim>\<open>utils/kvstore/strings.go\<close>: \<^verbatim>\<open>Set\<close>, \<^verbatim>\<open>Mset\<close>, \<^verbatim>\<open>Get\<close>, \<^verbatim>\<open>Mget\<close>, \<^verbatim>\<open>Append\<close> and the integer commands, each with
  the abstract step it refines (\<open>kv_result\<close>). \<^const>\<open>None\<close> is a panic: \<^verbatim>\<open>Mset\<close> indexes
  \<^verbatim>\<open>values[i]\<close> without a check. An absent key is read as the text \<^verbatim>\<open>(nil)\<close>.
\<close>

section \<open>Operations\<close>

definition stringValue :: "string \<Rightarrow> Value" where
  "stringValue s = zeroValue\<lparr>vType := StringType, vString := s\<rparr>"

definition nilText :: string where
  "nilText = ''(nil)''"

definition SetKV :: "crc16 \<Rightarrow> KVStore \<Rightarrow> string \<Rightarrow> string \<Rightarrow> unit kvop" where
  "SetKV crc kv key value =
     (if clusterEnabled kv then do { kv' \<leftarrow> putEnsured crc kv key (stringValue value); Some (kv', ()) }
      else do { m \<leftarrow> assign (Strings kv) key value; Some (kv\<lparr>Strings := m\<rparr>, ()) })"

text \<open>\<^verbatim>\<open>for i, k := range keys { m[k] = ... values[i] }\<close>\<close>

fun msetLoop :: "('v \<Rightarrow> 'w) \<Rightarrow> ('k, 'w) gomap \<Rightarrow> 'k list \<Rightarrow> 'v list \<Rightarrow> ('k, 'w) gomap option" where
  "msetLoop mk m [] vs = Some m"
| "msetLoop mk m (k # ks) [] = None"
| "msetLoop mk m (k # ks) (v # vs) = do { m' \<leftarrow> assign m k (mk v); msetLoop mk m' ks vs }"

definition Mset :: "crc16 \<Rightarrow> KVStore \<Rightarrow> string list \<Rightarrow> string list \<Rightarrow> unit kvop" where
  "Mset crc kv ks values =
     (case ks of
        [] \<Rightarrow> Some (kv, ())
      | key0 # _ \<Rightarrow>
          (if clusterEnabled kv then
             (let i = slotIndex crc key0; s = ensure (slots kv i)
              in do { m \<leftarrow> msetLoop stringValue (shard_m s) ks values;
                      Some (setShard i (s\<lparr>shard_m := m\<rparr>) kv, ()) })
           else do { m \<leftarrow> msetLoop id (Strings kv) ks values; Some (kv\<lparr>Strings := m\<rparr>, ()) }))"

definition Get :: "crc16 \<Rightarrow> KVStore \<Rightarrow> string \<Rightarrow> string" where
  "Get crc kv key =
     (if clusterEnabled kv then
        (let (v, ok) = shardValue crc kv key
         in if \<not> ok \<or> vType v \<noteq> StringType then nilText else vString v)
      else case lookup (Strings kv) key of None \<Rightarrow> nilText | Some value \<Rightarrow> value)"

definition mgetShard :: "shard \<Rightarrow> string \<Rightarrow> string" where
  "mgetShard s k =
     (let (v, ok) = comma_ok (shard_m s) k zeroValue
      in if ok \<and> vType v = StringType then vString v else nilText)"

definition Mget :: "crc16 \<Rightarrow> KVStore \<Rightarrow> string list \<Rightarrow> string list" where
  "Mget crc kv ks =
     (case ks of
        [] \<Rightarrow> []
      | key0 # _ \<Rightarrow>
          (if clusterEnabled kv then map (mgetShard (slots kv (slotIndex crc key0))) ks
           else map (\<lambda>k. case lookup (Strings kv) k of Some v \<Rightarrow> v | None \<Rightarrow> nilText) ks))"

definition Append :: "crc16 \<Rightarrow> KVStore \<Rightarrow> string \<Rightarrow> string \<Rightarrow> kvError option kvop" where
  "Append crc kv key suffix =
     (if clusterEnabled kv then
        (let (v, ok) = shardValue crc kv key
         in if ok \<and> vType v \<noteq> StringType then Some (kv, Some ErrWrongType)
            else do { kv' \<leftarrow> putEnsured crc kv key (stringValue (vString v @ suffix)); Some (kv', None) })
      else do { m \<leftarrow> assign (Strings kv) key (fst (comma_ok (Strings kv) key []) @ suffix);
                Some (kv\<lparr>Strings := m\<rparr>, None) })"

definition changeInteger :: "crc16 \<Rightarrow> KVStore \<Rightarrow> string \<Rightarrow> int \<Rightarrow> kvError option kvop" where
  "changeInteger crc kv key delta =
     (if clusterEnabled kv then
        (let (v, exist) = shardValue crc kv key
         in if exist \<and> vType v \<noteq> StringType then Some (kv, Some ErrWrongType)
            else case applyDelta (vString v) exist delta of
                   Inl err \<Rightarrow> Some (kv, Some err)
                 | Inr nxt \<Rightarrow> do { kv' \<leftarrow> putEnsured crc kv key (stringValue nxt); Some (kv', None) })
      else
        (let (current, exist) = comma_ok (Strings kv) key []
         in case applyDelta current exist delta of
              Inl err \<Rightarrow> Some (kv, Some err)
            | Inr nxt \<Rightarrow> do { m \<leftarrow> assign (Strings kv) key nxt; Some (kv\<lparr>Strings := m\<rparr>, None) }))"

definition Incr :: "crc16 \<Rightarrow> KVStore \<Rightarrow> string \<Rightarrow> kvError option kvop" where
  "Incr crc kv key = changeInteger crc kv key 1"

definition IncrBy :: "crc16 \<Rightarrow> KVStore \<Rightarrow> string \<Rightarrow> string \<Rightarrow> kvError option kvop" where
  "IncrBy crc kv key increment =
     (case Atoi increment of
        Inl _ \<Rightarrow> Some (kv, Some ErrIncrBy)
      | Inr delta \<Rightarrow> changeInteger crc kv key delta)"

definition Decr :: "crc16 \<Rightarrow> KVStore \<Rightarrow> string \<Rightarrow> kvError option kvop" where
  "Decr crc kv key = changeInteger crc kv key (- 1)"

definition DecrBy :: "crc16 \<Rightarrow> KVStore \<Rightarrow> string \<Rightarrow> string \<Rightarrow> kvError option kvop" where
  "DecrBy crc kv key decrement =
     (case Atoi decrement of
        Inl _ \<Rightarrow> Some (kv, Some ErrDecrBy)
      | Inr delta \<Rightarrow> changeInteger crc kv key (wrap64 (- delta)))"

section \<open>Specifications\<close>

text \<open>Storing a string: in cluster mode it replaces a value of any type.\<close>

definition spec_set :: "bool \<Rightarrow> string \<Rightarrow> string \<Rightarrow> KeySpace \<Rightarrow> KeySpace" where
  "spec_set cluster k s ks = (if cluster then ks_clear k ks else ks)\<lparr>ks_str := (ks_str ks)(k \<mapsto> s)\<rparr>"

text \<open>Both modes at once: write a string cell.\<close>

definition putString :: "crc16 \<Rightarrow> KVStore \<Rightarrow> string \<Rightarrow> string \<Rightarrow> 'r \<Rightarrow> 'r kvop" where
  "putString crc kv k s r =
     (if clusterEnabled kv then do { kv' \<leftarrow> putEnsured crc kv k (stringValue s); Some (kv', r) }
      else do { m \<leftarrow> assign (Strings kv) k s; Some (kv\<lparr>Strings := m\<rparr>, r) })"

lemma ks_store_string: "ks_store k (stringValue s) ks = spec_set True k s ks"
  by (simp add: ks_store_def spec_set_def ks_clear_def stringValue_def)

lemma value_wf_string [simp]: "value_wf (stringValue s)"
  by (simp add: value_wf_def stringValue_def)

lemma putString_result:
  assumes "kv_wf crc kv"
  shows "kv_result crc kv (putString crc kv k s r) (spec_set (clusterEnabled kv) k s (absKV crc kv)) r"
proof (cases "clusterEnabled kv")
  case True
  with assms show ?thesis by (simp add: putString_def kv_result_put ks_store_string)
next
  case False
  obtain m where m: "assign (Strings kv) k s = Some m" "map_wf (\<lambda>_. True) m" "lookup m = (lookup (Strings kv))(k \<mapsto> s)"
    using assignE [OF kv_wf_maps(1) [OF assms]] by blast
  with False assms show ?thesis by (simp add: putString_def kv_result_maps spec_set_def)
qed

lemma SetKV_eq: "SetKV crc kv k s = putString crc kv k s ()"
  by (simp add: SetKV_def putString_def)

lemma Get_abs:
  "Get crc kv k = (case ks_str (absKV crc kv) k of None \<Rightarrow> nilText | Some s \<Rightarrow> s)"
  by (auto simp: Get_def shardValue_eq split: option.splits)

text \<open>The string a key holds, or the empty one: what \<^verbatim>\<open>APPEND\<close> extends.\<close>

definition string_or_empty :: "KeySpace \<Rightarrow> string \<Rightarrow> string" where
  "string_or_empty ks k = (case ks_str ks k of None \<Rightarrow> [] | Some s \<Rightarrow> s)"

lemma Append_eq:
  "Append crc kv k suffix =
     (if wrong_type (clusterEnabled kv) StringType (absKV crc kv) k then Some (kv, Some ErrWrongType)
      else putString crc kv k (string_or_empty (absKV crc kv) k @ suffix) None)"
proof (cases "clusterEnabled kv")
  case True
  then show ?thesis
    by (cases "shard_get crc kv k")
      (auto simp: Append_def putString_def shardValue_eq wrong_type_cluster string_or_empty_def zeroValue_def)
next
  case False
  then show ?thesis
    by (cases "lookup (Strings kv) k") (auto simp: Append_def putString_def comma_ok_def string_or_empty_def)
qed

text \<open>What an integer command does to the string of a key.\<close>

definition spec_delta :: "string option \<Rightarrow> int \<Rightarrow> kvError + string" where
  "spec_delta old delta =
     (case old of
        None \<Rightarrow> Inr (Itoa (wrap64 delta))
      | Some s \<Rightarrow> (case Atoi s of Inl _ \<Rightarrow> Inl ErrNotInteger | Inr n \<Rightarrow> Inr (Itoa (wrap64 (n + delta)))))"

lemma changeInteger_eq:
  "changeInteger crc kv k delta =
     (if wrong_type (clusterEnabled kv) StringType (absKV crc kv) k then Some (kv, Some ErrWrongType)
      else case spec_delta (ks_str (absKV crc kv) k) delta of
             Inl e \<Rightarrow> Some (kv, Some e)
           | Inr s \<Rightarrow> putString crc kv k s None)"
proof (cases "clusterEnabled kv")
  case True
  then show ?thesis
    by (cases "shard_get crc kv k")
      (auto simp: changeInteger_def putString_def shardValue_eq wrong_type_cluster spec_delta_def
        applyDelta_def split: sum.splits)
next
  case False
  then show ?thesis
    by (cases "lookup (Strings kv) k")
      (auto simp: changeInteger_def putString_def comma_ok_def spec_delta_def applyDelta_def split: sum.splits)
qed

section \<open>Several keys\<close>

lemma msetLoop_put_loop:
  "length ks \<le> length vs \<Longrightarrow> msetLoop mk m ks vs = put_loop assign (zip ks (map mk vs)) m"
  by (induction mk m ks vs rule: msetLoop.induct) (auto split: bind_splits)

text \<open>One \<^verbatim>\<open>SET\<close> per pair, in order.\<close>

fun spec_sets :: "bool \<Rightarrow> (string \<times> string) list \<Rightarrow> KeySpace \<Rightarrow> KeySpace" where
  "spec_sets c [] ks = ks"
| "spec_sets c ((k, v) # kvs) ks = spec_sets c kvs (spec_set c k v ks)"

lemma ks_str_spec_sets: "ks_str (spec_sets c kvs ks) = ks_str ks ++ map_of (rev kvs)"
proof (induction c kvs ks rule: spec_sets.induct)
  case (2 c k v kvs ks)
  have "ks_str (spec_set c k v ks) = (ks_str ks)(k \<mapsto> v)" by (simp add: spec_set_def)
  then show ?case unfolding spec_sets.simps 2 by (simp only: map_of_append rev.simps) simp
qed simp

text \<open>The loop of cluster mode writes every pair into one shard; when all keys hash there, that is
  one \<^verbatim>\<open>SET\<close> per pair.\<close>

lemma mset_cluster_step:
  assumes "clusterEnabled kv" "slotIndex crc k = i"
    "assign (shard_m (ensure (slots kv i))) k (stringValue v) = Some m1"
  shows "putString crc kv k v () = Some (setShard i ((ensure (slots kv i))\<lparr>shard_m := m1\<rparr>) kv, ())"
  using assms by (simp add: putString_def putEnsured_def getShard_def Let_def)

lemma setShard_setShard [simp]: "setShard i s (setShard i s' kv) = setShard i s kv"
  by (simp add: setShard_def)

lemma Mset_shard_result:
  assumes "kv_wf crc kv" "clusterEnabled kv" "\<forall>k \<in> set ks. slotIndex crc k = i" "length ks \<le> length vs"
    "ks \<noteq> []"
  shows "kv_result crc kv
     (do { m \<leftarrow> msetLoop stringValue (shard_m (ensure (slots kv i))) ks vs;
           Some (setShard i ((ensure (slots kv i))\<lparr>shard_m := m\<rparr>) kv, ()) })
     (spec_sets True (zip ks vs) (absKV crc kv)) ()"
  using assms
proof (induction ks arbitrary: kv vs)
  case (Cons k ks)
  obtain v vs' where vs: "vs = v # vs'" using Cons.prems(4) by (cases vs) auto
  let ?s = "ensure (slots kv i)"
  obtain m1 where m1: "assign (shard_m ?s) k (stringValue v) = Some m1"
    using assign_total [OF ensure_not_Nil] by blast
  let ?kv1 = "setShard i (?s\<lparr>shard_m := m1\<rparr>) kv"
  have "putString crc kv k v () = Some (?kv1, ())"
    using Cons.prems m1 by (intro mset_cluster_step) auto
  then have kv1: "kv_wf crc ?kv1" "clusterEnabled ?kv1"
      "absKV crc ?kv1 = spec_set True k v (absKV crc kv)"
    using putString_result [OF Cons.prems(1), of k v "()"] Cons.prems(2) by (auto simp: kv_result_def)
  have "m1 \<noteq> NilMap" using m1 by auto
  then have ens: "ensure (?s\<lparr>shard_m := m1\<rparr>) = ?s\<lparr>shard_m := m1\<rparr>" by (simp add: ensure_def)
  show ?case
  proof (cases "ks = []")
    case True
    with vs m1 kv1 Cons.prems(2) show ?thesis by (simp add: kv_result_def)
  next
    case False
    have "kv_result crc ?kv1
       (do { m \<leftarrow> msetLoop stringValue (shard_m (ensure (slots ?kv1 i))) ks vs';
             Some (setShard i ((ensure (slots ?kv1 i))\<lparr>shard_m := m\<rparr>) ?kv1, ()) })
       (spec_sets True (zip ks vs') (absKV crc ?kv1)) ()"
      using Cons.prems vs False by (intro Cons.IH kv1) auto
    then show ?thesis
      using vs m1 kv1 Cons.prems(2) by (simp add: ens kv_result_def)
  qed
qed simp

lemma Mset_maps_result:
  assumes "kv_wf crc kv" "\<not> clusterEnabled kv" "length ks \<le> length vs"
  shows "kv_result crc kv (do { m \<leftarrow> msetLoop id (Strings kv) ks vs; Some (kv\<lparr>Strings := m\<rparr>, ()) })
     (spec_sets False (zip ks vs) (absKV crc kv)) ()"
proof -
  have wf: "map_wf (\<lambda>_. True) (Strings kv)" by (rule kv_wf_maps [OF assms(1)])
  then obtain m where m: "put_loop assign (zip ks vs) (Strings kv) = Some m" "gm_wf m" "m \<noteq> NilMap"
      "lookup m = lookup (Strings kv) ++ map_of (rev (zip ks vs))"
    using gm.put_loop_spec [of "Strings kv" "zip ks vs"] by (auto simp: map_wf_def)
  have "spec_sets False kvs ks' = ks'\<lparr>ks_str := ks_str ks' ++ map_of (rev kvs)\<rparr>" for kvs ks'
    by (induction kvs arbitrary: ks') (auto simp: spec_set_def)
  with m assms show ?thesis
    by (simp add: msetLoop_put_loop kv_result_maps map_wf_def)
qed

definition same_slot :: "crc16 \<Rightarrow> string list \<Rightarrow> bool" where
  "same_slot crc ks \<longleftrightarrow> (\<forall>k \<in> set ks. SlotForKey crc k = SlotForKey crc (hd ks))"

lemma mgetShard_abs:
  "clusterEnabled kv \<Longrightarrow> slotIndex crc k = i \<Longrightarrow>
     mgetShard (slots kv i) k = (case ks_str (absKV crc kv) k of None \<Rightarrow> nilText | Some s \<Rightarrow> s)"
  by (auto simp: mgetShard_def comma_ok_def shard_get_def getShard_def split: option.splits)

lemma Mget_Get:
  assumes "clusterEnabled kv \<longrightarrow> same_slot crc qs"
  shows "Mget crc kv qs = map (Get crc kv) qs"
proof (cases "clusterEnabled kv")
  case True
  have "mgetShard (slots kv (slotIndex crc (hd qs))) q = Get crc kv q" if "q \<in> set qs" for q
  proof -
    have "slotIndex crc q = slotIndex crc (hd qs)"
      using assms True that unfolding same_slot_def by metis
    from mgetShard_abs [OF True this] show ?thesis by (simp add: Get_abs)
  qed
  then show ?thesis using True by (cases qs) (simp_all add: Mget_def)
next
  case False
  then show ?thesis by (cases qs) (auto simp: Mget_def Get_def split: option.splits)
qed

section \<open>Properties\<close>

text \<open>C14: SET, in both modes: on a well-formed store \<^verbatim>\<open>Set\<close> does not panic, keeps the store well formed,
  and its effect on the key space is the abstract one, so a later \<^verbatim>\<open>Get\<close> of the key returns the value
  and every other key is as it was.\<close>

theorem SetKV_refines:
  assumes "kv_wf crc kv"
  shows "kv_result crc kv (SetKV crc kv k s) (spec_set (clusterEnabled kv) k s (absKV crc kv)) ()
    \<and> (\<forall>kv' k'. SetKV crc kv k s = Some (kv', ()) \<longrightarrow> Get crc kv' k' = (if k' = k then s else Get crc kv k'))"
proof -
  have *: "kv_result crc kv (SetKV crc kv k s) (spec_set (clusterEnabled kv) k s (absKV crc kv)) ()"
    using putString_result [OF assms] by (simp add: SetKV_eq)
  then show ?thesis by (auto simp: kv_result_def Get_abs spec_set_def ks_clear_def)
qed

theorem SetKV_refines_witness:
  "kv_wf (\<lambda>_. 7) (NewKVStore [True])
   \<and> kv_result (\<lambda>_. 7) (NewKVStore [True]) (SetKV (\<lambda>_. 7) (NewKVStore [True]) ''x'' ''foobar'')
       (spec_set True ''x'' ''foobar'' ks_empty) ()"
  using SetKV_refines [of "\<lambda>_. 7" "NewKVStore [True]" "''x''" "''foobar''", OF NewKVStore_wf]
  by (simp add: NewKVStore_wf)

lemma Mset_result:
  assumes "kv_wf crc kv" "length ks \<le> length vs" "clusterEnabled kv \<longrightarrow> same_slot crc ks"
  shows "kv_result crc kv (Mset crc kv ks vs) (spec_sets (clusterEnabled kv) (zip ks vs) (absKV crc kv)) ()"
proof (cases ks)
  case Nil
  with assms(1) show ?thesis by (auto simp: Mset_def)
next
  case (Cons k0 ks')
  show ?thesis
  proof (cases "clusterEnabled kv")
    case True
    with Cons assms(3) have "\<forall>k \<in> set ks. slotIndex crc k = slotIndex crc k0"
      by (simp add: same_slot_def)
    from Mset_shard_result [OF assms(1) True this assms(2)] Cons True show ?thesis
      by (simp add: Mset_def Let_def)
  next
    case False
    from Mset_maps_result [OF assms(1) False assms(2)] Cons False show ?thesis
      by (simp add: Mset_def)
  qed
qed

lemma msetLoop_panics: "length vs < length ks \<Longrightarrow> msetLoop mk m ks vs = None"
  by (induction mk m ks vs rule: msetLoop.induct) (auto split: bind_splits)



text \<open>MGET after MSET returns, for every key asked for, the last value MSET gave it, and for a key
  MSET did not name what MGET would have returned before: the round trip of the multi-key commands.\<close>

theorem Mget_Mset:
  assumes "kv_wf crc kv" "length ks \<le> length vs"
    "clusterEnabled kv \<longrightarrow> same_slot crc ks \<and> same_slot crc qs"
    "Mset crc kv ks vs = Some (kv', ())"
  shows "Mget crc kv' qs = map (\<lambda>q. case map_of (rev (zip ks vs)) q of Some v \<Rightarrow> v | None \<Rightarrow> Get crc kv q) qs"
proof -
  have r: "kv_result crc kv (Mset crc kv ks vs) (spec_sets (clusterEnabled kv) (zip ks vs) (absKV crc kv)) ()"
    using assms by (intro Mset_result) auto
  have m: "clusterEnabled kv' = clusterEnabled kv"
      "ks_str (absKV crc kv') = ks_str (absKV crc kv) ++ map_of (rev (zip ks vs))"
    using r assms(4) by (auto simp: kv_result_def ks_str_spec_sets)
  have "Mget crc kv' qs = map (Get crc kv') qs"
    using assms(3) m(1) by (intro Mget_Get) simp
  moreover have "Get crc kv' q = (case map_of (rev (zip ks vs)) q of Some v \<Rightarrow> v | None \<Rightarrow> Get crc kv q)" for q
    by (simp add: m(2) map_add_def Get_abs split: option.splits)
  ultimately show ?thesis by simp
qed

theorem Mget_Mset_witness:
  "\<exists>kv'. Mset (\<lambda>_. 7) (NewKVStore []) [''x'', ''y''] [''10'', ''foo bar''] = Some (kv', ())
     \<and> Mget (\<lambda>_. 7) kv' [''y'', ''z''] = [''foo bar'', ''(nil)'']"
proof -
  obtain kv' where kv': "Mset (\<lambda>_. 7) (NewKVStore []) [''x'', ''y''] [''10'', ''foo bar''] = Some (kv', ())"
    by (simp add: Mset_def NewKVStore_def)
  have "Mget (\<lambda>_. 7) kv' [''y'', ''z''] = [''foo bar'', ''(nil)'']"
    using Mget_Mset [OF NewKVStore_wf _ _ kv', of "[''y'', ''z'']"]
    by (simp add: NewKVStore_def Get_def nilText_def)
  with kv' show ?thesis by blast
qed

text \<open>APPEND extends the string of the key, an absent key counting as the empty string; in cluster
  mode a key of another type makes it fail with WRONGTYPE and leaves the store as it was.\<close>

theorem Append_refines:
  assumes "kv_wf crc kv"
  shows "if wrong_type (clusterEnabled kv) StringType (absKV crc kv) k
    then Append crc kv k suffix = Some (kv, Some ErrWrongType)
    else kv_result crc kv (Append crc kv k suffix)
      (spec_set (clusterEnabled kv) k (string_or_empty (absKV crc kv) k @ suffix) (absKV crc kv)) None"
  by (simp add: Append_eq putString_result [OF assms])

theorem Append_refines_witness:
  "kv_result (\<lambda>_. 7) (NewKVStore []) (Append (\<lambda>_. 7) (NewKVStore []) ''foo'' ''12'')
      (spec_set False ''foo'' ''12'' ks_empty) None"
  using Append_refines [of "\<lambda>_. 7" "NewKVStore []" "''foo''" "''12''", OF NewKVStore_wf]
  by (simp add: string_or_empty_def)



text \<open>a counter counts: as long as no sum leaves the 64-bit range, adding \<open>d\<close> and then \<open>e\<close> to a key
  that holds the decimal text of \<open>n\<close> leaves the decimal text of \<open>n + d + e\<close>.\<close>

theorem counter_adds:
  assumes "kv_wf crc kv" "ks_str (absKV crc kv) k = Some (Itoa n)"
    "int64_ok n" "int64_ok (n + d)" "int64_ok (n + d + e)"
  shows "\<exists>kv1 kv2. changeInteger crc kv k d = Some (kv1, None) \<and> changeInteger crc kv1 k e = Some (kv2, None)
     \<and> Get crc kv2 k = Itoa (n + d + e)"
proof -
  have nt: "\<not> wrong_type (clusterEnabled kv') StringType (absKV crc kv') k"
    if "ks_str (absKV crc kv') k \<noteq> None" for kv'
    using that by (auto simp: wrong_type_absKV split: if_splits)
  have step: "\<exists>kv1. changeInteger crc kv' k c = Some (kv1, None) \<and> kv_wf crc kv1
      \<and> ks_str (absKV crc kv1) k = Some (Itoa (m + c))"
    if "kv_wf crc kv'" "ks_str (absKV crc kv') k = Some (Itoa m)" "int64_ok m" "int64_ok (m + c)" for kv' m c
  proof -
    have "spec_delta (ks_str (absKV crc kv') k) c = Inr (Itoa (m + c))"
      using that by (simp add: spec_delta_def Atoi_Itoa wrap64_id)
    then have "changeInteger crc kv' k c = putString crc kv' k (Itoa (m + c)) None"
      using nt [of kv'] that(2) by (simp add: changeInteger_eq)
    then show ?thesis
      using putString_result [OF that(1), of k "Itoa (m + c)" None]
      by (auto simp: kv_result_def spec_set_def)
  qed
  obtain kv1 where "changeInteger crc kv k d = Some (kv1, None)" "kv_wf crc kv1"
      "ks_str (absKV crc kv1) k = Some (Itoa (n + d))"
    using step [of kv n d] assms by blast
  moreover from this obtain kv2 where "changeInteger crc kv1 k e = Some (kv2, None)"
      "ks_str (absKV crc kv2) k = Some (Itoa (n + d + e))"
    using step [of kv1 "n + d" e] assms by blast
  ultimately show ?thesis by (auto simp: Get_abs)
qed

theorem counter_adds_witness:
  "\<exists>kv kv1 kv2. SetKV (\<lambda>_. 7) (NewKVStore []) ''incr'' (Itoa 41) = Some (kv, ())
     \<and> changeInteger (\<lambda>_. 7) kv ''incr'' 2 = Some (kv1, None)
     \<and> changeInteger (\<lambda>_. 7) kv1 ''incr'' (- 1) = Some (kv2, None) \<and> Get (\<lambda>_. 7) kv2 ''incr'' = Itoa 42"
proof -
  obtain kv where kv: "SetKV (\<lambda>_. 7) (NewKVStore []) ''incr'' (Itoa 41) = Some (kv, ())" "kv_wf (\<lambda>_. 7) kv"
      "absKV (\<lambda>_. 7) kv = spec_set False ''incr'' (Itoa 41) ks_empty"
    using putString_result [OF NewKVStore_wf, of "\<lambda>_. 7" "[]" "''incr''" "Itoa 41" "()"]
    by (auto simp: kv_result_def SetKV_eq)
  show ?thesis
    using counter_adds [OF kv(2), of "''incr''" 41 2 "- 1"] kv(1,3)
    by (auto simp: spec_set_def int64_ok_def MinInt64_def MaxInt64_def)
qed

end
