(* ===== verification/KV_Hashes.thy ===== *)
theory KV_Hashes
  imports KV_Abs
begin

text \<open>
  \<^verbatim>\<open>utils/kvstore/hashes.go\<close> and \<^verbatim>\<open>sets.go\<close>: the two collections that are Go maps themselves. A stored map is
  a reference that the code updates in place; the store holds the only reference, so the model
  writes the updated map back where it came from. \<^verbatim>\<open>HGETALL\<close> and \<^verbatim>\<open>SMEMBERS\<close> sort what they iterate over, so
  their answers do not depend on Go's random iteration order.
\<close>

section \<open>Hashes\<close>

definition hashValue :: "(string, string) gomap \<Rightarrow> Value" where
  "hashValue h = zeroValue\<lparr>vType := HashType, vHash := h\<rparr>"

definition HMSet :: "crc16 \<Rightarrow> KVStore \<Rightarrow> string \<Rightarrow> (string, string) gomap \<Rightarrow> unit kvop" where
  "HMSet crc kv key flds =
     (if len flds = 0 then Some (kv, ())
      else if clusterEnabled kv then
        (let (v, ok) = shardValue crc kv key
         in if ok \<and> vType v \<noteq> HashType then Some (kv, ())
            else let v1 = (if \<not> ok then hashValue (GoMap []) else v)
                 in do { h \<leftarrow> put_loop assign (entries flds) (vHash v1);
                         kv' \<leftarrow> putEnsured crc kv key (v1\<lparr>vHash := h\<rparr>);
                         Some (kv', ()) })
      else
        (let hash = fst (comma_ok (Hashes kv) key NilMap);
             hash1 = (if hash = NilMap then GoMap [] else hash)
         in do { h \<leftarrow> put_loop assign (entries flds) hash1;
                 m \<leftarrow> assign (Hashes kv) key h;
                 Some (kv\<lparr>Hashes := m\<rparr>, ()) }))"

definition HSet :: "crc16 \<Rightarrow> KVStore \<Rightarrow> string \<Rightarrow> string \<Rightarrow> string \<Rightarrow> unit kvop" where
  "HSet crc kv key field value = HMSet crc kv key (GoMap [(field, value)])"

definition HGet :: "crc16 \<Rightarrow> KVStore \<Rightarrow> string \<Rightarrow> string \<Rightarrow> string \<times> bool" where
  "HGet crc kv key field =
     (if clusterEnabled kv then
        (let (v, ok) = shardValue crc kv key
         in if \<not> ok \<or> vType v \<noteq> HashType then ([], False) else comma_ok (vHash v) field [])
      else comma_ok (fst (comma_ok (Hashes kv) key NilMap)) field [])"

text \<open>\<^verbatim>\<open>var hash map[string]string\<close>, then the map of the key if it is a hash: nil when there is none.\<close>

definition storedHash :: "crc16 \<Rightarrow> KVStore \<Rightarrow> string \<Rightarrow> (string, string) gomap" where
  "storedHash crc kv key =
     (if clusterEnabled kv then
        (let (v, ok) = shardValue crc kv key in if ok \<and> vType v = HashType then vHash v else NilMap)
      else fst (comma_ok (Hashes kv) key NilMap))"

text \<open>An element of \<^verbatim>\<open>[]any\<close> is a string or nil.\<close>

definition HMGet :: "crc16 \<Rightarrow> KVStore \<Rightarrow> string \<Rightarrow> string list \<Rightarrow> string option list" where
  "HMGet crc kv key flds = map (lookup (storedHash crc kv key)) flds"

definition HGetAll :: "crc16 \<Rightarrow> KVStore \<Rightarrow> string \<Rightarrow> string list" where
  "HGetAll crc kv key =
     (let hash = storedHash crc kv key; flds = sort (keys hash)
      in concat (map (\<lambda>field. [field, fst (comma_ok hash field [])]) flds))"

definition removeFields :: "string list \<Rightarrow> (string, string) gomap \<Rightarrow> (string, string) gomap \<times> nat" where
  "removeFields flds hash = del_loop lookup remove flds hash 0"

definition HDel :: "crc16 \<Rightarrow> KVStore \<Rightarrow> string \<Rightarrow> string list \<Rightarrow> int kvop" where
  "HDel crc kv key flds =
     (if clusterEnabled kv then
        (let (v, ok) = shardValue crc kv key
         in if \<not> ok \<or> vType v \<noteq> HashType then Some (kv, 0)
            else let (h, removed) = removeFields flds (vHash v)
                 in if len h = 0 then Some (delShard crc kv key, int removed)
                    else do { kv' \<leftarrow> putShard crc kv key (v\<lparr>vHash := h\<rparr>); Some (kv', int removed) })
      else
        (let hash = fst (comma_ok (Hashes kv) key NilMap);
             (h, removed) = removeFields flds hash
         in if hash = NilMap then Some (kv, int removed)
            else if len h = 0 then Some (kv\<lparr>Hashes := remove (Hashes kv) key\<rparr>, int removed)
            else do { m \<leftarrow> assign (Hashes kv) key h; Some (kv\<lparr>Hashes := m\<rparr>, int removed) }))"

section \<open>Sets\<close>

definition setValue :: "(string, unit) gomap \<Rightarrow> Value" where
  "setValue s = zeroValue\<lparr>vType := SetType, vSet := s\<rparr>"

definition addMembers :: "string list \<Rightarrow> (string, unit) gomap \<Rightarrow> ((string, unit) gomap \<times> nat) option" where
  "addMembers members st = add_loop lookup assign () members st 0"

definition SAdd :: "crc16 \<Rightarrow> KVStore \<Rightarrow> string \<Rightarrow> string list \<Rightarrow> int kvop" where
  "SAdd crc kv key members =
     (if clusterEnabled kv then
        (let (v, ok) = shardValue crc kv key
         in if ok \<and> vType v \<noteq> SetType then Some (kv, 0)
            else if members = [] then Some (kv, 0)
            else let v1 = (if \<not> ok then setValue (GoMap []) else v)
                 in do { (s, added) \<leftarrow> addMembers members (vSet v1);
                         kv' \<leftarrow> putEnsured crc kv key (v1\<lparr>vSet := s\<rparr>);
                         Some (kv', int added) })
      else if members = [] then Some (kv, 0)
      else
        (let st = fst (comma_ok (Sets kv) key NilMap);
             st1 = (if st = NilMap then GoMap [] else st)
         in do { (s, added) \<leftarrow> addMembers members st1;
                 m \<leftarrow> assign (Sets kv) key s;
                 Some (kv\<lparr>Sets := m\<rparr>, int added) }))"

definition storedSet :: "crc16 \<Rightarrow> KVStore \<Rightarrow> string \<Rightarrow> (string, unit) gomap" where
  "storedSet crc kv key =
     (if clusterEnabled kv then
        (let (v, ok) = shardValue crc kv key in if ok \<and> vType v = SetType then vSet v else NilMap)
      else fst (comma_ok (Sets kv) key NilMap))"

definition SMembers :: "crc16 \<Rightarrow> KVStore \<Rightarrow> string \<Rightarrow> string list" where
  "SMembers crc kv key = sort (keys (storedSet crc kv key))"

definition SIsMember :: "crc16 \<Rightarrow> KVStore \<Rightarrow> string \<Rightarrow> string \<Rightarrow> bool" where
  "SIsMember crc kv key member =
     (if clusterEnabled kv then
        (let (v, ok) = shardValue crc kv key
         in if \<not> ok \<or> vType v \<noteq> SetType then False else snd (comma_ok (vSet v) member ()))
      else snd (comma_ok (fst (comma_ok (Sets kv) key NilMap)) member ()))"

definition removeMembers :: "string list \<Rightarrow> (string, unit) gomap \<Rightarrow> (string, unit) gomap \<times> nat" where
  "removeMembers members st = del_loop lookup remove members st 0"

definition SRem :: "crc16 \<Rightarrow> KVStore \<Rightarrow> string \<Rightarrow> string list \<Rightarrow> int kvop" where
  "SRem crc kv key members =
     (if clusterEnabled kv then
        (let (v, ok) = shardValue crc kv key
         in if \<not> ok \<or> vType v \<noteq> SetType then Some (kv, 0)
            else let (s, removed) = removeMembers members (vSet v)
                 in if len s = 0 then Some (delShard crc kv key, int removed)
                    else do { kv' \<leftarrow> putShard crc kv key (v\<lparr>vSet := s\<rparr>); Some (kv', int removed) })
      else
        (let st = fst (comma_ok (Sets kv) key NilMap);
             (s, removed) = removeMembers members st
         in if st = NilMap then Some (kv, int removed)
            else if len s = 0 then Some (kv\<lparr>Sets := remove (Sets kv) key\<rparr>, int removed)
            else do { m \<leftarrow> assign (Sets kv) key s; Some (kv\<lparr>Sets := m\<rparr>, int removed) }))"

section \<open>Specifications\<close>

definition hash_or_empty :: "KeySpace \<Rightarrow> string \<Rightarrow> string \<rightharpoonup> string" where
  "hash_or_empty ks k = (case ks_hash ks k of None \<Rightarrow> Map.empty | Some h \<Rightarrow> h)"

definition set_or_empty :: "KeySpace \<Rightarrow> string \<Rightarrow> string set" where
  "set_or_empty ks k = (case ks_set ks k of None \<Rightarrow> {} | Some s \<Rightarrow> s)"

definition spec_hash :: "string \<Rightarrow> (string \<rightharpoonup> string) \<Rightarrow> KeySpace \<Rightarrow> KeySpace" where
  "spec_hash k h ks = ks\<lparr>ks_hash := (ks_hash ks)(k := (if h = Map.empty then None else Some h))\<rparr>"

definition spec_sset :: "string \<Rightarrow> string set \<Rightarrow> KeySpace \<Rightarrow> KeySpace" where
  "spec_sset k s ks = ks\<lparr>ks_set := (ks_set ks)(k := (if s = {} then None else Some s))\<rparr>"

lemma storedHash_abs: "lookup (storedHash crc kv k) = hash_or_empty (absKV crc kv) k"
  by (auto simp: storedHash_def hash_or_empty_def shardValue_eq comma_ok_def split: option.splits)

lemma storedSet_abs: "dom (lookup (storedSet crc kv k)) = set_or_empty (absKV crc kv) k"
  by (auto simp: storedSet_def set_or_empty_def shardValue_eq comma_ok_def split: option.splits)

lemma storedHash_wf:
  assumes "kv_wf crc kv"
  shows "gm_wf (storedHash crc kv k)" "storedHash crc kv k \<noteq> NilMap \<longrightarrow> len (storedHash crc kv k) \<noteq> 0"
proof -
  have "storedHash crc kv k = NilMap \<or> inner_wf (storedHash crc kv k)"
    using kv_wf_value [OF assms, of k] map_wf_value [OF kv_wf_maps(3) [OF assms], of k]
    by (auto simp: storedHash_def shardValue_eq comma_ok_def value_wf_def split: option.splits)
  then show "gm_wf (storedHash crc kv k)" "storedHash crc kv k \<noteq> NilMap \<longrightarrow> len (storedHash crc kv k) \<noteq> 0"
    by (auto simp: inner_wf_def)
qed

lemma storedSet_wf:
  assumes "kv_wf crc kv"
  shows "gm_wf (storedSet crc kv k)" "storedSet crc kv k \<noteq> NilMap \<longrightarrow> len (storedSet crc kv k) \<noteq> 0"
proof -
  have "storedSet crc kv k = NilMap \<or> inner_wf (storedSet crc kv k)"
    using kv_wf_value [OF assms, of k] map_wf_value [OF kv_wf_maps(4) [OF assms], of k]
    by (auto simp: storedSet_def shardValue_eq comma_ok_def value_wf_def split: option.splits)
  then show "gm_wf (storedSet crc kv k)" "storedSet crc kv k \<noteq> NilMap \<longrightarrow> len (storedSet crc kv k) \<noteq> 0"
    by (auto simp: inner_wf_def)
qed

text \<open>Writing a non-empty map back, deleting the cell of an empty one.\<close>

definition putHash :: "crc16 \<Rightarrow> KVStore \<Rightarrow> string \<Rightarrow> Value \<Rightarrow> (string, string) gomap \<Rightarrow> 'r \<Rightarrow> 'r kvop" where
  "putHash crc kv k v h r =
     (if len h = 0 then
        Some (if clusterEnabled kv then delShard crc kv k else kv\<lparr>Hashes := remove (Hashes kv) k\<rparr>, r)
      else if clusterEnabled kv then do { kv' \<leftarrow> putEnsured crc kv k (v\<lparr>vHash := h\<rparr>); Some (kv', r) }
      else do { m \<leftarrow> assign (Hashes kv) k h; Some (kv\<lparr>Hashes := m\<rparr>, r) })"

definition putSet :: "crc16 \<Rightarrow> KVStore \<Rightarrow> string \<Rightarrow> Value \<Rightarrow> (string, unit) gomap \<Rightarrow> 'r \<Rightarrow> 'r kvop" where
  "putSet crc kv k v s r =
     (if len s = 0 then
        Some (if clusterEnabled kv then delShard crc kv k else kv\<lparr>Sets := remove (Sets kv) k\<rparr>, r)
      else if clusterEnabled kv then do { kv' \<leftarrow> putEnsured crc kv k (v\<lparr>vSet := s\<rparr>); Some (kv', r) }
      else do { m \<leftarrow> assign (Sets kv) k s; Some (kv\<lparr>Sets := m\<rparr>, r) })"

text \<open>The standalone half, for either kind of map.\<close>

lemma assign_Hashes_result:
  assumes "kv_wf crc kv" "\<not> clusterEnabled kv" "inner_wf h"
  shows "kv_result crc kv (do { m \<leftarrow> assign (Hashes kv) k h; Some (kv\<lparr>Hashes := m\<rparr>, r) })
     ((absKV crc kv)\<lparr>ks_hash := (ks_hash (absKV crc kv))(k \<mapsto> lookup h)\<rparr>) r"
proof -
  obtain m where m: "assign (Hashes kv) k h = Some m" "map_wf inner_wf m" "lookup m = (lookup (Hashes kv))(k \<mapsto> h)"
    using assignE [OF kv_wf_maps(3) [OF assms(1)] assms(3)] by blast
  have "(ks_hash (absKV crc kv))(k \<mapsto> lookup h) = (\<lambda>k. map_option lookup (lookup m k))"
    using assms(2) by (auto simp: m(3))
  then show ?thesis using m(1) kv_result_maps(3) [OF assms(1,2) m(2) refl, of r] by simp
qed

lemma assign_Sets_result:
  assumes "kv_wf crc kv" "\<not> clusterEnabled kv" "inner_wf s"
  shows "kv_result crc kv (do { m \<leftarrow> assign (Sets kv) k s; Some (kv\<lparr>Sets := m\<rparr>, r) })
     ((absKV crc kv)\<lparr>ks_set := (ks_set (absKV crc kv))(k \<mapsto> dom (lookup s))\<rparr>) r"
proof -
  obtain m where m: "assign (Sets kv) k s = Some m" "map_wf inner_wf m" "lookup m = (lookup (Sets kv))(k \<mapsto> s)"
    using assignE [OF kv_wf_maps(4) [OF assms(1)] assms(3)] by blast
  have "(ks_set (absKV crc kv))(k \<mapsto> dom (lookup s)) = (\<lambda>k. map_option (\<lambda>s. dom (lookup s)) (lookup m k))"
    using assms(2) by (auto simp: m(3))
  then show ?thesis using m(1) kv_result_maps(4) [OF assms(1,2) m(2) refl, of r] by simp
qed

lemma remove_Hashes_result:
  assumes "kv_wf crc kv" "\<not> clusterEnabled kv"
  shows "kv_result crc kv (Some (kv\<lparr>Hashes := remove (Hashes kv) k\<rparr>, r))
     ((absKV crc kv)\<lparr>ks_hash := (ks_hash (absKV crc kv))(k := None)\<rparr>) r"
proof -
  have "(ks_hash (absKV crc kv))(k := None) = (\<lambda>k'. map_option lookup (lookup (remove (Hashes kv) k) k'))"
    using assms(2) by auto
  then show ?thesis using kv_result_maps(3) [OF assms map_wf_remove [OF kv_wf_maps(3) [OF assms(1)]] refl, of k r]
    by simp
qed

lemma remove_Sets_result:
  assumes "kv_wf crc kv" "\<not> clusterEnabled kv"
  shows "kv_result crc kv (Some (kv\<lparr>Sets := remove (Sets kv) k\<rparr>, r))
     ((absKV crc kv)\<lparr>ks_set := (ks_set (absKV crc kv))(k := None)\<rparr>) r"
proof -
  have "(ks_set (absKV crc kv))(k := None) = (\<lambda>k'. map_option (\<lambda>s. dom (lookup s)) (lookup (remove (Sets kv) k) k'))"
    using assms(2) by auto
  then show ?thesis using kv_result_maps(4) [OF assms map_wf_remove [OF kv_wf_maps(4) [OF assms(1)]] refl, of k r]
    by simp
qed

lemma putHash_result:
  assumes wf: "kv_wf crc kv" and nt: "\<not> wrong_type (clusterEnabled kv) HashType (absKV crc kv) k"
    and h: "gm_wf h" and v: "clusterEnabled kv \<longrightarrow> vType v = HashType"
  shows "kv_result crc kv (putHash crc kv k v h r) (spec_hash k (lookup h) (absKV crc kv)) r"
proof (cases "len h = 0")
  case True
  then have "lookup h = Map.empty" by (simp add: len_eq_0)
  then show ?thesis
    using True nt kv_result_del [OF wf _ refl, of k r] remove_Hashes_result [OF wf, of k r]
    by (cases "clusterEnabled kv") (simp_all add: putHash_def spec_hash_def ks_clear_typed)
next
  case False
  then have ne: "lookup h \<noteq> Map.empty" "inner_wf h" using h by (simp_all add: len_eq_0 inner_wf_def)
  show ?thesis
  proof (cases "clusterEnabled kv")
    case True
    then have "ks_store k (v\<lparr>vHash := h\<rparr>) (absKV crc kv) = spec_hash k (lookup h) (absKV crc kv)"
      using ks_store_typed(2) [of "v\<lparr>vHash := h\<rparr>"] nt v ne by (simp add: spec_hash_def)
    moreover have "value_wf (v\<lparr>vHash := h\<rparr>)" using True v ne by (simp add: value_wf_def)
    ultimately show ?thesis using True False wf by (simp add: putHash_def kv_result_put)
  next
    case sa: False
    with False ne show ?thesis
      using assign_Hashes_result [OF wf sa ne(2), of k r] by (simp add: putHash_def spec_hash_def)
  qed
qed

lemma putSet_result:
  assumes wf: "kv_wf crc kv" and nt: "\<not> wrong_type (clusterEnabled kv) SetType (absKV crc kv) k"
    and s: "gm_wf s" and v: "clusterEnabled kv \<longrightarrow> vType v = SetType"
  shows "kv_result crc kv (putSet crc kv k v s r) (spec_sset k (dom (lookup s)) (absKV crc kv)) r"
proof (cases "len s = 0")
  case True
  then have "dom (lookup s) = {}" by (simp add: len_eq_0)
  then show ?thesis
    using True nt kv_result_del [OF wf _ refl, of k r] remove_Sets_result [OF wf, of k r]
    by (cases "clusterEnabled kv") (simp_all add: putSet_def spec_sset_def ks_clear_typed)
next
  case False
  then have ne: "dom (lookup s) \<noteq> {}" "inner_wf s" using s by (simp_all add: len_eq_0 inner_wf_def)
  show ?thesis
  proof (cases "clusterEnabled kv")
    case True
    then have "ks_store k (v\<lparr>vSet := s\<rparr>) (absKV crc kv) = spec_sset k (dom (lookup s)) (absKV crc kv)"
      using ks_store_typed(3) [of "v\<lparr>vSet := s\<rparr>"] nt v ne by (simp add: spec_sset_def)
    moreover have "value_wf (v\<lparr>vSet := s\<rparr>)" using True v ne by (simp add: value_wf_def)
    ultimately show ?thesis using True False wf by (simp add: putSet_def kv_result_put)
  next
    case sa: False
    with False ne show ?thesis
      using assign_Sets_result [OF wf sa ne(2), of k r] by (simp add: putSet_def spec_sset_def)
  qed
qed


section \<open>What the operations write\<close>

lemma storedHash_cases:
  assumes "kv_wf crc kv"
  obtains (None) "storedHash crc kv k = NilMap"
  | (Some) "storedHash crc kv k \<noteq> NilMap" "len (storedHash crc kv k) \<noteq> 0"
  using storedHash_wf(2) [OF assms, of k] by blast

lemma map_of_rev_entries: "gm_wf m \<Longrightarrow> map_of (rev (entries m)) = lookup m"
proof -
  assume "gm_wf m"
  then have "distinct (map fst (entries m))" by (simp add: gm_wf_def keys_def)
  then have "map_of (rev (entries m)) = map_of (entries m)"
    using map_of_inject_set [of "rev (entries m)" "entries m"] by (simp add: rev_map [symmetric])
  then show ?thesis by (simp add: lookup_eq_map_of)
qed

text \<open>Every operation is \<open>putHash\<close>, or \<open>putSet\<close>, of the map its loop computes.\<close>

definition hashCell :: "crc16 \<Rightarrow> KVStore \<Rightarrow> string \<Rightarrow> Value" where
  "hashCell crc kv k = (case shard_get crc kv k of None \<Rightarrow> hashValue (GoMap []) | Some v \<Rightarrow> v)"

definition setCell :: "crc16 \<Rightarrow> KVStore \<Rightarrow> string \<Rightarrow> Value" where
  "setCell crc kv k = (case shard_get crc kv k of None \<Rightarrow> setValue (GoMap []) | Some v \<Rightarrow> v)"

lemma cell_type:
  "clusterEnabled kv \<Longrightarrow> \<not> wrong_type (clusterEnabled kv) HashType (absKV crc kv) k \<Longrightarrow> vType (hashCell crc kv k) = HashType"
  "clusterEnabled kv \<Longrightarrow> \<not> wrong_type (clusterEnabled kv) SetType (absKV crc kv) k \<Longrightarrow> vType (setCell crc kv k) = SetType"
  by (auto simp: hashCell_def setCell_def hashValue_def setValue_def wrong_type_cluster split: option.splits)

definition writableHash :: "('k, 'v) gomap \<Rightarrow> ('k, 'v) gomap" where
  "writableHash m = (if m = NilMap then GoMap [] else m)"

lemma writableHash_simps [simp]:
  "writableHash m \<noteq> NilMap" "lookup (writableHash m) = lookup m" "gm_wf (writableHash m) = gm_wf m"
  by (auto simp: writableHash_def)

lemma HMSet_eq:
  assumes wf: "kv_wf crc kv" and "\<not> wrong_type (clusterEnabled kv) HashType (absKV crc kv) k" "len flds \<noteq> 0"
    and h: "put_loop assign (entries flds) (writableHash (storedHash crc kv k)) = Some h" "len h \<noteq> 0"
  shows "HMSet crc kv k flds = putHash crc kv k (hashCell crc kv k) h ()"
proof (cases "clusterEnabled kv")
  case True
  then show ?thesis
  proof (cases "shard_get crc kv k")
    case None
    with True assms show ?thesis
      by (simp add: HMSet_def putHash_def hashCell_def shardValue_eq storedHash_def writableHash_def hashValue_def)
  next
    case (Some v)
    with True assms(2) have "vType v = HashType" by (auto simp: wrong_type_cluster)
    with kv_wf_value [OF wf Some] have "vHash v \<noteq> NilMap" by (auto simp: value_wf_def inner_wf_def len_def)
    with True Some assms \<open>vType v = HashType\<close> show ?thesis
      by (simp add: HMSet_def putHash_def hashCell_def shardValue_eq storedHash_def writableHash_def)
  qed
next
  case False
  with assms show ?thesis
    by (simp add: HMSet_def putHash_def storedHash_def writableHash_def Let_def)
qed

lemma HMSet_result:
  assumes wf: "kv_wf crc kv" and nt: "\<not> wrong_type (clusterEnabled kv) HashType (absKV crc kv) k"
    and f: "len flds \<noteq> 0" "gm_wf flds"
  shows "kv_result crc kv (HMSet crc kv k flds)
     (spec_hash k (hash_or_empty (absKV crc kv) k ++ lookup flds) (absKV crc kv)) ()"
proof -
  obtain h where h: "put_loop assign (entries flds) (writableHash (storedHash crc kv k)) = Some h" "gm_wf h"
    "lookup h = hash_or_empty (absKV crc kv) k ++ lookup flds"
    using gm.put_loop_spec [of "writableHash (storedHash crc kv k)" "entries flds"] storedHash_wf(1) [OF wf, of k]
    by (auto simp: storedHash_abs map_of_rev_entries [OF f(2)])
  moreover have "len h \<noteq> 0"
    using f(1) h(3) by (simp add: len_eq_0)
  ultimately show ?thesis
    using HMSet_eq [OF wf nt f(1), of h] putHash_result [OF wf nt h(2), of "hashCell crc kv k" "()"] cell_type(1) [OF _ nt]
    by simp
qed

lemma HDel_eq:
  assumes wf: "kv_wf crc kv" and nt: "storedHash crc kv k \<noteq> NilMap"
    and h: "removeFields flds (storedHash crc kv k) = (h, n)"
  shows "HDel crc kv k flds = putHash crc kv k (hashCell crc kv k) h (int n)"
proof (cases "clusterEnabled kv")
  case True
  with nt obtain v where "shard_get crc kv k = Some v" "vType v = HashType"
    by (auto simp: storedHash_def shardValue_eq split: option.splits if_splits)
  with True h show ?thesis
    by (simp add: HDel_def putHash_def hashCell_def shardValue_eq storedHash_def putShard_present)
next
  case False
  with nt h show ?thesis by (simp add: HDel_def putHash_def storedHash_def)
qed

lemma HDel_absent: "storedHash crc kv k = NilMap \<Longrightarrow> kv_wf crc kv \<Longrightarrow> HDel crc kv k flds = Some (kv, 0)"
proof -
  assume *: "storedHash crc kv k = NilMap" "kv_wf crc kv"
  have "removeFields flds NilMap = (NilMap, 0)" for flds :: "string list"
    unfolding removeFields_def by (induction flds) auto
  moreover have "clusterEnabled kv \<Longrightarrow> shard_get crc kv k = Some v \<Longrightarrow> vType v \<noteq> HashType" for v
    using * kv_wf_value [of crc kv k v]
    by (auto simp: storedHash_def shardValue_eq value_wf_def inner_wf_def len_def)
  ultimately show ?thesis using *(1)
    by (auto simp: HDel_def storedHash_def shardValue_eq split: option.splits prod.splits)
qed

lemma hash_not_wrong_type:
  "storedHash crc kv k \<noteq> NilMap \<Longrightarrow> \<not> wrong_type (clusterEnabled kv) HashType (absKV crc kv) k"
  by (auto simp: wrong_type_absKV storedHash_def shardValue_eq split: if_splits)

lemma set_not_wrong_type:
  "storedSet crc kv k \<noteq> NilMap \<Longrightarrow> \<not> wrong_type (clusterEnabled kv) SetType (absKV crc kv) k"
  by (auto simp: wrong_type_absKV storedSet_def shardValue_eq split: if_splits)

lemma SAdd_eq:
  assumes wf: "kv_wf crc kv" and "\<not> wrong_type (clusterEnabled kv) SetType (absKV crc kv) k" "ms \<noteq> []"
    and s: "addMembers ms (writableHash (storedSet crc kv k)) = Some (s, n)" "len s \<noteq> 0"
  shows "SAdd crc kv k ms = putSet crc kv k (setCell crc kv k) s (int n)"
proof (cases "clusterEnabled kv")
  case True
  then show ?thesis
  proof (cases "shard_get crc kv k")
    case None
    with True assms show ?thesis
      by (simp add: SAdd_def putSet_def setCell_def shardValue_eq storedSet_def writableHash_def setValue_def)
  next
    case (Some v)
    with True assms(2) have "vType v = SetType" by (auto simp: wrong_type_cluster)
    with kv_wf_value [OF wf Some] have "vSet v \<noteq> NilMap" by (auto simp: value_wf_def inner_wf_def len_def)
    with True Some assms \<open>vType v = SetType\<close> show ?thesis
      by (simp add: SAdd_def putSet_def setCell_def shardValue_eq storedSet_def writableHash_def)
  qed
next
  case False
  with assms show ?thesis
    by (simp add: SAdd_def putSet_def storedSet_def writableHash_def Let_def)
qed

lemma SRem_eq:
  assumes wf: "kv_wf crc kv" and nt: "storedSet crc kv k \<noteq> NilMap"
    and s: "removeMembers ms (storedSet crc kv k) = (s, n)"
  shows "SRem crc kv k ms = putSet crc kv k (setCell crc kv k) s (int n)"
proof (cases "clusterEnabled kv")
  case True
  with nt obtain v where "shard_get crc kv k = Some v" "vType v = SetType"
    by (auto simp: storedSet_def shardValue_eq split: option.splits if_splits)
  with True s show ?thesis
    by (simp add: SRem_def putSet_def setCell_def shardValue_eq storedSet_def putShard_present)
next
  case False
  with nt s show ?thesis by (simp add: SRem_def putSet_def storedSet_def)
qed

lemma SRem_absent: "storedSet crc kv k = NilMap \<Longrightarrow> kv_wf crc kv \<Longrightarrow> SRem crc kv k ms = Some (kv, 0)"
proof -
  assume *: "storedSet crc kv k = NilMap" "kv_wf crc kv"
  have "removeMembers ms NilMap = (NilMap, 0)" for ms :: "string list"
    unfolding removeMembers_def by (induction ms) auto
  moreover have "clusterEnabled kv \<Longrightarrow> shard_get crc kv k = Some v \<Longrightarrow> vType v \<noteq> SetType" for v
    using * kv_wf_value [of crc kv k v]
    by (auto simp: storedSet_def shardValue_eq value_wf_def inner_wf_def len_def)
  ultimately show ?thesis using *(1)
    by (auto simp: SRem_def storedSet_def shardValue_eq split: option.splits prod.splits)
qed


lemma HDel_result:
  assumes wf: "kv_wf crc kv"
  shows "kv_result crc kv (HDel crc kv k flds)
     (let h = hash_or_empty (absKV crc kv) k
      in if h = Map.empty then absKV crc kv else spec_hash k (h |` (- set flds)) (absKV crc kv))
     (int (card (set flds \<inter> dom (hash_or_empty (absKV crc kv) k))))"
proof (rule storedHash_cases [OF wf, of k])
  assume *: "storedHash crc kv k = NilMap"
  then have "hash_or_empty (absKV crc kv) k = Map.empty" using storedHash_abs [of crc kv k] by simp
  with * show ?thesis using HDel_absent [of crc kv k flds] wf by auto
next
  assume *: "storedHash crc kv k \<noteq> NilMap" "len (storedHash crc kv k) \<noteq> 0"
  obtain h n where h: "removeFields flds (storedHash crc kv k) = (h, n)" by force
  have "gm_wf h \<and> lookup h = hash_or_empty (absKV crc kv) k |` (- set flds)
      \<and> n = card (set flds \<inter> dom (hash_or_empty (absKV crc kv) k))"
    using gm.del_loop_spec [OF storedHash_wf(1) [OF wf, of k] h [unfolded removeFields_def]]
    by (simp add: storedHash_abs)
  moreover have "hash_or_empty (absKV crc kv) k \<noteq> Map.empty"
    using *(2) by (simp add: len_eq_0 storedHash_abs)
  ultimately show ?thesis
    using HDel_eq [OF wf *(1) h] cell_type(1) [OF _ hash_not_wrong_type [OF *(1)]]
      putHash_result [OF wf hash_not_wrong_type [OF *(1)], of h "hashCell crc kv k" "int n"] by simp
qed

lemma SAdd_result:
  assumes wf: "kv_wf crc kv" and nt: "\<not> wrong_type (clusterEnabled kv) SetType (absKV crc kv) k" and ms: "ms \<noteq> []"
  shows "kv_result crc kv (SAdd crc kv k ms)
     (spec_sset k (set_or_empty (absKV crc kv) k \<union> set ms) (absKV crc kv))
     (int (card (set ms - set_or_empty (absKV crc kv) k)))"
proof -
  obtain s where s: "addMembers ms (writableHash (storedSet crc kv k))
      = Some (s, card (set ms - set_or_empty (absKV crc kv) k))" "gm_wf s"
    "lookup s = (\<lambda>m. if lookup (storedSet crc kv k) m = None \<and> m \<in> set ms then Some () else lookup (storedSet crc kv k) m)"
    using gm.add_loop_spec [of "writableHash (storedSet crc kv k)" "()" ms 0, unfolded writableHash_simps] storedSet_wf(1) [OF wf, of k]
    by (auto simp: addMembers_def storedSet_abs)
  have dom: "dom (lookup s) = set_or_empty (absKV crc kv) k \<union> set ms"
    by (auto simp: s(3) storedSet_abs [symmetric] split: if_splits)
  then have "len s \<noteq> 0" using ms by (auto simp: len_eq_0)
  then show ?thesis
    using SAdd_eq [OF wf nt ms s(1)] putSet_result [OF wf nt s(2), of "setCell crc kv k"] cell_type(2) [OF _ nt] dom
    by simp
qed

lemma SRem_result:
  assumes wf: "kv_wf crc kv"
  shows "kv_result crc kv (SRem crc kv k ms)
     (let s = set_or_empty (absKV crc kv) k
      in if s = {} then absKV crc kv else spec_sset k (s - set ms) (absKV crc kv))
     (int (card (set ms \<inter> set_or_empty (absKV crc kv) k)))"
proof (cases "storedSet crc kv k = NilMap")
  case True
  then have "set_or_empty (absKV crc kv) k = {}" using storedSet_abs [of crc kv k] by simp
  with True show ?thesis using SRem_absent [of crc kv k ms] wf by auto
next
  case False
  obtain s n where s: "removeMembers ms (storedSet crc kv k) = (s, n)" by force
  have "gm_wf s \<and> dom (lookup s) = set_or_empty (absKV crc kv) k - set ms
      \<and> n = card (set ms \<inter> set_or_empty (absKV crc kv) k)"
    using gm.del_loop_spec [OF storedSet_wf(1) [OF wf, of k] s [unfolded removeMembers_def]]
    by (auto simp: storedSet_abs [symmetric])
  moreover have "set_or_empty (absKV crc kv) k \<noteq> {}"
    using False storedSet_wf(2) [OF wf, of k] by (simp add: len_eq_0 storedSet_abs [symmetric])
  ultimately show ?thesis
    using SRem_eq [OF wf False s] cell_type(2) [OF _ set_not_wrong_type [OF False]]
      putSet_result [OF wf set_not_wrong_type [OF False], of s "setCell crc kv k" "int n"] by (simp add: Let_def)
qed

lemma sort_keys: "gm_wf m \<Longrightarrow> sort (keys m) = sorted_list_of_set (dom (lookup m))" for m :: "(string, 'v) gomap"
  by (simp add: gm_wf_def set_keys [symmetric] sorted_list_of_set_sort_remdups distinct_remdups_id)

section \<open>Properties\<close>

text \<open>HMSET, and HSET as its case of one field, override the named fields of the hash and keep the
  others; an empty field map changes nothing, and neither does, in cluster mode, a key of another type.\<close>

theorem HMSet_refines:
  assumes "kv_wf crc kv" "gm_wf flds"
  shows "let ks = absKV crc kv
     in (if len flds = 0 \<or> wrong_type (clusterEnabled kv) HashType ks k then HMSet crc kv k flds = Some (kv, ())
         else kv_result crc kv (HMSet crc kv k flds) (spec_hash k (hash_or_empty ks k ++ lookup flds) ks) ())
      \<and> (\<not> wrong_type (clusterEnabled kv) HashType ks k \<longrightarrow>
           kv_result crc kv (HSet crc kv k f x) (spec_hash k ((hash_or_empty ks k)(f \<mapsto> x)) ks) ())"
proof -
  have "wrong_type (clusterEnabled kv) HashType (absKV crc kv) k \<Longrightarrow> HMSet crc kv k flds = Some (kv, ())"
    by (auto simp: wrong_type_absKV HMSet_def shardValue_eq)
  moreover have "len flds = 0 \<Longrightarrow> HMSet crc kv k flds = Some (kv, ())" by (simp add: HMSet_def)
  moreover have "\<not> wrong_type (clusterEnabled kv) HashType (absKV crc kv) k \<Longrightarrow>
      kv_result crc kv (HSet crc kv k f x) (spec_hash k ((hash_or_empty (absKV crc kv) k)(f \<mapsto> x)) (absKV crc kv)) ()"
    using HMSet_result [OF assms(1), of k "GoMap [(f, x)]"]
    by (simp add: HSet_def len_def gm_wf_def keys_def lookup_eq_map_of)
  ultimately show ?thesis using HMSet_result [OF assms(1) _ _ assms(2), of k] by (auto simp: Let_def)
qed

theorem HMSet_refines_witness:
  "kv_result (\<lambda>_. 7) (NewKVStore [True]) (HMSet (\<lambda>_. 7) (NewKVStore [True]) ''h'' (GoMap [(''f'', ''1''), (''g'', ''2'')]))
     (spec_hash ''h'' [''f'' \<mapsto> ''1'', ''g'' \<mapsto> ''2''] ks_empty) ()"
  using HMSet_refines [of "\<lambda>_. 7" "NewKVStore [True]" "GoMap [(''f'', ''1''), (''g'', ''2'')]" "''h''", OF NewKVStore_wf]
  by (simp add: gm_wf_def keys_def len_def hash_or_empty_def lookup_eq_map_of fun_upd_twist)

text \<open>HDEL removes the named fields, answers how many different ones were there and drops the key with
  its last field; on an absent hash, or a key of another type, it answers 0 and changes nothing.\<close>

theorem HDel_refines:
  assumes "kv_wf crc kv"
  shows "let ks = absKV crc kv; h = hash_or_empty ks k
     in kv_result crc kv (HDel crc kv k flds)
          (if h = Map.empty then ks else spec_hash k (h |` (- set flds)) ks) (int (card (set flds \<inter> dom h)))"
  using HDel_result [OF assms, of k flds] by (simp add: Let_def)

theorem HDel_refines_witness:
  "\<exists>kv. HSet (\<lambda>_. 7) (NewKVStore []) ''h'' ''f'' ''1'' = Some (kv, ())
     \<and> kv_result (\<lambda>_. 7) kv (HDel (\<lambda>_. 7) kv ''h'' [''f'', ''f'', ''x'']) ks_empty 1"
proof -
  obtain kv where kv: "HSet (\<lambda>_. 7) (NewKVStore []) ''h'' ''f'' ''1'' = Some (kv, ())" "kv_wf (\<lambda>_. 7) kv"
      "absKV (\<lambda>_. 7) kv = spec_hash ''h'' [''f'' \<mapsto> ''1''] ks_empty"
    using HMSet_result [of "\<lambda>_. 7" "NewKVStore []" "''h''" "GoMap [(''f'', ''1'')]", OF NewKVStore_wf]
    by (auto simp: HSet_def kv_result_def len_def gm_wf_def keys_def lookup_eq_map_of hash_or_empty_def)
  moreover have "[''f'' \<mapsto> ''1''] |` (- {''f'', ''x''}) = Map.empty"
    by (auto simp: restrict_map_def)
  ultimately show ?thesis
    using HDel_refines [OF kv(2), of "''h''" "[''f'', ''f'', ''x'']"]
    by (simp add: hash_or_empty_def spec_hash_def ks_empty_def)
qed

text \<open>HGET and HMGET answer the field of the hash, and HGETALL answers every field with its value,
  the fields in ascending byte order, whatever order the map is iterated in.\<close>

theorem hash_reads:
  assumes "kv_wf crc kv"
  shows "let h = hash_or_empty (absKV crc kv) k
     in HGet crc kv k f = (case h f of None \<Rightarrow> ([], False) | Some x \<Rightarrow> (x, True))
      \<and> HMGet crc kv k flds = map h flds
      \<and> HGetAll crc kv k = concat (map (\<lambda>f. [f, the (h f)]) (sorted_list_of_set (dom h)))"
proof -
  have "HGet crc kv k f = comma_ok (storedHash crc kv k) f []"
    by (auto simp: HGet_def storedHash_def shardValue_eq comma_ok_def split: option.splits)
  moreover have "HGetAll crc kv k
      = concat (map (\<lambda>f. [f, the (lookup (storedHash crc kv k) f)]) (sort (keys (storedHash crc kv k))))"
    unfolding HGetAll_def Let_def
    by (rule arg_cong [where f = concat]) (auto simp: comma_ok_def set_keys split: option.splits)
  ultimately show ?thesis
    by (simp add: HMGet_def Let_def sort_keys [OF storedHash_wf(1) [OF assms]] storedHash_abs comma_ok_def)
qed

theorem hash_reads_witness:
  "\<exists>kv. HMSet (\<lambda>_. 7) (NewKVStore []) ''h'' (GoMap [(''g'', ''2''), (''f'', ''1'')]) = Some (kv, ())
     \<and> HGetAll (\<lambda>_. 7) kv ''h'' = [''f'', ''1'', ''g'', ''2''] \<and> HGet (\<lambda>_. 7) kv ''h'' ''f'' = (''1'', True)
     \<and> HMGet (\<lambda>_. 7) kv ''h'' [''g'', ''x''] = [Some ''2'', None]"
proof -
  obtain kv where kv: "HMSet (\<lambda>_. 7) (NewKVStore []) ''h'' (GoMap [(''g'', ''2''), (''f'', ''1'')]) = Some (kv, ())"
      "kv_wf (\<lambda>_. 7) kv" "absKV (\<lambda>_. 7) kv = spec_hash ''h'' [''g'' \<mapsto> ''2'', ''f'' \<mapsto> ''1''] ks_empty"
    using HMSet_result [of "\<lambda>_. 7" "NewKVStore []" "''h''" "GoMap [(''g'', ''2''), (''f'', ''1'')]", OF NewKVStore_wf]
    by (auto simp: kv_result_def len_def gm_wf_def keys_def lookup_eq_map_of hash_or_empty_def fun_upd_twist)
  have "hash_or_empty (absKV (\<lambda>_. 7) kv) ''h'' = [''g'' \<mapsto> ''2'', ''f'' \<mapsto> ''1'']"
    by (simp add: kv(3) hash_or_empty_def spec_hash_def)
  moreover have "sorted_list_of_set {''f'', ''g''} = [''f'', ''g'']"
    by (simp add: less_eq_char_def)
  ultimately show ?thesis
    using kv(1) hash_reads [OF kv(2), of "''h''" "''f''" "[''g'', ''x'']"] by simp
qed

text \<open>SADD and SREM are union and difference on the set of the key, and answer how many members
  they really added or removed; a set that becomes empty disappears; on a key of another type, in
  cluster mode, both answer 0 and change nothing.\<close>

theorem set_writes_refine:
  assumes "kv_wf crc kv"
  shows "let ks = absKV crc kv; s = set_or_empty ks k
     in (if ms = [] \<or> wrong_type (clusterEnabled kv) SetType ks k then SAdd crc kv k ms = Some (kv, 0)
         else kv_result crc kv (SAdd crc kv k ms) (spec_sset k (s \<union> set ms) ks) (int (card (set ms - s))))
      \<and> kv_result crc kv (SRem crc kv k ms)
          (if s = {} then ks else spec_sset k (s - set ms) ks) (int (card (set ms \<inter> s)))"
proof -
  have "wrong_type (clusterEnabled kv) SetType (absKV crc kv) k \<Longrightarrow> SAdd crc kv k ms = Some (kv, 0)"
    by (auto simp: wrong_type_absKV SAdd_def shardValue_eq)
  moreover have "ms = [] \<Longrightarrow> SAdd crc kv k ms = Some (kv, 0)"
    by (auto simp: SAdd_def split: prod.splits)
  ultimately show ?thesis
    using SAdd_result [OF assms, of k ms] SRem_result [OF assms, of k ms] by (auto simp: Let_def)
qed

theorem set_writes_refine_witness:
  "kv_result (\<lambda>_. 7) (NewKVStore [True]) (SAdd (\<lambda>_. 7) (NewKVStore [True]) ''s'' [''a'', ''b'', ''a''])
     (spec_sset ''s'' {''a'', ''b''} ks_empty) 2"
  using set_writes_refine [of "\<lambda>_. 7" "NewKVStore [True]" "''s''" "[''a'', ''b'', ''a'']", OF NewKVStore_wf]
  by (simp add: set_or_empty_def Let_def insert_commute)

text \<open>SMEMBERS answers the members of the set once each in ascending byte order, whatever order the
  map is iterated in, and SISMEMBER decides membership.\<close>

theorem set_reads:
  assumes "kv_wf crc kv"
  shows "SMembers crc kv k = sorted_list_of_set (set_or_empty (absKV crc kv) k)
     \<and> (SIsMember crc kv k m \<longleftrightarrow> m \<in> set_or_empty (absKV crc kv) k)"
proof -
  have "SIsMember crc kv k m \<longleftrightarrow> lookup (storedSet crc kv k) m \<noteq> None"
    by (auto simp: SIsMember_def storedSet_def shardValue_eq comma_ok_def split: option.splits)
  then show ?thesis
    by (auto simp: SMembers_def sort_keys [OF storedSet_wf(1) [OF assms]] storedSet_abs [symmetric])
qed

theorem set_reads_witness:
  "\<exists>kv. SAdd (\<lambda>_. 7) (NewKVStore []) ''s'' [''b'', ''a''] = Some (kv, 2)
     \<and> SMembers (\<lambda>_. 7) kv ''s'' = [''a'', ''b''] \<and> \<not> SIsMember (\<lambda>_. 7) kv ''s'' ''c''"
proof -
  obtain kv where kv: "SAdd (\<lambda>_. 7) (NewKVStore []) ''s'' [''b'', ''a''] = Some (kv, 2)" "kv_wf (\<lambda>_. 7) kv"
      "absKV (\<lambda>_. 7) kv = spec_sset ''s'' {''a'', ''b''} ks_empty"
    using SAdd_result [of "\<lambda>_. 7" "NewKVStore []" "''s''" "[''b'', ''a'']", OF NewKVStore_wf]
    by (auto simp: kv_result_def set_or_empty_def insert_commute)
  have "set_or_empty (absKV (\<lambda>_. 7) kv) ''s'' = {''a'', ''b''}"
    by (simp add: kv(3) set_or_empty_def spec_sset_def)
  moreover have "sorted_list_of_set {''a'', ''b''} = [''a'', ''b'']" by (simp add: less_eq_char_def)
  ultimately show ?thesis
    using kv(1) set_reads [OF kv(2), of "''s''" "''c''"] by simp
qed

end
