(* ===== verification/KV_Lists.thy ===== *)
theory KV_Lists
  imports KV_Abs
begin

text \<open>
  \<^verbatim>\<open>utils/kvstore/lists.go\<close>: pushes, pops, ranges and the length of a list, each with the abstract step
  it refines. Go slices are values here: the store never hands a slice out (\<^verbatim>\<open>LRange\<close> copies), so no
  alias of a stored slice exists. A pop answers the pair \<^verbatim>\<open>(value, ok)\<close>.
\<close>

section \<open>Operations\<close>

definition listValue :: "string list \<Rightarrow> Value" where
  "listValue l = zeroValue\<lparr>vType := ListType, vList := l\<rparr>"

definition prepend :: "string list \<Rightarrow> string list \<Rightarrow> string list" where
  "prepend list values = values @ list"

definition LPush :: "crc16 \<Rightarrow> KVStore \<Rightarrow> string \<Rightarrow> string list \<Rightarrow> int kvop" where
  "LPush crc kv key values =
     (if clusterEnabled kv then
        (let (v, ok) = shardValue crc kv key
         in if ok \<and> vType v \<noteq> ListType then Some (kv, 0)
            else if values = [] then Some (kv, int (length (vList v)))
            else do { kv' \<leftarrow> putEnsured crc kv key (listValue (prepend (vList v) values));
                      Some (kv', int (length (vList v)) + int (length values)) })
      else
        (let list = fst (comma_ok (Lists kv) key [])
         in if values = [] then Some (kv, int (length list))
            else do { m \<leftarrow> assign (Lists kv) key (prepend list values);
                      Some (kv\<lparr>Lists := m\<rparr>, int (length list) + int (length values)) }))"

definition RPush :: "crc16 \<Rightarrow> KVStore \<Rightarrow> string \<Rightarrow> string list \<Rightarrow> int kvop" where
  "RPush crc kv key values =
     (if clusterEnabled kv then
        (let (v, ok) = shardValue crc kv key
         in if ok \<and> vType v \<noteq> ListType then Some (kv, 0)
            else if values = [] then Some (kv, int (length (vList v)))
            else do { kv' \<leftarrow> putEnsured crc kv key (listValue (vList v @ values));
                      Some (kv', int (length (vList v)) + int (length values)) })
      else
        (let list = fst (comma_ok (Lists kv) key [])
         in if values = [] then Some (kv, int (length list))
            else let list' = list @ values
                 in do { m \<leftarrow> assign (Lists kv) key list'; Some (kv\<lparr>Lists := m\<rparr>, int (length list')) }))"

definition LPop :: "crc16 \<Rightarrow> KVStore \<Rightarrow> string \<Rightarrow> (string \<times> bool) kvop" where
  "LPop crc kv key =
     (if clusterEnabled kv then
        (let (v, ok) = shardValue crc kv key
         in if \<not> ok \<or> vType v \<noteq> ListType \<or> length (vList v) = 0 then Some (kv, [], False)
            else let result = vList v ! 0
                 in if length (vList v) = 1 then Some (delShard crc kv key, result, True)
                    else do { kv' \<leftarrow> putShard crc kv key (v\<lparr>vList := drop 1 (vList v)\<rparr>);
                              Some (kv', result, True) })
      else
        (let list = fst (comma_ok (Lists kv) key [])
         in if length list = 0 then Some (kv, [], False)
            else let result = list ! 0
                 in if length list = 1 then Some (kv\<lparr>Lists := remove (Lists kv) key\<rparr>, result, True)
                    else do { m \<leftarrow> assign (Lists kv) key (drop 1 list);
                              Some (kv\<lparr>Lists := m\<rparr>, result, True) }))"

definition RPop :: "crc16 \<Rightarrow> KVStore \<Rightarrow> string \<Rightarrow> (string \<times> bool) kvop" where
  "RPop crc kv key =
     (if clusterEnabled kv then
        (let (v, ok) = shardValue crc kv key
         in if \<not> ok \<or> vType v \<noteq> ListType \<or> length (vList v) = 0 then Some (kv, [], False)
            else let i = length (vList v) - 1; result = vList v ! i
                 in if i = 0 then Some (delShard crc kv key, result, True)
                    else do { kv' \<leftarrow> putShard crc kv key (v\<lparr>vList := take i (vList v)\<rparr>);
                              Some (kv', result, True) })
      else
        (let list = fst (comma_ok (Lists kv) key [])
         in if length list = 0 then Some (kv, [], False)
            else let i = length list - 1; result = list ! i
                 in if i = 0 then Some (kv\<lparr>Lists := remove (Lists kv) key\<rparr>, result, True)
                    else do { m \<leftarrow> assign (Lists kv) key (take i list);
                              Some (kv\<lparr>Lists := m\<rparr>, result, True) }))"

text \<open>Negative indices count from the end; the result says whether the range is non-empty. No sum
  overflows: a negative index is added to a length.\<close>

definition rangeBounds :: "int \<Rightarrow> int \<Rightarrow> int \<Rightarrow> int \<times> int \<times> bool" where
  "rangeBounds n start end =
     (let start1 = (if start < 0 then start + n else start);
          end1 = (if end < 0 then end + n else end);
          start2 = (if start1 < 0 then 0 else start1);
          end2 = (if end1 \<ge> n then n - 1 else end1)
      in if start2 > end2 \<or> start2 \<ge> n \<or> end2 < 0 then (0, 0, False) else (start2, end2, True))"

text \<open>The Go slice expression \<^verbatim>\<open>xs[lo:hi]\<close> for bounds in range.\<close>

definition slice :: "'a list \<Rightarrow> int \<Rightarrow> int \<Rightarrow> 'a list" where
  "slice xs lo hi = drop (nat lo) (take (nat hi) xs)"

definition storedList :: "crc16 \<Rightarrow> KVStore \<Rightarrow> string \<Rightarrow> string list" where
  "storedList crc kv key =
     (if clusterEnabled kv then
        (let (v, ok) = shardValue crc kv key in if ok \<and> vType v = ListType then vList v else [])
      else fst (comma_ok (Lists kv) key []))"

definition LRange :: "crc16 \<Rightarrow> KVStore \<Rightarrow> string \<Rightarrow> int \<Rightarrow> int \<Rightarrow> string list" where
  "LRange crc kv key start end =
     (let list = storedList crc kv key;
          (start', end', ok) = rangeBounds (int (length list)) start end
      in if \<not> ok then [] else slice list start' (end' + 1))"

definition LLen :: "crc16 \<Rightarrow> KVStore \<Rightarrow> string \<Rightarrow> int" where
  "LLen crc kv key =
     (if clusterEnabled kv then
        (let (v, ok) = shardValue crc kv key
         in if ok \<and> vType v = ListType then int (length (vList v)) else 0)
      else int (length (fst (comma_ok (Lists kv) key []))))"

section \<open>Specifications\<close>

definition list_or_empty :: "KeySpace \<Rightarrow> string \<Rightarrow> string list" where
  "list_or_empty ks k = (case ks_list ks k of None \<Rightarrow> [] | Some l \<Rightarrow> l)"

text \<open>The key holds the list \<open>l\<close>, or nothing when \<open>l\<close> is empty.\<close>

definition spec_list :: "string \<Rightarrow> string list \<Rightarrow> KeySpace \<Rightarrow> KeySpace" where
  "spec_list k l ks = ks\<lparr>ks_list := (ks_list ks)(k := (if l = [] then None else Some l))\<rparr>"

lemma storedList_abs: "storedList crc kv k = list_or_empty (absKV crc kv) k"
  by (auto simp: storedList_def list_or_empty_def shardValue_eq comma_ok_def split: option.splits)

lemma LLen_abs: "LLen crc kv k = int (length (list_or_empty (absKV crc kv) k))"
  by (auto simp: LLen_def list_or_empty_def shardValue_eq comma_ok_def split: option.splits)

text \<open>Writing and deleting a list cell, in both modes.\<close>

definition putList :: "crc16 \<Rightarrow> KVStore \<Rightarrow> string \<Rightarrow> string list \<Rightarrow> 'r \<Rightarrow> 'r kvop" where
  "putList crc kv k l r =
     (if l = [] then
        Some (if clusterEnabled kv then delShard crc kv k else kv\<lparr>Lists := remove (Lists kv) k\<rparr>, r)
      else if clusterEnabled kv then do { kv' \<leftarrow> putEnsured crc kv k (listValue l); Some (kv', r) }
      else do { m \<leftarrow> assign (Lists kv) k l; Some (kv\<lparr>Lists := m\<rparr>, r) })"

lemma value_wf_list [simp]: "value_wf (listValue l) \<longleftrightarrow> l \<noteq> []"
  by (simp add: value_wf_def listValue_def)

lemma listValue_simps [simp]: "vType (listValue l) = ListType" "vList (listValue l) = l"
  by (simp_all add: listValue_def)

lemma putList_result:
  assumes wf: "kv_wf crc kv" and nt: "\<not> wrong_type (clusterEnabled kv) ListType (absKV crc kv) k"
  shows "kv_result crc kv (putList crc kv k l r) (spec_list k l (absKV crc kv)) r"
proof (cases "clusterEnabled kv")
  case True
  with nt have nt': "\<not> wrong_type True ListType (absKV crc kv) k" by simp
  show ?thesis
  proof (cases "l = []")
    case l: True
    show ?thesis
      using kv_result_del [OF wf True refl, of k r] True l
      by (simp add: putList_def spec_list_def ks_clear_typed(1) [OF nt'])
  next
    case False
    have "ks_store k (listValue l) (absKV crc kv) = spec_list k l (absKV crc kv)"
      using ks_store_typed(1) [of "listValue l"] nt' False by (simp add: spec_list_def)
    with True False wf show ?thesis by (simp add: putList_def kv_result_put)
  qed
next
  case False
  show ?thesis
  proof (cases "l = []")
    case l: True
    with False wf show ?thesis
      by (simp add: putList_def spec_list_def kv_result_maps map_wf_remove kv_wf_maps)
  next
    case l: False
    obtain m where "assign (Lists kv) k l = Some m" "map_wf (\<lambda>l. l \<noteq> []) m" "lookup m = (lookup (Lists kv))(k \<mapsto> l)"
      using assignE [OF kv_wf_maps(2) [OF wf] l] by blast
    with False l wf show ?thesis by (simp add: putList_def spec_list_def kv_result_maps)
  qed
qed

text \<open>In cluster mode a list value of any provenance may be stored.\<close>

lemma putShard_list_result:
  assumes "kv_wf crc kv" "clusterEnabled kv" "shard_get crc kv k = Some v" "vType v = ListType" "l \<noteq> []"
  shows "kv_result crc kv (do { kv' \<leftarrow> putShard crc kv k (v\<lparr>vList := l\<rparr>); Some (kv', r) })
     (spec_list k l (absKV crc kv)) r"
proof -
  have "\<not> wrong_type True ListType (absKV crc kv) k"
    using assms(2-4) by (simp add: wrong_type_cluster)
  then have "ks_store k (v\<lparr>vList := l\<rparr>) (absKV crc kv) = spec_list k l (absKV crc kv)"
    using ks_store_typed(1) [of "v\<lparr>vList := l\<rparr>"] assms(4,5) by (simp add: spec_list_def)
  moreover have "putShard crc kv k (v\<lparr>vList := l\<rparr>) = putEnsured crc kv k (v\<lparr>vList := l\<rparr>)"
    using assms(3) by (simp add: putShard_present)
  ultimately show ?thesis
    using kv_result_put [of crc kv "v\<lparr>vList := l\<rparr>" _ k r] assms by (simp add: value_wf_def)
qed

lemma LPush_eq:
  "LPush crc kv k vs =
     (let l = list_or_empty (absKV crc kv) k
      in if wrong_type (clusterEnabled kv) ListType (absKV crc kv) k then Some (kv, 0)
         else if vs = [] then Some (kv, int (length l))
         else putList crc kv k (vs @ l) (int (length l) + int (length vs)))"
proof (cases "clusterEnabled kv")
  case True
  then show ?thesis
    by (cases "shard_get crc kv k")
      (auto simp: LPush_def putList_def shardValue_eq wrong_type_cluster list_or_empty_def zeroValue_def
        prepend_def Let_def)
next
  case False
  then show ?thesis
    by (cases "lookup (Lists kv) k") (auto simp: LPush_def putList_def comma_ok_def list_or_empty_def prepend_def)
qed

lemma RPush_eq:
  "RPush crc kv k vs =
     (let l = list_or_empty (absKV crc kv) k
      in if wrong_type (clusterEnabled kv) ListType (absKV crc kv) k then Some (kv, 0)
         else if vs = [] then Some (kv, int (length l))
         else putList crc kv k (l @ vs) (int (length l) + int (length vs)))"
proof (cases "clusterEnabled kv")
  case True
  then show ?thesis
    by (cases "shard_get crc kv k")
      (auto simp: RPush_def putList_def shardValue_eq wrong_type_cluster list_or_empty_def zeroValue_def Let_def)
next
  case False
  then show ?thesis
    by (cases "lookup (Lists kv) k") (auto simp: RPush_def putList_def comma_ok_def list_or_empty_def)
qed

text \<open>A pop that removes \<open>x\<close> and leaves \<open>l'\<close>.\<close>

lemma LPop_result:
  assumes wf: "kv_wf crc kv" and l: "list_or_empty (absKV crc kv) k = x # l'"
  shows "kv_result crc kv (LPop crc kv k) (spec_list k l' (absKV crc kv)) (x, True)"
proof (cases "clusterEnabled kv")
  case True
  with l obtain v where v: "shard_get crc kv k = Some v" "vType v = ListType" "vList v = x # l'"
    by (auto simp: list_or_empty_def typed_eq_Some split: option.splits)
  show ?thesis
  proof (cases "l' = []")
    case l': True
    have "\<not> wrong_type True ListType (absKV crc kv) k"
      using True v by (simp add: wrong_type_cluster)
    then show ?thesis
      using kv_result_del [OF wf True refl, of k "(x, True)"] True v l'
      by (simp add: LPop_def shardValue_eq spec_list_def ks_clear_typed(1))
  next
    case False
    then show ?thesis
      using putShard_list_result [OF wf True v(1,2) False, of "(x, True)"] True v
      by (simp add: LPop_def shardValue_eq)
  qed
next
  case False
  with l have *: "lookup (Lists kv) k = Some (x # l')"
    by (auto simp: list_or_empty_def split: option.splits)
  show ?thesis
  proof (cases "l' = []")
    case l': True
    with False * wf show ?thesis
      by (simp add: LPop_def comma_ok_def spec_list_def kv_result_maps map_wf_remove kv_wf_maps)
  next
    case l': False
    obtain m where "assign (Lists kv) k l' = Some m" "map_wf (\<lambda>l. l \<noteq> []) m" "lookup m = (lookup (Lists kv))(k \<mapsto> l')"
      using assignE [OF kv_wf_maps(2) [OF wf] l'] by blast
    with False * l' wf show ?thesis
      by (simp add: LPop_def comma_ok_def spec_list_def kv_result_maps)
  qed
qed

lemma RPop_result:
  assumes wf: "kv_wf crc kv" and l: "list_or_empty (absKV crc kv) k = l' @ [x]"
  shows "kv_result crc kv (RPop crc kv k) (spec_list k l' (absKV crc kv)) (x, True)"
proof (cases "clusterEnabled kv")
  case True
  with l obtain v where v: "shard_get crc kv k = Some v" "vType v = ListType" "vList v = l' @ [x]"
    by (auto simp: list_or_empty_def typed_eq_Some split: option.splits)
  show ?thesis
  proof (cases "l' = []")
    case l': True
    have "\<not> wrong_type True ListType (absKV crc kv) k"
      using True v by (simp add: wrong_type_cluster)
    then show ?thesis
      using kv_result_del [OF wf True refl, of k "(x, True)"] True v l'
      by (simp add: RPop_def shardValue_eq spec_list_def ks_clear_typed(1))
  next
    case False
    then show ?thesis
      using putShard_list_result [OF wf True v(1,2) False, of "(x, True)"] True v
      by (simp add: RPop_def shardValue_eq)
  qed
next
  case False
  with l have *: "lookup (Lists kv) k = Some (l' @ [x])"
    by (auto simp: list_or_empty_def split: option.splits)
  show ?thesis
  proof (cases "l' = []")
    case l': True
    with False * wf show ?thesis
      by (simp add: RPop_def comma_ok_def spec_list_def kv_result_maps map_wf_remove kv_wf_maps)
  next
    case l': False
    obtain m where "assign (Lists kv) k l' = Some m" "map_wf (\<lambda>l. l \<noteq> []) m" "lookup m = (lookup (Lists kv))(k \<mapsto> l')"
      using assignE [OF kv_wf_maps(2) [OF wf] l'] by blast
    with False * l' wf show ?thesis
      by (simp add: RPop_def comma_ok_def spec_list_def kv_result_maps)
  qed
qed

lemma pop_empty:
  assumes "list_or_empty (absKV crc kv) k = []"
  shows "LPop crc kv k = Some (kv, [], False)" "RPop crc kv k = Some (kv, [], False)"
proof -
  have "LPop crc kv k = Some (kv, [], False) \<and> RPop crc kv k = Some (kv, [], False)"
    using assms by (cases "clusterEnabled kv")
      (auto simp: LPop_def RPop_def list_or_empty_def shardValue_eq comma_ok_def split: option.splits if_splits)
  then show "LPop crc kv k = Some (kv, [], False)" "RPop crc kv k = Some (kv, [], False)" by auto
qed

section \<open>Ranges\<close>

text \<open>The index a client means by \<open>i\<close> in a sequence of \<open>n\<close> elements.\<close>

definition norm_index :: "int \<Rightarrow> int \<Rightarrow> int" where
  "norm_index n i = (if i < 0 then i + n else i)"

lemma nths_interval: "nths xs {i. a \<le> i \<and> i < b} = drop a (take b xs)"
proof (induction xs arbitrary: a b)
  case (Cons x xs)
  show ?case
  proof (cases b)
    case (Suc b')
    have "{j. Suc j \<in> {i. a \<le> i \<and> i < b}} = {i. a - 1 \<le> i \<and> i < b'}" using Suc by auto
    with Suc Cons.IH [of "a - 1" b'] show ?thesis by (cases a) (auto simp: nths_Cons)
  qed simp
qed simp

lemma slice_nths: "0 \<le> lo \<Longrightarrow> slice xs lo (hi + 1) = nths xs {i. lo \<le> int i \<and> int i \<le> hi}"
proof -
  assume "0 \<le> lo"
  then have "{i. lo \<le> int i \<and> int i \<le> hi} = {i. nat lo \<le> i \<and> i < nat (hi + 1)}" by auto
  then show ?thesis by (simp add: slice_def nths_interval)
qed

lemma nths_cong_length: "(\<And>i. i < length xs \<Longrightarrow> i \<in> A \<longleftrightarrow> i \<in> B) \<Longrightarrow> nths xs A = nths xs B"
  unfolding nths_def by (rule arg_cong [where f = "map fst"], rule filter_cong) (auto simp: set_zip)

lemma nths_empty_length: "(\<And>i. i < length xs \<Longrightarrow> i \<notin> A) \<Longrightarrow> nths xs A = []"
  using nths_cong_length [of xs A "{}"] by simp

text \<open>The slice between two normalised bounds is the elements whose index lies between them.\<close>

lemma range_nths:
  "(let (lo, hi, ok) = rangeBounds (int (length xs)) a b in if \<not> ok then [] else slice xs lo (hi + 1))
   = nths xs {i. norm_index (int (length xs)) a \<le> int i \<and> int i \<le> norm_index (int (length xs)) b}"
proof (cases "snd (snd (rangeBounds (int (length xs)) a b))")
  case True
  then obtain lo hi where r: "rangeBounds (int (length xs)) a b = (lo, hi, True)" "0 \<le> lo"
    "lo = max 0 (norm_index (int (length xs)) a)" "hi = min (int (length xs) - 1) (norm_index (int (length xs)) b)"
    by (auto simp: rangeBounds_def norm_index_def Let_def split: if_splits)
  have "slice xs lo (hi + 1) = nths xs {i. lo \<le> int i \<and> int i \<le> hi}"
    by (rule slice_nths [OF r(2)])
  also have "\<dots> = nths xs {i. norm_index (int (length xs)) a \<le> int i \<and> int i \<le> norm_index (int (length xs)) b}"
    by (rule nths_cong_length) (auto simp: r(3,4))
  finally show ?thesis by (simp add: r(1))
next
  case False
  then have "i \<notin> {i. norm_index (int (length xs)) a \<le> int i \<and> int i \<le> norm_index (int (length xs)) b}"
    if "i < length xs" for i
    using that by (auto simp: rangeBounds_def norm_index_def Let_def split: if_splits)
  then have "nths xs {i. norm_index (int (length xs)) a \<le> int i \<and> int i \<le> norm_index (int (length xs)) b} = []"
    by (rule nths_empty_length)
  with False show ?thesis by (auto split: prod.splits)
qed

lemma rangeBounds_in_range:
  "rangeBounds n a b = (lo, hi, True) \<Longrightarrow> 0 \<le> lo \<and> lo \<le> hi \<and> hi < n"
  by (auto simp: rangeBounds_def Let_def split: if_splits)

section \<open>Properties\<close>

text \<open>LPUSH and RPUSH put their values, in the order given, before or after the list of the key and
  answer its new length; without values they only answer the length; on a key of another type in
  cluster mode they change nothing and answer 0.\<close>

theorem push_refines:
  assumes "kv_wf crc kv"
  shows "let l = list_or_empty (absKV crc kv) k; n = int (length l) + int (length vs)
     in if wrong_type (clusterEnabled kv) ListType (absKV crc kv) k
        then LPush crc kv k vs = Some (kv, 0) \<and> RPush crc kv k vs = Some (kv, 0)
        else if vs = [] then LPush crc kv k vs = Some (kv, n) \<and> RPush crc kv k vs = Some (kv, n)
        else kv_result crc kv (LPush crc kv k vs) (spec_list k (vs @ l) (absKV crc kv)) n
          \<and> kv_result crc kv (RPush crc kv k vs) (spec_list k (l @ vs) (absKV crc kv)) n"
  by (simp add: Let_def LPush_eq RPush_eq putList_result [OF assms])

theorem push_refines_witness:
  "kv_result (\<lambda>_. 7) (NewKVStore []) (LPush (\<lambda>_. 7) (NewKVStore []) ''list'' [''c'', ''b'', ''a''])
     (spec_list ''list'' [''c'', ''b'', ''a''] ks_empty) 3"
  using push_refines [of "\<lambda>_. 7" "NewKVStore []" "''list''" "[''c'', ''b'', ''a'']", OF NewKVStore_wf]
  by (simp add: Let_def list_or_empty_def)

text \<open>LPOP and RPOP remove and answer the first and the last element; the key disappears with its
  last element, so no empty list is ever stored; on an absent key, or one of another type, they
  answer that there is none and change nothing.\<close>

theorem pop_refines:
  assumes "kv_wf crc kv"
  shows "let l = list_or_empty (absKV crc kv) k
     in if l = [] then LPop crc kv k = Some (kv, [], False) \<and> RPop crc kv k = Some (kv, [], False)
        else kv_result crc kv (LPop crc kv k) (spec_list k (tl l) (absKV crc kv)) (hd l, True)
          \<and> kv_result crc kv (RPop crc kv k) (spec_list k (butlast l) (absKV crc kv)) (last l, True)"
proof (cases "list_or_empty (absKV crc kv) k = []")
  case True
  then show ?thesis using pop_empty [of crc kv k] by simp
next
  case False
  let ?l = "list_or_empty (absKV crc kv) k"
  have "?l = hd ?l # tl ?l" "?l = butlast ?l @ [last ?l]" using False by simp_all
  from LPop_result [OF assms this(1)] RPop_result [OF assms this(2)] False show ?thesis
    by (simp add: Let_def)
qed

theorem pop_refines_witness:
  "\<exists>kv. LPush (\<lambda>_. 7) (NewKVStore [True]) ''list'' [''c'', ''b'', ''a''] = Some (kv, 3)
     \<and> kv_result (\<lambda>_. 7) kv (LPop (\<lambda>_. 7) kv ''list'') (spec_list ''list'' [''b'', ''a''] (absKV (\<lambda>_. 7) kv)) (''c'', True)"
proof -
  obtain kv where kv: "LPush (\<lambda>_. 7) (NewKVStore [True]) ''list'' [''c'', ''b'', ''a''] = Some (kv, 3)"
      "kv_wf (\<lambda>_. 7) kv" "absKV (\<lambda>_. 7) kv = spec_list ''list'' [''c'', ''b'', ''a''] ks_empty"
    using putList_result [OF NewKVStore_wf, of "[True]" "\<lambda>_. 7" "''list''" "[''c'', ''b'', ''a'']" "3 :: int"]
    by (auto simp: LPush_eq Let_def list_or_empty_def kv_result_def)
  with pop_refines [OF kv(2), of "''list''"] show ?thesis
    by (simp add: Let_def list_or_empty_def spec_list_def)
qed

text \<open>LRANGE answers exactly the elements whose index lies between the two bounds, a negative bound
  counting from the end of the list, whatever integers the client sends; the bounds it computes for
  the slice expression are always inside the list, and LLEN answers the list's length.\<close>

theorem LRange_spec:
  "let l = list_or_empty (absKV crc kv) k; n = int (length l)
   in LRange crc kv k a b = nths l {i. norm_index n a \<le> int i \<and> int i \<le> norm_index n b}
      \<and> LLen crc kv k = n
      \<and> (case rangeBounds n a b of (lo, hi, ok) \<Rightarrow> ok \<longrightarrow> 0 \<le> lo \<and> lo \<le> hi \<and> hi < n)"
  using range_nths [of "list_or_empty (absKV crc kv) k" a b]
  by (auto simp: LRange_def storedList_abs LLen_abs Let_def dest: rangeBounds_in_range split: prod.splits)

theorem LRange_spec_witness:
  "\<exists>kv. RPush (\<lambda>_. 7) (NewKVStore []) ''l'' [''a'', ''b'', ''c''] = Some (kv, 3)
     \<and> LRange (\<lambda>_. 7) kv ''l'' (- 2) 99 = [''b'', ''c''] \<and> LLen (\<lambda>_. 7) kv ''l'' = 3"
proof -
  obtain kv where kv: "RPush (\<lambda>_. 7) (NewKVStore []) ''l'' [''a'', ''b'', ''c''] = Some (kv, 3)"
      "absKV (\<lambda>_. 7) kv = spec_list ''l'' [''a'', ''b'', ''c''] ks_empty"
    using putList_result [OF NewKVStore_wf, of "[]" "\<lambda>_. 7" "''l''" "[''a'', ''b'', ''c'']" "3 :: int"]
    by (auto simp: RPush_eq Let_def list_or_empty_def kv_result_def)
  with LRange_spec [of "\<lambda>_. 7" kv "''l''" "- 2" 99] show ?thesis
    by (auto simp: list_or_empty_def spec_list_def norm_index_def nths_Cons)
qed

end
