(* ===== verification/KV_SortedSets.thy ===== *)
theory KV_SortedSets
  imports KV_Lists
begin

text \<open>
  \<^verbatim>\<open>utils/kvstore/sortedsets.go\<close>. A score is the 64 bits of a \<^verbatim>\<open>float64\<close>, compared as IEEE 754 prescribes
  (\<open>f64_lt\<close>: NaN is unordered, the two zeros are equal). \<^verbatim>\<open>strconv.ParseFloat\<close> is the parameter
  \<open>parseFloat\<close> (\<^const>\<open>None\<close> is its error), so that every statement holds for whatever decimal conversion
  the runtime has. \<^verbatim>\<open>sort.SliceStable\<close> is its insertion sort, which is the whole algorithm up to 20
  elements; on scores without NaN every stable sort gives the same list (\<open>SliceStable_sort_key\<close>).
\<close>

section \<open>Scores\<close>

definition f64_isNaN :: "u64 \<Rightarrow> bool" where
  "f64_isNaN a \<longleftrightarrow> uint (take_bit 63 a) > 0x7FF0000000000000"

definition f64_key :: "u64 \<Rightarrow> int" where
  "f64_key a = (if bit a 63 then - uint (take_bit 63 a) else uint (take_bit 63 a))"

definition f64_lt :: "u64 \<Rightarrow> u64 \<Rightarrow> bool" where
  "f64_lt a b \<longleftrightarrow> \<not> f64_isNaN a \<and> \<not> f64_isNaN b \<and> f64_key a < f64_key b"

text \<open>One pass of the inner loop of the insertion sort, on the reversed sorted prefix.\<close>

fun sink :: "('a \<Rightarrow> 'a \<Rightarrow> bool) \<Rightarrow> 'a \<Rightarrow> 'a list \<Rightarrow> 'a list" where
  "sink lt x [] = [x]"
| "sink lt x (y # ys) = (if lt x y then y # sink lt x ys else x # y # ys)"

definition SliceStable :: "('a \<Rightarrow> 'a \<Rightarrow> bool) \<Rightarrow> 'a list \<Rightarrow> 'a list" where
  "SliceStable lt xs = rev (foldl (\<lambda>prefix x. sink lt x prefix) [] xs)"

section \<open>Operations\<close>

text \<open>The search loop: the first entry of the member gets the score.\<close>

fun setScore :: "string \<Rightarrow> u64 \<Rightarrow> SortedSetMember list \<Rightarrow> SortedSetMember list \<times> bool" where
  "setScore member score [] = ([], False)"
| "setScore member score (e # es) =
     (if Member e = member then (e\<lparr>Score := score\<rparr> # es, True)
      else (let (es', found) = setScore member score es in (e # es', found)))"

fun zaddLoop :: "(string \<times> u64) list \<Rightarrow> SortedSetMember list \<Rightarrow> int \<Rightarrow> SortedSetMember list \<times> int" where
  "zaddLoop [] nxt added = (nxt, added)"
| "zaddLoop ((member, score) # rest) nxt added =
     (let (nxt', found) = setScore member score nxt
      in if \<not> found then zaddLoop rest (nxt' @ [\<lparr>Member = member, Score = score\<rparr>]) (added + 1)
         else zaddLoop rest nxt' added)"

definition scoreLess :: "SortedSetMember \<Rightarrow> SortedSetMember \<Rightarrow> bool" where
  "scoreLess a b \<longleftrightarrow> f64_lt (Score a) (Score b)"

definition zadd :: "SortedSetMember list \<Rightarrow> (string \<times> u64) list \<Rightarrow> SortedSetMember list \<times> int" where
  "zadd current ps = (let (nxt, added) = zaddLoop ps current 0 in (SliceStable scoreLess nxt, added))"

text \<open>The loop that splits \<^verbatim>\<open>score member score member ...\<close>; its length is even when it runs.\<close>

fun parsePairs :: "(string \<Rightarrow> u64 option) \<Rightarrow> string list \<Rightarrow> kvError + (string \<times> u64) list" where
  "parsePairs parseFloat (s # member # rest) =
     (case parseFloat s of
        None \<Rightarrow> Inl ErrZAddScore
      | Some score \<Rightarrow>
          (case parsePairs parseFloat rest of
             Inl e \<Rightarrow> Inl e
           | Inr ps \<Rightarrow> Inr ((member, score) # ps)))"
| "parsePairs parseFloat _ = Inr []"

definition zsetValue :: "SortedSetMember list \<Rightarrow> Value" where
  "zsetValue zs = zeroValue\<lparr>vType := SortedSetType, vSortedSet := zs\<rparr>"

definition ZAdd :: "crc16 \<Rightarrow> (string \<Rightarrow> u64 option) \<Rightarrow> KVStore \<Rightarrow> string \<Rightarrow> string list \<Rightarrow> (kvError + int) kvop" where
  "ZAdd crc parseFloat kv key pairs =
     (if length pairs mod 2 \<noteq> 0 then Some (kv, Inl ErrZAddOdd)
      else case parsePairs parseFloat pairs of
             Inl e \<Rightarrow> Some (kv, Inl e)
           | Inr ps \<Rightarrow>
               (if clusterEnabled kv then
                  (let (v, ok) = shardValue crc kv key
                   in if ok \<and> vType v \<noteq> SortedSetType then Some (kv, Inl ErrWrongType)
                      else let (nxt, added) = zadd (vSortedSet v) ps
                           in do { kv' \<leftarrow> putEnsured crc kv key (zsetValue nxt); Some (kv', Inr added) })
                else let (nxt, added) = zadd (fst (comma_ok (SortedSets kv) key [])) ps
                     in do { m \<leftarrow> assign (SortedSets kv) key nxt; Some (kv\<lparr>SortedSets := m\<rparr>, Inr added) }))"

definition storedZSet :: "crc16 \<Rightarrow> KVStore \<Rightarrow> string \<Rightarrow> SortedSetMember list" where
  "storedZSet crc kv key =
     (if clusterEnabled kv then
        (let (v, ok) = shardValue crc kv key in if ok \<and> vType v = SortedSetType then vSortedSet v else [])
      else fst (comma_ok (SortedSets kv) key []))"

definition ZRange :: "crc16 \<Rightarrow> KVStore \<Rightarrow> string \<Rightarrow> int \<Rightarrow> int \<Rightarrow> string list" where
  "ZRange crc kv key start end =
     (let sortedSet = storedZSet crc kv key;
          (lo, hi, ok) = rangeBounds (int (length sortedSet)) start end
      in if \<not> ok then [] else map Member (slice sortedSet lo (hi + 1)))"

definition zrem :: "SortedSetMember list \<Rightarrow> string list \<Rightarrow> SortedSetMember list \<times> int" where
  "zrem current members =
     (let kept = filter (\<lambda>e. Member e \<notin> set members) current
      in (kept, int (length current) - int (length kept)))"

definition ZRem :: "crc16 \<Rightarrow> KVStore \<Rightarrow> string \<Rightarrow> string list \<Rightarrow> int kvop" where
  "ZRem crc kv key members =
     (if clusterEnabled kv then
        (let (v, ok) = shardValue crc kv key
         in if \<not> ok \<or> vType v \<noteq> SortedSetType then Some (kv, 0)
            else let (kept, removed) = zrem (vSortedSet v) members
                 in if removed = 0 then Some (kv, removed)
                    else if length kept = 0 then Some (delShard crc kv key, removed)
                    else do { kv' \<leftarrow> putShard crc kv key (zsetValue kept); Some (kv', removed) })
      else let (kept, removed) = zrem (fst (comma_ok (SortedSets kv) key [])) members
           in if removed = 0 then Some (kv, removed)
              else if length kept = 0 then Some (kv\<lparr>SortedSets := remove (SortedSets kv) key\<rparr>, removed)
              else do { m \<leftarrow> assign (SortedSets kv) key kept; Some (kv\<lparr>SortedSets := m\<rparr>, removed) })"

section \<open>The sort\<close>

lemma mset_sink: "mset (sink lt x ys) = add_mset x (mset ys)"
  by (induction ys) auto

lemma mset_SliceStable: "mset (SliceStable lt xs) = mset xs"
proof -
  have "mset (foldl (\<lambda>p x. sink lt x p) acc xs) = mset acc + mset xs" for acc
    by (induction xs arbitrary: acc) (auto simp: mset_sink)
  from this [of "[]"] show ?thesis by (simp add: SliceStable_def)
qed

text \<open>An insertion from the right keeps the order of a key and, within one key, the order of arrival.\<close>

lemma sink_sorted:
  assumes "\<forall>z \<in> set (x # ys). \<forall>w \<in> set (x # ys). lt z w \<longleftrightarrow> (f z :: 'b :: linorder) < f w"
  shows "sorted (map f (rev ys)) \<Longrightarrow> sorted (map f (rev (sink lt x ys)))"
    and "filter (\<lambda>y. f y = c) (rev (sink lt x ys)) = filter (\<lambda>y. f y = c) (rev ys @ [x])"
proof -
  have *: "set (rev (sink lt x zs)) = insert x (set zs)" for zs
    using mset_sink [of lt x zs] by (metis list.simps(15) mset.simps(2) mset_eq_setD set_rev)
  show "sorted (map f (rev ys)) \<Longrightarrow> sorted (map f (rev (sink lt x ys)))"
    using assms
  proof (induction ys)
    case (Cons y ys)
    then have IH: "sorted (map f (rev (sink lt x ys)))" by (auto simp: sorted_append)
    have "\<forall>z \<in> set (rev (sink lt x ys)). lt x y \<longrightarrow> f z \<le> f y"
      using Cons.prems unfolding * by (auto simp: sorted_append)
    with IH Cons.prems show ?case by (auto simp: sorted_append not_less)
  qed simp
  show "filter (\<lambda>y. f y = c) (rev (sink lt x ys)) = filter (\<lambda>y. f y = c) (rev ys @ [x])"
    using assms
  proof (induction ys)
    case (Cons y ys)
    then have IH: "filter (\<lambda>y. f y = c) (rev (sink lt x ys)) = filter (\<lambda>y. f y = c) (rev ys @ [x])" by auto
    show ?case
    proof (cases "lt x y")
      case True
      then have "f x < f y" using Cons.prems by auto
      with True IH show ?thesis by auto
    qed simp
  qed simp
qed

lemma SliceStable_sort_key:
  assumes "\<forall>z \<in> set xs. \<forall>w \<in> set xs. lt z w \<longleftrightarrow> (f z :: 'b :: linorder) < f w"
  shows "SliceStable lt xs = sort_key f xs"
proof -
  have "sorted (map f (SliceStable lt xs)) \<and>
      (\<forall>c. filter (\<lambda>y. f y = c) (SliceStable lt xs) = filter (\<lambda>y. f y = c) xs)"
    using assms
  proof (induction xs rule: rev_induct)
    case (snoc x xs)
    let ?p = "foldl (\<lambda>p x. sink lt x p) [] xs"
    have p: "set ?p = set xs" using mset_SliceStable [of lt xs] unfolding SliceStable_def
      by (metis mset_eq_setD set_rev)
    have IH: "sorted (map f (rev ?p))" "\<And>c. filter (\<lambda>y. f y = c) (rev ?p) = filter (\<lambda>y. f y = c) xs"
      using snoc by (simp_all add: SliceStable_def)
    have "\<forall>z \<in> set (x # ?p). \<forall>w \<in> set (x # ?p). lt z w \<longleftrightarrow> f z < f w"
      using snoc.prems p by simp
    note s = sink_sorted [OF this]
    show ?case using s(1) [OF IH(1)] s(2) IH(2) by (simp add: SliceStable_def)
  qed (simp add: SliceStable_def)
  then show ?thesis
    using properties_for_sort_key [OF mset_SliceStable, where f = f] by (simp add: eq_commute)
qed


section \<open>The members as a map\<close>

definition zset_map :: "SortedSetMember list \<Rightarrow> string \<rightharpoonup> u64" where
  "zset_map zs = map_of (map (\<lambda>e. (Member e, Score e)) zs)"

definition NaN_free :: "SortedSetMember list \<Rightarrow> bool" where
  "NaN_free zs \<longleftrightarrow> (\<forall>e \<in> set zs. \<not> f64_isNaN (Score e))"

definition zset_or_empty :: "KeySpace \<Rightarrow> string \<Rightarrow> SortedSetMember list" where
  "zset_or_empty ks k = (case ks_zset ks k of None \<Rightarrow> [] | Some zs \<Rightarrow> zs)"

lemma dom_zset_map: "dom (zset_map zs) = Member ` set zs"
  by (simp add: zset_map_def dom_map_of_conv_image_fst image_image)

lemma setScore_spec:
  assumes "setScore m sc zs = (zs', found)"
  shows "map Member zs' = map Member zs" and "found \<longleftrightarrow> m \<in> Member ` set zs"
    and "zset_map zs' = (if found then (zset_map zs)(m \<mapsto> sc) else zset_map zs)"
    and "NaN_free zs \<Longrightarrow> \<not> f64_isNaN sc \<Longrightarrow> NaN_free zs'"
proof -
  have "map Member zs' = map Member zs \<and> (found \<longleftrightarrow> m \<in> Member ` set zs)
    \<and> zset_map zs' = (if found then (zset_map zs)(m \<mapsto> sc) else zset_map zs)
    \<and> (NaN_free zs \<longrightarrow> \<not> f64_isNaN sc \<longrightarrow> NaN_free zs')"
    using assms
    by (induction zs arbitrary: zs' found)
      (auto simp: zset_map_def NaN_free_def fun_eq_iff split: if_splits prod.splits)
  then show "map Member zs' = map Member zs" "found \<longleftrightarrow> m \<in> Member ` set zs"
    "zset_map zs' = (if found then (zset_map zs)(m \<mapsto> sc) else zset_map zs)"
    "NaN_free zs \<Longrightarrow> \<not> f64_isNaN sc \<Longrightarrow> NaN_free zs'" by auto
qed

lemma zset_map_append1:
  "m \<notin> Member ` set zs \<Longrightarrow> zset_map (zs @ [\<lparr>Member = m, Score = sc\<rparr>]) = (zset_map zs)(m \<mapsto> sc)"
  by (induction zs) (auto simp: zset_map_def fun_eq_iff)

lemma zaddLoop_spec:
  assumes "zaddLoop ps zs n = (zs', n')" "distinct (map Member zs)"
  shows "distinct (map Member zs') \<and> zset_map zs' = zset_map zs ++ map_of (rev ps)
     \<and> n' = n + int (card (fst ` set ps - Member ` set zs))
     \<and> (NaN_free zs \<and> (\<forall>p \<in> set ps. \<not> f64_isNaN (snd p)) \<longrightarrow> NaN_free zs')"
  using assms
proof (induction ps arbitrary: zs n)
  case (Cons p ps)
  obtain m sc where p: "p = (m, sc)" by force
  obtain zs1 found where s: "setScore m sc zs = (zs1, found)" by force
  note spec = setScore_spec [OF s]
  have mem: "Member ` set zs1 = Member ` set zs" using spec(1) by (metis list.set_map)
  show ?case
  proof (cases found)
    case True
    have "zaddLoop ps zs1 n = (zs', n')" using Cons.prems(1) s True p by simp
    from Cons.IH [OF this] Cons.prems(2) spec True mem p show ?thesis
      by (auto simp: insert_Diff_if)
  next
    case False
    let ?zs2 = "zs1 @ [\<lparr>Member = m, Score = sc\<rparr>]"
    have new: "m \<notin> Member ` set zs1" using False spec(2) mem by simp
    have step: "zaddLoop ps ?zs2 (n + 1) = (zs', n')" using Cons.prems(1) s False p by simp
    have dist: "distinct (map Member ?zs2)" using Cons.prems(2) new mem by (simp add: spec(1))
    have "fst ` set (p # ps) - Member ` set zs = insert m (fst ` set ps - Member ` set ?zs2)"
      using new mem p by auto
    then have "card (fst ` set (p # ps) - Member ` set zs) = Suc (card (fst ` set ps - Member ` set ?zs2))"
      by simp
    moreover have "NaN_free zs \<and> (\<forall>p \<in> set (p # ps). \<not> f64_isNaN (snd p)) \<longrightarrow> NaN_free ?zs2"
      using spec(4) p by (auto simp: NaN_free_def)
    moreover have "zset_map ?zs2 ++ map_of (rev ps) = zset_map zs ++ map_of (rev (p # ps))"
      using zset_map_append1 [OF new, of sc] spec(3) False p by simp
    ultimately show ?thesis
      using Cons.IH [OF step dist] by simp
  qed
qed simp

lemma scoreLess_key: "NaN_free zs \<Longrightarrow>
    \<forall>a \<in> set zs. \<forall>b \<in> set zs. scoreLess a b \<longleftrightarrow> f64_key (Score a) < f64_key (Score b)"
  by (simp add: NaN_free_def scoreLess_def f64_lt_def)

lemma distinct_members_perm: "mset xs = mset ys \<Longrightarrow> distinct (map Member xs) = distinct (map Member ys)"
  using mset_eq_imp_distinct_iff [of "map Member xs" "map Member ys"] by simp

lemma zset_map_perm: "mset xs = mset ys \<Longrightarrow> distinct (map Member ys) \<Longrightarrow> zset_map xs = zset_map ys"
proof -
  assume *: "mset xs = mset ys" "distinct (map Member ys)"
  have "distinct (map Member xs)" using * distinct_members_perm by blast
  moreover have "set (map (\<lambda>e. (Member e, Score e)) xs) = set (map (\<lambda>e. (Member e, Score e)) ys)"
    using mset_eq_setD [OF *(1)] by simp
  ultimately show ?thesis
    unfolding zset_map_def using *(2) by (intro map_of_inject_set [THEN iffD2]) (simp_all add: comp_def)
qed

lemma zadd_spec:
  assumes "zadd zs ps = (zs', n)" "distinct (map Member zs)"
  shows "distinct (map Member zs')" "zset_map zs' = zset_map zs ++ map_of (rev ps)"
    "n = int (card (fst ` set ps - Member ` set zs))"
    "NaN_free zs \<Longrightarrow> \<forall>p \<in> set ps. \<not> f64_isNaN (snd p) \<Longrightarrow>
       NaN_free zs' \<and> zs' = sort_key (\<lambda>e. f64_key (Score e)) (fst (zaddLoop ps zs 0))"
proof -
  obtain z1 where z1: "zaddLoop ps zs 0 = (z1, n)" "zs' = SliceStable scoreLess z1"
    using assms(1) by (auto simp: zadd_def split: prod.splits)
  note l = zaddLoop_spec [OF z1(1) assms(2)]
  have m: "mset zs' = mset z1" by (simp add: z1(2) mset_SliceStable)
  show "distinct (map Member zs')" using l distinct_members_perm [OF m] by simp
  show "zset_map zs' = zset_map zs ++ map_of (rev ps)" using l zset_map_perm [OF m] by simp
  show "n = int (card (fst ` set ps - Member ` set zs))" using l by simp
  assume "NaN_free zs" "\<forall>p \<in> set ps. \<not> f64_isNaN (snd p)"
  then have "NaN_free z1" using l by simp
  then show "NaN_free zs' \<and> zs' = sort_key (\<lambda>e. f64_key (Score e)) (fst (zaddLoop ps zs 0))"
    using SliceStable_sort_key [OF scoreLess_key, of z1] m z1
    by (auto simp: NaN_free_def dest: mset_eq_setD)
qed


section \<open>What the operations write\<close>

definition spec_zset :: "string \<Rightarrow> SortedSetMember list \<Rightarrow> KeySpace \<Rightarrow> KeySpace" where
  "spec_zset k zs ks = ks\<lparr>ks_zset := (ks_zset ks)(k := (if zs = [] then None else Some zs))\<rparr>"

definition putZSet :: "crc16 \<Rightarrow> KVStore \<Rightarrow> string \<Rightarrow> SortedSetMember list \<Rightarrow> 'r \<Rightarrow> 'r kvop" where
  "putZSet crc kv k zs r =
     (if zs = [] then
        Some (if clusterEnabled kv then delShard crc kv k else kv\<lparr>SortedSets := remove (SortedSets kv) k\<rparr>, r)
      else if clusterEnabled kv then do { kv' \<leftarrow> putEnsured crc kv k (zsetValue zs); Some (kv', r) }
      else do { m \<leftarrow> assign (SortedSets kv) k zs; Some (kv\<lparr>SortedSets := m\<rparr>, r) })"

lemma zsetValue_simps [simp]: "vType (zsetValue zs) = SortedSetType" "vSortedSet (zsetValue zs) = zs"
  by (simp_all add: zsetValue_def)

lemma putZSet_result:
  assumes wf: "kv_wf crc kv" and nt: "\<not> wrong_type (clusterEnabled kv) SortedSetType (absKV crc kv) k"
    and d: "distinct (map Member zs)"
  shows "kv_result crc kv (putZSet crc kv k zs r) (spec_zset k zs (absKV crc kv)) r"
proof (cases "clusterEnabled kv")
  case True
  then have nt': "\<not> wrong_type True SortedSetType (absKV crc kv) k" using nt by simp
  show ?thesis
  proof (cases "zs = []")
    case l: True
    then show ?thesis
      using kv_result_del [OF wf True refl, of k r] True
      by (simp add: putZSet_def spec_zset_def ks_clear_typed(4) [OF nt'])
  next
    case False
    have "ks_store k (zsetValue zs) (absKV crc kv) = spec_zset k zs (absKV crc kv)"
      using ks_store_typed(4) [of "zsetValue zs"] nt' False by (simp add: spec_zset_def)
    moreover have "value_wf (zsetValue zs)" using False d by (simp add: value_wf_def zset_wf_def)
    ultimately show ?thesis using True False wf by (simp add: putZSet_def kv_result_put)
  qed
next
  case False
  show ?thesis
  proof (cases "zs = []")
    case True
    with False wf show ?thesis
      by (simp add: putZSet_def spec_zset_def kv_result_maps map_wf_remove kv_wf_maps)
  next
    case l: False
    then have "zset_wf zs" using d by (simp add: zset_wf_def)
    then obtain m where "assign (SortedSets kv) k zs = Some m" "map_wf zset_wf m"
      "lookup m = (lookup (SortedSets kv))(k \<mapsto> zs)"
      using assignE [OF kv_wf_maps(5) [OF wf]] by blast
    with False l wf show ?thesis by (simp add: putZSet_def spec_zset_def kv_result_maps)
  qed
qed

lemma storedZSet_abs: "storedZSet crc kv k = zset_or_empty (absKV crc kv) k"
  by (auto simp: storedZSet_def zset_or_empty_def shardValue_eq comma_ok_def split: option.splits)

lemma zset_distinct: "kv_wf crc kv \<Longrightarrow> distinct (map Member (zset_or_empty (absKV crc kv) k))"
  using map_wf_value [OF kv_wf_maps(5), of crc kv k] kv_wf_value [of crc kv k]
  by (cases "clusterEnabled kv")
    (auto simp: zset_or_empty_def typed_eq_Some zset_wf_def value_wf_def split: option.splits)

lemma zadd_not_Nil: "zadd zs ps = (zs', n) \<Longrightarrow> ps \<noteq> [] \<Longrightarrow> distinct (map Member zs) \<Longrightarrow> zs' \<noteq> []"
  using zadd_spec(2) [of zs ps zs' n] by (auto simp: zset_map_def)

lemma ZAdd_eq:
  assumes "even (length pairs)" "parsePairs pf pairs = Inr ps" "ps \<noteq> []" "kv_wf crc kv"
    and nt: "\<not> wrong_type (clusterEnabled kv) SortedSetType (absKV crc kv) k"
    and z: "zadd (zset_or_empty (absKV crc kv) k) ps = (zs', n)"
  shows "ZAdd crc pf kv k pairs = putZSet crc kv k zs' (Inr n)"
proof -
  have ne: "zs' \<noteq> []" using zadd_not_Nil [OF z assms(3) zset_distinct [OF assms(4)]] .
  have "length pairs mod 2 = 0" using assms(1) by presburger
  moreover have "clusterEnabled kv \<Longrightarrow> vSortedSet (fst (shardValue crc kv k)) = zset_or_empty (absKV crc kv) k"
    using nt by (auto simp: zset_or_empty_def shardValue_eq wrong_type_cluster zeroValue_def split: option.splits)
  moreover have "clusterEnabled kv \<Longrightarrow> snd (shardValue crc kv k) \<longrightarrow> vType (fst (shardValue crc kv k)) = SortedSetType"
    using nt by (auto simp: shardValue_eq wrong_type_cluster split: option.splits)
  moreover have "\<not> clusterEnabled kv \<Longrightarrow> fst (comma_ok (SortedSets kv) k []) = zset_or_empty (absKV crc kv) k"
    by (auto simp: zset_or_empty_def comma_ok_def split: option.splits)
  ultimately show ?thesis
    using assms(2) z ne by (cases "clusterEnabled kv") (auto simp: ZAdd_def putZSet_def split: prod.splits)
qed

lemma ZRem_eq:
  assumes "zrem (zset_or_empty (absKV crc kv) k) ms = (kept, n)"
  shows "ZRem crc kv k ms = (if n = 0 then Some (kv, 0) else putZSet crc kv k kept n)"
proof (cases "zset_or_empty (absKV crc kv) k = []")
  case True
  then have "ZRem crc kv k ms = Some (kv, 0)"
    by (cases "clusterEnabled kv")
      (auto simp: ZRem_def zset_or_empty_def shardValue_eq comma_ok_def zrem_def split: option.splits)
  with True assms show ?thesis by (auto simp: zrem_def)
next
  case False
  show ?thesis
  proof (cases "clusterEnabled kv")
    case True
    with False obtain v where "shard_get crc kv k = Some v" "vType v = SortedSetType"
      by (auto simp: zset_or_empty_def typed_eq_Some split: option.splits)
    with True assms show ?thesis
      by (auto simp: ZRem_def putZSet_def zset_or_empty_def shardValue_eq putShard_present)
  next
    case sa: False
    with False obtain zs where "lookup (SortedSets kv) k = Some zs"
      by (auto simp: zset_or_empty_def split: option.splits)
    with sa assms show ?thesis
      by (auto simp: ZRem_def putZSet_def zset_or_empty_def comma_ok_def)
  qed
qed

lemma parsePairs_error:
  shows "(\<exists>e. parsePairs pf pairs = Inl e) \<longleftrightarrow> (\<exists>i < length pairs div 2. pf (pairs ! (2 * i)) = None)"
    and "parsePairs pf pairs = Inl e \<Longrightarrow> e = ErrZAddScore"
proof -
  show "parsePairs pf pairs = Inl e \<Longrightarrow> e = ErrZAddScore"
    by (induction pf pairs rule: parsePairs.induct) (auto split: option.splits sum.splits)
  show "(\<exists>e. parsePairs pf pairs = Inl e) \<longleftrightarrow> (\<exists>i < length pairs div 2. pf (pairs ! (2 * i)) = None)"
  proof (induction pf pairs rule: parsePairs.induct)
    case (1 pf s member rest)
    have "(\<exists>i < length (s # member # rest) div 2. pf ((s # member # rest) ! (2 * i)) = None)
        \<longleftrightarrow> pf s = None \<or> (\<exists>i < length rest div 2. pf (rest ! (2 * i)) = None)"
      by (simp add: Ex_less_Suc2)
    then show ?case using 1 by (auto split: option.splits sum.splits)
  qed simp_all
qed

text \<open>How many entries a filter drops.\<close>

lemma dropped_members:
  assumes "distinct (map Member zs)"
  shows "int (length zs) - int (length (filter (\<lambda>e. Member e \<notin> A) zs)) = int (card (A \<inter> Member ` set zs))"
proof -
  have "card (A \<inter> Member ` set zs) = card (set (map Member (filter (\<lambda>e. Member e \<in> A) zs)))"
    by (rule arg_cong [where f = card]) auto
  also have "\<dots> = length (filter (\<lambda>e. Member e \<in> A) zs)"
    using assms by (metis distinct_card distinct_map_filter length_map)
  finally show ?thesis using sum_length_filter_compl [of "\<lambda>e. Member e \<in> A" zs] by simp
qed

lemma filter_all_kept:
  "int (length zs) - int (length (filter P zs)) = 0 \<longleftrightarrow> filter P zs = zs"
proof
  assume *: "int (length zs) - int (length (filter P zs)) = 0"
  show "filter P zs = zs"
  proof (rule ccontr)
    assume "filter P zs \<noteq> zs"
    then obtain x where "x \<in> set zs" "\<not> P x" by (auto simp: filter_id_conv)
    then show False using length_filter_less [of x zs P] * by simp
  qed
qed simp

section \<open>Properties\<close>

text \<open>C17: a successful ZADD gives every named member its score (the last one given), keeps the other
  members, answers how many are new and leaves each member once; with no NaN among the scores the
  stored list is the stable sort by score of the updated one.\<close>

theorem ZAdd_refines:
  assumes "kv_wf crc kv" "\<not> wrong_type (clusterEnabled kv) SortedSetType (absKV crc kv) k"
    and "even (length pairs)" "parsePairs pf pairs = Inr ps" "ps \<noteq> []"
  shows "let zs = zset_or_empty (absKV crc kv) k
     in \<exists>zs'. kv_result crc kv (ZAdd crc pf kv k pairs) (spec_zset k zs' (absKV crc kv))
            (Inr (int (card (fst ` set ps - Member ` set zs))))
          \<and> distinct (map Member zs') \<and> zset_map zs' = zset_map zs ++ map_of (rev ps)
          \<and> (NaN_free zs \<and> (\<forall>p \<in> set ps. \<not> f64_isNaN (snd p)) \<longrightarrow>
               NaN_free zs' \<and> sorted (map (\<lambda>e. f64_key (Score e)) zs')
               \<and> zs' = sort_key (\<lambda>e. f64_key (Score e)) (fst (zaddLoop ps zs 0)))"
proof -
  obtain zs' n where z: "zadd (zset_or_empty (absKV crc kv) k) ps = (zs', n)" by force
  note s = zadd_spec [OF z zset_distinct [OF assms(1)]]
  show ?thesis
    using ZAdd_eq [OF assms(3-5,1,2) z] putZSet_result [OF assms(1,2) s(1), of "Inr n"] s
    by (auto simp: Let_def)
qed

theorem ZAdd_refines_witness:
  "\<exists>zs'. kv_result (\<lambda>_. 7) (NewKVStore [True])
       (ZAdd (\<lambda>_. 7) (\<lambda>s. if s = ''1'' then Some 0x3FF0000000000000 else Some 0) (NewKVStore [True]) ''z''
         [''1'', ''b'', ''0'', ''a'']) (spec_zset ''z'' zs' ks_empty) (Inr 2)
     \<and> zset_map zs' = [''b'' \<mapsto> 0x3FF0000000000000, ''a'' \<mapsto> 0]"
  using ZAdd_refines [of "\<lambda>_. 7" "NewKVStore [True]" "''z''" "[''1'', ''b'', ''0'', ''a'']"
      "\<lambda>s. if s = ''1'' then Some 0x3FF0000000000000 else Some 0" "[(''b'', 0x3FF0000000000000), (''a'', 0)]",
      OF NewKVStore_wf]
  by (auto simp: Let_def zset_or_empty_def zset_map_def)

text \<open>ZADD refuses an odd number of arguments, then a score that is not a number, then, in cluster
  mode, a key of another type, and every refusal leaves the store as it was, even when some of the
  pairs were good.\<close>

theorem ZAdd_refusals:
  "ZAdd crc pf kv k pairs = Some (kv, Inl e) \<longleftrightarrow>
     e = (if odd (length pairs) then ErrZAddOdd
          else if \<exists>i < length pairs div 2. pf (pairs ! (2 * i)) = None then ErrZAddScore else ErrWrongType)
     \<and> (odd (length pairs) \<or> (\<exists>i < length pairs div 2. pf (pairs ! (2 * i)) = None)
        \<or> wrong_type (clusterEnabled kv) SortedSetType (absKV crc kv) k)"
proof -
  note bad = parsePairs_error(1) [of pf pairs] and err = parsePairs_error(2) [of pf pairs]
  show ?thesis
  proof (cases "parsePairs pf pairs")
    case (Inl e')
    with err bad have "e' = ErrZAddScore" "\<exists>i < length pairs div 2. pf (pairs ! (2 * i)) = None" by auto
    with Inl show ?thesis by (auto simp: ZAdd_def odd_iff_mod_2_eq_one)
  next
    case (Inr ps)
    then have "\<not> (\<exists>i < length pairs div 2. pf (pairs ! (2 * i)) = None)" using bad by auto
    with Inr show ?thesis
      by (auto simp: ZAdd_def odd_iff_mod_2_eq_one wrong_type_absKV shardValue_eq bind_eq_Some_conv
          split: option.splits prod.splits)
  qed
qed

text \<open>ZREM removes exactly the named members, keeps the order of the rest, answers how many it removed
  and drops the key with its last member; ZRANGE answers the members whose rank lies between the two
  bounds, a negative bound counting from the end.\<close>

theorem ZRem_ZRange_refine:
  assumes "kv_wf crc kv"
  shows "let ks = absKV crc kv; zs = zset_or_empty ks k; n = int (length zs);
           kept = filter (\<lambda>e. Member e \<notin> set ms) zs
     in kv_result crc kv (ZRem crc kv k ms) (if kept = zs then ks else spec_zset k kept ks)
          (int (card (set ms \<inter> Member ` set zs)))
      \<and> ZRange crc kv k a b
          = map Member (nths zs {i. norm_index n a \<le> int i \<and> int i \<le> norm_index n b})"
proof -
  let ?zs = "zset_or_empty (absKV crc kv) k"
  let ?kept = "filter (\<lambda>e. Member e \<notin> set ms) ?zs"
  let ?n = "int (length ?zs) - int (length ?kept)"
  have z: "zrem ?zs ms = (?kept, ?n)" by (simp add: zrem_def Let_def)
  have n0: "?n = 0 \<longleftrightarrow> ?kept = ?zs" by (rule filter_all_kept)
  have d: "distinct (map Member ?zs)" by (rule zset_distinct [OF assms])
  have n: "?n = int (card (set ms \<inter> Member ` set ?zs))" by (rule dropped_members [OF d])
  have ne: "?n \<noteq> 0 \<Longrightarrow> \<not> wrong_type (clusterEnabled kv) SortedSetType (absKV crc kv) k"
    by (auto simp: wrong_type_absKV zset_or_empty_def split: if_splits)
  have "kv_result crc kv (ZRem crc kv k ms) (if ?kept = ?zs then absKV crc kv else spec_zset k ?kept (absKV crc kv))
      (int (card (set ms \<inter> Member ` set ?zs)))"
    using ZRem_eq [OF z] n0 n putZSet_result [OF assms ne, of ?kept ?n] d
    by (auto simp: distinct_map_filter kv_result_same assms)
  moreover have "ZRange crc kv k a b = map Member (nths ?zs
      {i. norm_index (int (length ?zs)) a \<le> int i \<and> int i \<le> norm_index (int (length ?zs)) b})"
    using range_nths [of ?zs a b] by (auto simp: ZRange_def storedZSet_abs Let_def split: prod.splits if_splits)
  ultimately show ?thesis by (simp add: Let_def)
qed


theorem ZRem_ZRange_refine_witness:
  "\<exists>kv. ZAdd (\<lambda>_. 7) (\<lambda>s. if s = ''1'' then Some 0x3FF0000000000000 else Some 0) (NewKVStore []) ''z''
        [''1'', ''b'', ''0'', ''a''] = Some (kv, Inr 2)
     \<and> ZRange (\<lambda>_. 7) kv ''z'' 0 (- 1) = [''a'', ''b'']
     \<and> kv_result (\<lambda>_. 7) kv (ZRem (\<lambda>_. 7) kv ''z'' [''a'', ''x''])
         (spec_zset ''z'' [\<lparr>Member = ''b'', Score = 0x3FF0000000000000\<rparr>] (absKV (\<lambda>_. 7) kv)) 1"
proof -
  let ?pf = "\<lambda>s. if s = ''1'' then Some 0x3FF0000000000000 else Some (0 :: u64)"
  let ?zs = "[\<lparr>Member = ''a'', Score = 0\<rparr>, \<lparr>Member = ''b'', Score = 0x3FF0000000000000\<rparr>]"
  have "zadd [] [(''b'', 0x3FF0000000000000), (''a'', 0)] = (?zs, 2)"
    by code_simp
  then obtain kv where kv: "ZAdd (\<lambda>_. 7) ?pf (NewKVStore []) ''z'' [''1'', ''b'', ''0'', ''a''] = Some (kv, Inr 2)"
      "kv_wf (\<lambda>_. 7) kv" "absKV (\<lambda>_. 7) kv = spec_zset ''z'' ?zs ks_empty"
    using ZAdd_eq [of "[''1'', ''b'', ''0'', ''a'']" ?pf "[(''b'', 0x3FF0000000000000), (''a'', 0)]" "\<lambda>_. 7"
        "NewKVStore []" "''z''" ?zs 2] putZSet_result [OF NewKVStore_wf, of "[]" "\<lambda>_. 7" "''z''" ?zs "Inr 2 :: kvError + int"]
      NewKVStore_wf [of "\<lambda>_. 7" "[]"]
    by (auto simp: zset_or_empty_def kv_result_def)
  have "zset_or_empty (absKV (\<lambda>_. 7) kv) ''z'' = ?zs" by (simp add: kv(3) zset_or_empty_def spec_zset_def)
  with kv ZRem_ZRange_refine [OF kv(2), of "''z''" "[''a'', ''x'']" 0 "- 1"] show ?thesis
    by (auto simp: Let_def norm_index_def nths_Cons)
qed

theorem ZAdd_refusals_witness:
  "ZAdd (\<lambda>_. 7) (\<lambda>_. None) (NewKVStore [True]) ''z'' [''1'', ''a'', ''2''] = Some (NewKVStore [True], Inl ErrZAddOdd)"
  using ZAdd_refusals [of "\<lambda>_. 7" "\<lambda>_. None" "NewKVStore [True]" "''z''" "[''1'', ''a'', ''2'']" ErrZAddOdd] by simp

end
