(* ===== verification/Cluster_Codec.thy ===== *)
theory Cluster_Codec
  imports Ember_Prelude
begin

text \<open>
  The two binary formats of \<^verbatim>\<open>utils/clusters\<close>: the cluster bus message of \<^verbatim>\<open>message.go\<close> and
  \<^verbatim>\<open>gossip.go\<close>, and the value dump of \<^verbatim>\<open>rdb.go\<close>. Fields have a fixed width and lie one after the other; the
  locale \<open>codec\<close> is the contract of one field, and the round trips are composed from its
  interpretations. \<^verbatim>\<open>encoding/binary\<close>'s big-endian integers are \<open>be_bytes\<close> and \<open>be_val\<close>.
\<close>

section \<open>Big-endian integers\<close>

fun be_bytes :: "nat \<Rightarrow> nat \<Rightarrow> string" where
  "be_bytes 0 x = []"
| "be_bytes (Suc n) x = be_bytes n (x div 256) @ [char_of (x mod 256)]"

definition be_val :: "string \<Rightarrow> nat" where
  "be_val s = foldl (\<lambda>a c. a * 256 + of_char c) 0 s"

definition AppendUint16 :: "u16 \<Rightarrow> string" where "AppendUint16 w = be_bytes 2 (unat w)"
definition AppendUint32 :: "u32 \<Rightarrow> string" where "AppendUint32 w = be_bytes 4 (unat w)"
definition AppendUint64 :: "u64 \<Rightarrow> string" where "AppendUint64 w = be_bytes 8 (unat w)"

definition Uint16 :: "string \<Rightarrow> u16" where "Uint16 s = of_nat (be_val s)"
definition Uint32 :: "string \<Rightarrow> u32" where "Uint32 s = of_nat (be_val s)"
definition Uint64 :: "string \<Rightarrow> u64" where "Uint64 s = of_nat (be_val s)"

text \<open>\<^verbatim>\<open>buf[off : off+n]\<close>\<close>

definition sub :: "string \<Rightarrow> nat \<Rightarrow> nat \<Rightarrow> string" where
  "sub buf off n = take n (drop off buf)"

text \<open>\<^verbatim>\<open>make([]byte, 40)\<close> followed by \<^verbatim>\<open>copy\<close>, and \<^verbatim>\<open>bytes.TrimRight(b, NUL)\<close>.\<close>

definition nameField :: "string \<Rightarrow> string" where
  "nameField name = take 40 name @ replicate (40 - length name) (CHR 0x00)"

definition trimNul :: "string \<Rightarrow> string" where
  "trimNul s = rev (dropWhile (\<lambda>c. c = CHR 0x00) (rev s))"

section \<open>Messages\<close>

record clusterMsgDataGossip =
  nodeName :: string
  g_cport :: u16
  g_port :: u16
  g_flags :: u16
  g_pingSent :: u32
  g_pongReceived :: u32

record clusterMsg =
  Sig :: string
  msgType :: u16
  totLen :: u32
  msgCount :: u16
  port :: u16
  sender :: string
  cport :: u16
  msgFlags :: u16
  msgState :: int
  msgSlots :: "u64 list"
  Gossip :: "clusterMsgDataGossip list"

datatype msgError = MsgTooShort nat | MsgSignature string | MsgLength nat nat | MsgGossipSize nat

abbreviation SLOT_WORDS :: nat where "SLOT_WORDS \<equiv> 256"

definition CLUSTERMSG_HEADER_SIZE :: nat where
  "CLUSTERMSG_HEADER_SIZE = 4 + 4 + 2 + 2 + 40 + 2 + 2 + 2 + SLOT_WORDS * 8"

definition CLUSTERMSG_GOSSIP_SIZE :: nat where
  "CLUSTERMSG_GOSSIP_SIZE = 40 + 4 + 4 + 2 + 2 + 2"

definition gossipBytes :: "clusterMsgDataGossip \<Rightarrow> string" where
  "gossipBytes g = nameField (nodeName g) @ AppendUint32 (g_pingSent g) @ AppendUint32 (g_pongReceived g)
     @ AppendUint16 (g_port g) @ AppendUint16 (g_cport g) @ AppendUint16 (g_flags g)"

definition serializeClusterMsg :: "clusterMsg \<Rightarrow> string option" where
  "serializeClusterMsg msg =
     (let buf = Sig msg @ AppendUint32 (totLen msg) @ AppendUint16 (msgType msg) @ AppendUint16 (port msg)
            @ nameField (sender msg) @ AppendUint16 (cport msg) @ AppendUint16 (msgFlags msg)
            @ AppendUint16 (of_int (msgState msg))
            @ concat (map AppendUint64 (msgSlots msg))
            @ concat (map gossipBytes (Gossip msg))
      in if length buf \<noteq> unat (totLen msg) then None else Some buf)"

definition gossipAt :: "string \<Rightarrow> nat \<Rightarrow> clusterMsgDataGossip" where
  "gossipAt buf offset =
     \<lparr>nodeName = trimNul (sub buf offset 40),
      g_cport = Uint16 (sub buf (offset + 50) 2),
      g_port = Uint16 (sub buf (offset + 48) 2),
      g_flags = Uint16 (sub buf (offset + 52) 2),
      g_pingSent = Uint32 (sub buf (offset + 40) 4),
      g_pongReceived = Uint32 (sub buf (offset + 44) 4)\<rparr>"

definition deserializeClusterMsg :: "string \<Rightarrow> msgError + clusterMsg" where
  "deserializeClusterMsg buf =
     (if length buf < CLUSTERMSG_HEADER_SIZE then Inl (MsgTooShort (length buf))
      else if sub buf 0 4 \<noteq> ''RCmb'' then Inl (MsgSignature (sub buf 0 4))
      else if unat (Uint32 (sub buf 4 4)) \<noteq> length buf
      then Inl (MsgLength (unat (Uint32 (sub buf 4 4))) (length buf))
      else let remaining = length buf - CLUSTERMSG_HEADER_SIZE
           in if remaining mod CLUSTERMSG_GOSSIP_SIZE \<noteq> 0 then Inl (MsgGossipSize remaining)
              else let gossipCount = remaining div CLUSTERMSG_GOSSIP_SIZE
                   in Inr \<lparr>Sig = sub buf 0 4,
                           msgType = Uint16 (sub buf 8 2),
                           totLen = Uint32 (sub buf 4 4),
                           msgCount = of_nat gossipCount,
                           port = Uint16 (sub buf 10 2),
                           sender = trimNul (sub buf 12 40),
                           cport = Uint16 (sub buf 52 2),
                           msgFlags = Uint16 (sub buf 54 2),
                           msgState = uint (Uint16 (sub buf 56 2)),
                           msgSlots = map (\<lambda>i. Uint64 (sub buf (58 + 8 * i) 8)) [0..<SLOT_WORDS],
                           Gossip = map (\<lambda>i. gossipAt buf (CLUSTERMSG_HEADER_SIZE + CLUSTERMSG_GOSSIP_SIZE * i))
                                      [0..<gossipCount]\<rparr>)"

section \<open>Dumps\<close>

datatype dumpError = DumpInvalid | DumpType | DumpLength

definition DUMP_TYPE_STRING :: char where "DUMP_TYPE_STRING = CHR 0x00"

definition EncodeBinaryDump :: "string \<Rightarrow> string" where
  "EncodeBinaryDump v = DUMP_TYPE_STRING # AppendUint32 (of_nat (length v)) @ v"

definition RestoreDataFromBinaryDump :: "string \<Rightarrow> dumpError + string" where
  "RestoreDataFromBinaryDump data =
     (if length data < 5 then Inl DumpInvalid
      else if data ! 0 \<noteq> DUMP_TYPE_STRING then Inl DumpType
      else if length data \<noteq> 5 + unat (Uint32 (sub data 1 4)) then Inl DumpLength
      else Inr (drop 5 data))"

section \<open>Fixed-width fields\<close>

lemma length_be_bytes [simp]: "length (be_bytes n x) = n"
  by (induction n arbitrary: x) auto

lemma be_val_append1: "be_val (s @ [c]) = be_val s * 256 + of_char c"
  by (simp add: be_val_def)

lemma be_val_be_bytes: "be_val (be_bytes n x) = x mod 256 ^ n"
proof (induction n arbitrary: x)
  case 0
  then show ?case by (simp add: be_val_def)
next
  case (Suc n)
  have "be_val (be_bytes (Suc n) x) = (x div 256 mod 256 ^ n) * 256 + x mod 256"
    by (simp add: be_val_append1 Suc)
  also have "\<dots> = x mod (256 * 256 ^ n)"
    by (metis add.commute mod_mult2_eq mult.commute)
  finally show ?case by simp
qed

lemma be_bytes_be_val: "be_bytes (length s) (be_val s) = s"
proof (induction s rule: rev_induct)
  case (snoc c s)
  have "of_char c < (256 :: nat)" by simp
  then show ?case using snoc by (simp add: be_val_append1)
qed simp

lemma be_val_bound: "be_val s < 256 ^ length s"
  using be_val_be_bytes [of "length s" "be_val s"] be_bytes_be_val [of s]
  by (metis mod_less_divisor zero_less_numeral zero_less_power)

locale codec =
  fixes enc :: "'a \<Rightarrow> string" and dec :: "string \<Rightarrow> 'a" and width :: nat and ok :: "'a \<Rightarrow> bool"
  assumes enc_length: "length (enc x) = width"
    and dec_enc: "ok x \<Longrightarrow> dec (enc x) = x"
    and enc_dec: "length s = width \<Longrightarrow> enc (dec s) = s"
    and dec_ok: "length s = width \<Longrightarrow> ok (dec s)"
begin

lemma length_encs: "length (concat (map enc xs)) = width * length xs"
  by (induction xs) (auto simp: enc_length)

lemma sub_encs: "i < length xs \<Longrightarrow> sub (concat (map enc xs) @ rest) (width * i) width = enc (xs ! i)"
proof (induction xs arbitrary: i)
  case (Cons x xs)
  show ?case
  proof (cases i)
    case 0
    then show ?thesis by (simp add: sub_def enc_length)
  next
    case (Suc j)
    then show ?thesis using Cons by (simp add: sub_def enc_length)
  qed
qed simp

lemma decode_list:
  assumes "\<forall>x \<in> set xs. ok x"
  shows "map (\<lambda>i. dec (sub (concat (map enc xs) @ rest) (width * i) width)) [0..<length xs] = xs"
  by (rule nth_equalityI) (use assms in \<open>auto simp: sub_encs dec_enc\<close>)

lemma encode_list:
  "length s = width * n \<Longrightarrow> concat (map enc (map (\<lambda>i. dec (sub s (width * i) width)) [0..<n])) = s"
proof (induction n arbitrary: s)
  case (Suc n)
  let ?hd = "take width s" and ?tl = "drop width s"
  have l: "length ?hd = width" "length ?tl = width * n" using Suc.prems by simp_all
  have "[0..<Suc n] = 0 # map Suc [0..<n]" by (simp add: map_Suc_upt upt_conv_Cons)
  moreover have "sub s (width * Suc i) width = sub ?tl (width * i) width" for i
    by (simp add: sub_def add.commute)
  moreover have "enc (dec ?hd) = ?hd" using l by (simp add: enc_dec)
  ultimately have "concat (map enc (map (\<lambda>i. dec (sub s (width * i) width)) [0..<Suc n]))
      = ?hd @ concat (map enc (map (\<lambda>i. dec (sub ?tl (width * i) width)) [0..<n]))"
    by (simp add: sub_def comp_def)
  then show ?case using Suc.IH [OF l(2)] by simp
qed simp

end

interpretation u16c: codec AppendUint16 Uint16 2 "\<lambda>_. True"
proof unfold_locales
  fix s :: string
  assume s: "length s = 2"
  then have "be_val s < 2 ^ 16" using be_val_bound [of s] by simp
  then show "AppendUint16 (Uint16 s) = s"
    using be_bytes_be_val [of s] s by (simp add: AppendUint16_def Uint16_def unat_of_nat take_bit_eq_mod)
next
  fix w :: u16
  have "unat w < 256 ^ 2" using unsigned_less [of w] by simp
  then show "Uint16 (AppendUint16 w) = w" by (simp add: AppendUint16_def Uint16_def be_val_be_bytes)
qed (simp_all add: AppendUint16_def)

interpretation u32c: codec AppendUint32 Uint32 4 "\<lambda>_. True"
proof unfold_locales
  fix s :: string
  assume s: "length s = 4"
  then have "be_val s < 2 ^ 32" using be_val_bound [of s] by simp
  then show "AppendUint32 (Uint32 s) = s"
    using be_bytes_be_val [of s] s by (simp add: AppendUint32_def Uint32_def unat_of_nat take_bit_eq_mod)
next
  fix w :: u32
  have "unat w < 256 ^ 4" using unsigned_less [of w] by simp
  then show "Uint32 (AppendUint32 w) = w" by (simp add: AppendUint32_def Uint32_def be_val_be_bytes)
qed (simp_all add: AppendUint32_def)

interpretation u64c: codec AppendUint64 Uint64 8 "\<lambda>_. True"
proof unfold_locales
  fix s :: string
  assume s: "length s = 8"
  then have "be_val s < 2 ^ 64" using be_val_bound [of s] by simp
  then show "AppendUint64 (Uint64 s) = s"
    using be_bytes_be_val [of s] s by (simp add: AppendUint64_def Uint64_def unat_of_nat take_bit_eq_mod)
next
  fix w :: u64
  have "unat w < 256 ^ 8" using unsigned_less [of w] by simp
  then show "Uint64 (AppendUint64 w) = w" by (simp add: AppendUint64_def Uint64_def be_val_be_bytes)
qed (simp_all add: AppendUint64_def)

text \<open>Names that survive the field: at most 40 bytes, the last one not NUL.\<close>

definition name_ok :: "string \<Rightarrow> bool" where
  "name_ok s \<longleftrightarrow> length s \<le> 40 \<and> (s \<noteq> [] \<longrightarrow> last s \<noteq> CHR 0x00)"

lemma trimNul_padded: "name_ok s \<Longrightarrow> trimNul (s @ replicate k (CHR 0x00)) = s"
proof -
  assume "name_ok s"
  then have "dropWhile (\<lambda>c. c = CHR 0x00) (rev s) = rev s"
    by (cases s rule: rev_cases) (auto simp: name_ok_def)
  moreover have "dropWhile (\<lambda>c. c = CHR 0x00) (replicate k (CHR 0x00) @ rev s) = dropWhile (\<lambda>c. c = CHR 0x00) (rev s)"
    by (induction k) auto
  ultimately show ?thesis by (simp add: trimNul_def)
qed

lemma trimNul_split: "\<exists>k. s = trimNul s @ replicate k (CHR 0x00)"
proof -
  let ?t = "takeWhile (\<lambda>c. c = CHR 0x00) (rev s)"
  have "rev s = ?t @ dropWhile (\<lambda>c. c = CHR 0x00) (rev s)" by simp
  then have "rev (rev s) = rev (?t @ dropWhile (\<lambda>c. c = CHR 0x00) (rev s))" by (rule arg_cong)
  then have "s = trimNul s @ rev ?t" by (simp only: trimNul_def rev_append rev_rev_ident)
  moreover have "?t = replicate (length ?t) (CHR 0x00)"
    by (rule replicate_eqI) (auto dest: set_takeWhileD)
  then have "rev ?t = replicate (length ?t) (CHR 0x00)" by (metis rev_replicate)
  ultimately have "s = trimNul s @ replicate (length ?t) (CHR 0x00)" by simp
  then show ?thesis by blast
qed

lemma trimNul_last: "trimNul s \<noteq> [] \<Longrightarrow> last (trimNul s) \<noteq> CHR 0x00"
  using hd_dropWhile [of "\<lambda>c. c = CHR 0x00" "rev s"] by (simp add: trimNul_def last_rev)

interpretation namec: codec nameField trimNul 40 name_ok
proof unfold_locales
  show "length (nameField x) = 40" for x by (simp add: nameField_def)
next
  fix x
  assume ok: "name_ok x"
  then have "nameField x = x @ replicate (40 - length x) (CHR 0x00)" by (simp add: nameField_def name_ok_def)
  with ok show "trimNul (nameField x) = x" by (simp add: trimNul_padded)
next
  fix s :: string
  assume l: "length s = 40"
  obtain k where k: "s = trimNul s @ replicate k (CHR 0x00)" using trimNul_split by blast
  have "length s = length (trimNul s @ replicate k (CHR 0x00))" by (rule arg_cong [OF k])
  then have len: "length (trimNul s) + k = 40" unfolding l length_append length_replicate by (rule sym)
  then have "nameField (trimNul s) = trimNul s @ replicate k (CHR 0x00)" by (auto simp: nameField_def)
  then show "nameField (trimNul s) = s" by (simp only: k [symmetric])
  show "name_ok (trimNul s)" using trimNul_last len by (simp add: name_ok_def)
qed

lemma sub_sub: "a + n \<le> m \<Longrightarrow> sub (sub buf off m) a n = sub buf (off + a) n"
  by (simp add: sub_def drop_take add.commute)

lemma length_sub: "off + n \<le> length buf \<Longrightarrow> length (sub buf off n) = n"
  by (simp add: sub_def)

lemma gossipAt_window: "gossipAt buf off = gossipAt (sub buf off 54) 0"
  by (simp add: gossipAt_def sub_sub)

lemmas field_lengths = u16c.enc_length u32c.enc_length u64c.enc_length namec.enc_length

text \<open>Cutting a concatenation of fields at its own widths gives the fields back, and the other way round.\<close>

lemma sub_append_left: "off + n \<le> length xs \<Longrightarrow> sub (xs @ ys) off n = sub xs off n"
  by (simp add: sub_def)

lemma sub_append_right: "length xs \<le> off \<Longrightarrow> sub (xs @ ys) off n = sub ys (off - length xs) n"
  by (simp add: sub_def)

lemma sub_whole: "length xs = n \<Longrightarrow> sub (xs @ ys) 0 n = xs"
  by (simp add: sub_def)

lemma sub_whole_Nil: "length xs = n \<Longrightarrow> sub xs 0 n = xs"
  by (simp add: sub_def)

lemma sub_join: "sub s a n @ sub s (a + n) m = sub s a (n + m)"
  unfolding sub_def take_add drop_drop by (simp add: add.commute)

lemmas sub_fields = sub_append_right sub_whole sub_whole_Nil field_lengths

interpretation gossipc: codec gossipBytes "\<lambda>s. gossipAt s 0" 54
  "\<lambda>g :: clusterMsgDataGossip. name_ok (nodeName g)"
proof unfold_locales
  show "length (gossipBytes g) = 54" for g by (simp add: gossipBytes_def field_lengths)
next
  fix g :: clusterMsgDataGossip
  assume "name_ok (nodeName g)"
  then show "gossipAt (gossipBytes g) 0 = g"
    by (simp add: gossipBytes_def gossipAt_def sub_fields namec.dec_enc u16c.dec_enc u32c.dec_enc)
next
  fix s :: string
  assume l: "length s = 54"
  have "gossipBytes (gossipAt s 0) = sub s 0 40 @ sub s 40 4 @ sub s 44 4 @ sub s 48 2 @ sub s 50 2 @ sub s 52 2"
    using l by (simp add: gossipBytes_def gossipAt_def namec.enc_dec u16c.enc_dec u32c.enc_dec length_sub)
  also have "\<dots> = sub s 0 54"
    using sub_join [of s 0 40 4] sub_join [of s 0 44 4] sub_join [of s 0 48 2] sub_join [of s 0 50 2]
      sub_join [of s 0 52 2] by (simp flip: append_assoc)
  finally show "gossipBytes (gossipAt s 0) = s" using l by (simp add: sub_def)
  show "name_ok (nodeName (gossipAt s 0))" using l by (simp add: gossipAt_def namec.dec_ok length_sub)
qed

section \<open>Whole messages\<close>

definition fixedBytes :: "clusterMsg \<Rightarrow> string" where
  "fixedBytes msg = Sig msg @ AppendUint32 (totLen msg) @ AppendUint16 (msgType msg) @ AppendUint16 (port msg)
     @ nameField (sender msg) @ AppendUint16 (cport msg) @ AppendUint16 (msgFlags msg)
     @ AppendUint16 (of_int (msgState msg))"

definition wireBytes :: "clusterMsg \<Rightarrow> string" where
  "wireBytes msg = fixedBytes msg @ concat (map AppendUint64 (msgSlots msg)) @ concat (map gossipBytes (Gossip msg))"

lemma serialize_wire:
  "serializeClusterMsg msg = (if length (wireBytes msg) \<noteq> unat (totLen msg) then None else Some (wireBytes msg))"
  by (simp add: serializeClusterMsg_def wireBytes_def fixedBytes_def Let_def)

text \<open>What the sender fills in: the signature, 256 slot words, names that fit, and the total length.\<close>

definition msg_ok :: "clusterMsg \<Rightarrow> bool" where
  "msg_ok m \<longleftrightarrow> Sig m = ''RCmb'' \<and> length (msgSlots m) = SLOT_WORDS \<and> name_ok (sender m)
     \<and> 0 \<le> msgState m \<and> msgState m < 65536 \<and> (\<forall>g \<in> set (Gossip m). name_ok (nodeName g))
     \<and> unat (totLen m) = CLUSTERMSG_HEADER_SIZE + CLUSTERMSG_GOSSIP_SIZE * length (Gossip m)
     \<and> msgCount m = of_nat (length (Gossip m))"

lemmas sizes = CLUSTERMSG_HEADER_SIZE_def CLUSTERMSG_GOSSIP_SIZE_def

lemma length_fixed: "length (Sig m) = 4 \<Longrightarrow> length (fixedBytes m) = 58"
  by (simp add: fixedBytes_def field_lengths)

lemma length_wire: "length (Sig m) = 4 \<Longrightarrow> length (msgSlots m) = 256 \<Longrightarrow> length (wireBytes m) = 2106 + 54 * length (Gossip m)"
  by (simp add: wireBytes_def length_fixed u64c.length_encs gossipc.length_encs)

lemma sub_wire_fixed: "length (Sig m) = 4 \<Longrightarrow> off + n \<le> 58 \<Longrightarrow> sub (wireBytes m) off n = sub (fixedBytes m) off n"
  by (simp add: wireBytes_def sub_append_left length_fixed)

lemma fixed_fields:
  assumes "length (Sig m) = 4"
  shows "sub (fixedBytes m) 0 4 = Sig m" "sub (fixedBytes m) 4 4 = AppendUint32 (totLen m)"
    "sub (fixedBytes m) 8 2 = AppendUint16 (msgType m)" "sub (fixedBytes m) 10 2 = AppendUint16 (port m)"
    "sub (fixedBytes m) 12 40 = nameField (sender m)" "sub (fixedBytes m) 52 2 = AppendUint16 (cport m)"
    "sub (fixedBytes m) 54 2 = AppendUint16 (msgFlags m)" "sub (fixedBytes m) 56 2 = AppendUint16 (of_int (msgState m))"
  using assms by (simp_all add: fixedBytes_def sub_fields)

lemma sub_wire_slots:
  assumes "length (Sig m) = 4"
  shows "sub (wireBytes m) (58 + 8 * i) 8
     = sub (concat (map AppendUint64 (msgSlots m)) @ concat (map gossipBytes (Gossip m))) (8 * i) 8"
  using assms by (simp add: wireBytes_def sub_append_right length_fixed)

lemma sub_wire_gossip:
  assumes "length (Sig m) = 4" "length (msgSlots m) = 256"
  shows "sub (wireBytes m) (2106 + 54 * i) 54 = sub (concat (map gossipBytes (Gossip m))) (54 * i) 54"
  using assms by (simp add: wireBytes_def sub_append_right length_fixed u64c.length_encs)

lemma deserialize_serialize:
  assumes ok: "msg_ok m"
  shows "serializeClusterMsg m = Some (wireBytes m) \<and> deserializeClusterMsg (wireBytes m) = Inr m"
proof
  have sig: "Sig m = ''RCmb''" "length (Sig m) = 4" and sl: "length (msgSlots m) = 256"
    and tot: "unat (totLen m) = 2106 + 54 * length (Gossip m)"
    using ok by (auto simp: msg_ok_def sizes)
  note len = length_wire [OF sig(2) sl]
  show "serializeClusterMsg m = Some (wireBytes m)" by (simp add: serialize_wire len tot)
  have slots: "map (\<lambda>i. Uint64 (sub (wireBytes m) (58 + 8 * i) 8)) [0..<256] = msgSlots m"
    using u64c.decode_list [of "msgSlots m"] sl by (simp add: sub_wire_slots [OF sig(2)])
  have gossip: "map (\<lambda>i. gossipAt (wireBytes m) (2106 + 54 * i)) [0..<length (Gossip m)] = Gossip m"
    using gossipc.decode_list [of "Gossip m" "[]"] ok
    by (simp add: gossipAt_window [of "wireBytes m"] sub_wire_gossip [OF sig(2) sl] msg_ok_def)
  have st: "uint (word_of_int (msgState m) :: u16) = msgState m"
    using ok by (simp add: msg_ok_def uint_word_of_int_eq take_bit_int_eq_self)
  show "deserializeClusterMsg (wireBytes m) = Inr m"
    using ok slots gossip
    by (simp add: deserializeClusterMsg_def Let_def sizes sub_wire_fixed [OF sig(2)] fixed_fields [OF sig(2)]
        sig(1) len tot u16c.dec_enc u32c.dec_enc namec.dec_enc msg_ok_def st)
qed

lemma serialize_deserialize:
  assumes "deserializeClusterMsg buf = Inr m"
  shows "msg_ok m \<and> wireBytes m = buf"
proof
  obtain n where n: "length buf = 2106 + 54 * n"
    using assms unfolding deserializeClusterMsg_def Let_def sizes
    by (auto split: if_splits elim!: dvdE simp: mod_eq_0_iff_dvd)
       (metis le_add_diff_inverse not_less)
  have sig: "sub buf 0 4 = ''RCmb''" and tot: "unat (Uint32 (sub buf 4 4)) = length buf"
    using assms by (auto simp: deserializeClusterMsg_def Let_def split: if_splits)
  have m: "m = \<lparr>Sig = sub buf 0 4, msgType = Uint16 (sub buf 8 2), totLen = Uint32 (sub buf 4 4),
      msgCount = of_nat n, port = Uint16 (sub buf 10 2), sender = trimNul (sub buf 12 40),
      cport = Uint16 (sub buf 52 2), msgFlags = Uint16 (sub buf 54 2), msgState = uint (Uint16 (sub buf 56 2)),
      msgSlots = map (\<lambda>i. Uint64 (sub buf (58 + 8 * i) 8)) [0..<256],
      Gossip = map (\<lambda>i. gossipAt buf (2106 + 54 * i)) [0..<n]\<rparr>"
    using assms by (simp add: deserializeClusterMsg_def Let_def sizes n split: if_splits)
  have win: "gossipAt buf (2106 + 54 * i) = gossipAt (sub (drop 2106 buf) (54 * i) 54) 0" for i
    by (simp add: gossipAt_window [of buf] sub_def add.commute)
  have "(\<forall>g \<in> set (Gossip m). name_ok (nodeName g))"
    using n by (auto simp: m win intro!: gossipc.dec_ok length_sub)
  then show "msg_ok m"
    using n tot sig uint_lt2p [of "Uint16 (sub buf 56 2)"] namec.dec_ok [of "sub buf 12 40"]
    by (simp add: msg_ok_def m sizes length_sub)
  have "map (\<lambda>i. Uint64 (sub (sub buf 58 2048) (8 * i) 8)) [0..<256] = msgSlots m"
    by (auto simp: m sub_sub)
  then have "concat (map AppendUint64 (msgSlots m)) = sub buf 58 2048"
    using u64c.encode_list [of "sub buf 58 2048" 256] n by (simp only: length_sub) (simp add: length_sub)
  moreover have "concat (map gossipBytes (Gossip m)) = drop 2106 buf"
    using gossipc.encode_list [of "drop 2106 buf" n] n by (simp add: m win)
  moreover have "fixedBytes m = sub buf 0 58"
  proof -
    have "fixedBytes m = sub buf 0 4 @ sub buf 4 4 @ sub buf 8 2 @ sub buf 10 2 @ sub buf 12 40 @ sub buf 52 2
        @ sub buf 54 2 @ sub buf 56 2"
      using n by (simp add: fixedBytes_def m u16c.enc_dec u32c.enc_dec namec.enc_dec length_sub)
    also have "\<dots> = sub buf 0 58"
      using sub_join [of buf 0 4 4] sub_join [of buf 0 8 2] sub_join [of buf 0 10 2] sub_join [of buf 0 12 40]
        sub_join [of buf 0 52 2] sub_join [of buf 0 54 2] sub_join [of buf 0 56 2] by (simp flip: append_assoc)
    finally show ?thesis .
  qed
  ultimately have "wireBytes m = sub buf 0 58 @ sub buf 58 2048 @ drop 2106 buf" by (simp add: wireBytes_def)
  also have "\<dots> = sub buf 0 2106 @ drop 2106 buf" using sub_join [of buf 0 58 2048] by (simp flip: append_assoc)
  finally show "wireBytes m = buf" by (simp add: sub_def)
qed

section \<open>Properties\<close>

text \<open>C11: a message the sender fills in consistently is encoded, and decoding its bytes gives the same
  message back, with every field, the 256 slot words and every gossip entry in order.\<close>

theorem clusterMsg_roundtrip:
  assumes "msg_ok m"
  shows "\<exists>buf. serializeClusterMsg m = Some buf \<and> length buf = unat (totLen m) \<and> deserializeClusterMsg buf = Inr m"
  using deserialize_serialize [OF assms] length_wire [of m] assms by (auto simp: msg_ok_def sizes)

theorem clusterMsg_roundtrip_witness:
  "\<exists>buf. serializeClusterMsg \<lparr>Sig = ''RCmb'', msgType = 1, totLen = 2160, msgCount = 1, port = 7000, sender = ''node-a'',
       cport = 17000, msgFlags = 0, msgState = 0, msgSlots = replicate 256 3,
       Gossip = [\<lparr>nodeName = ''node-b'', g_cport = 17001, g_port = 7001, g_flags = 0, g_pingSent = 5, g_pongReceived = 9\<rparr>]\<rparr>
     = Some buf \<and> length buf = 2160"
  using clusterMsg_roundtrip [of "\<lparr>Sig = ''RCmb'', msgType = 1, totLen = 2160, msgCount = 1, port = 7000, sender = ''node-a'',
       cport = 17000, msgFlags = 0, msgState = 0, msgSlots = replicate 256 3,
       Gossip = [\<lparr>nodeName = ''node-b'', g_cport = 17001, g_port = 7001, g_flags = 0, g_pingSent = 5, g_pongReceived = 9\<rparr>]\<rparr>"]
  by (auto simp: msg_ok_def name_ok_def sizes)

text \<open>decoding is exact: bytes it accepts are the encoding of the message it returns, so no two
  byte strings decode to the same message, and that message is one a sender could have sent.\<close>

theorem clusterMsg_decoding_exact:
  assumes "deserializeClusterMsg buf = Inr m"
  shows "serializeClusterMsg m = Some buf \<and> msg_ok m"
  using serialize_deserialize [OF assms] deserialize_serialize [of m] by auto

theorem clusterMsg_decoding_exact_witness:
  "\<exists>buf m. deserializeClusterMsg buf = Inr m \<and> serializeClusterMsg m = Some buf"
proof -
  let ?m = "\<lparr>Sig = ''RCmb'', msgType = 0, totLen = 2106, msgCount = 0, port = 7000, sender = ''node-a'',
       cport = 17000, msgFlags = 0, msgState = 0, msgSlots = replicate 256 0, Gossip = []\<rparr>"
  have "msg_ok ?m" by (simp add: msg_ok_def name_ok_def sizes)
  then have "deserializeClusterMsg (wireBytes ?m) = Inr ?m" using deserialize_serialize by blast
  with clusterMsg_decoding_exact [OF this] show ?thesis by blast
qed

text \<open>the decoder's checks are complete, in the order the code makes them: it refuses a buffer shorter
  than the header, then a wrong signature, then a length field that is not the buffer's length,
  then a payload that is no whole number of gossip entries, and accepts everything else.\<close>

theorem deserialize_errors:
  "deserializeClusterMsg buf =
     (if length buf < 2106 then Inl (MsgTooShort (length buf))
      else if take 4 buf \<noteq> ''RCmb'' then Inl (MsgSignature (take 4 buf))
      else if be_val (take 4 (drop 4 buf)) \<noteq> length buf then Inl (MsgLength (be_val (take 4 (drop 4 buf))) (length buf))
      else if \<not> 54 dvd length buf - 2106 then Inl (MsgGossipSize (length buf - 2106))
      else Inr (projr (deserializeClusterMsg buf)))"
proof -
  have "length buf \<ge> 2106 \<Longrightarrow> unat (Uint32 (take 4 (drop 4 buf))) = be_val (take 4 (drop 4 buf))"
    using be_val_bound [of "take 4 (drop 4 buf)"] by (simp add: Uint32_def unat_of_nat take_bit_eq_mod)
  then show ?thesis
    by (auto simp: deserializeClusterMsg_def Let_def sizes sub_def mod_eq_0_iff_dvd)
qed

text \<open>a value shorter than four gigabytes survives the dump format, a dump is accepted only if it is
  the dump of the value it restores, and anything with another type byte is refused.\<close>

theorem dump_roundtrip:
  assumes "length v < 2 ^ 32"
  shows "RestoreDataFromBinaryDump (EncodeBinaryDump v) = Inr v
     \<and> (RestoreDataFromBinaryDump d = Inr v \<longrightarrow> d = EncodeBinaryDump v)
     \<and> (length d \<ge> 5 \<and> hd d \<noteq> CHR 0x00 \<longrightarrow> RestoreDataFromBinaryDump d = Inl DumpType)"
proof -
  have len: "unat (of_nat (length v) :: u32) = length v"
    using assms by (simp add: unat_of_nat take_bit_nat_eq_self)
  have 1: "RestoreDataFromBinaryDump (EncodeBinaryDump v) = Inr v"
    by (simp add: RestoreDataFromBinaryDump_def EncodeBinaryDump_def u32c.enc_length sub_def u32c.dec_enc len)
  have 2: "d = EncodeBinaryDump v" if r: "RestoreDataFromBinaryDump d = Inr v"
  proof -
    have d: "5 \<le> length d" "d ! 0 = CHR 0x00" "length d = 5 + unat (Uint32 (sub d 1 4))" "v = drop 5 d"
      using r by (auto simp: RestoreDataFromBinaryDump_def DUMP_TYPE_STRING_def split: if_splits)
    have "Uint32 (sub d 1 4) = of_nat (length v)" using d(3,4) by simp
    then have "AppendUint32 (of_nat (length v)) = sub d 1 4"
      using d(1) u32c.enc_dec [of "sub d 1 4"] by (simp add: length_sub)
    moreover have "d = [d ! 0] @ sub d 1 4 @ drop 5 d"
      using d(1) by (cases d) (auto simp: sub_def simp flip: drop_drop append_take_drop_id [of 4])
    ultimately show ?thesis by (simp add: EncodeBinaryDump_def DUMP_TYPE_STRING_def d(2,4))
  qed
  have "length d \<ge> 5 \<and> hd d \<noteq> CHR 0x00 \<longrightarrow> RestoreDataFromBinaryDump d = Inl DumpType"
    by (cases d) (auto simp: RestoreDataFromBinaryDump_def DUMP_TYPE_STRING_def)
  with 1 2 show ?thesis by blast
qed

theorem dump_roundtrip_witness: "RestoreDataFromBinaryDump (EncodeBinaryDump ''hello'') = Inr ''hello''"
  using dump_roundtrip [of "''hello''"] by simp

end
