(* ===== verification/Cluster_Node.thy ===== *)
theory Cluster_Node
  imports Cluster_Codec Go_Strconv
begin

unbundle bit_operations_syntax

text \<open>
  \<^verbatim>\<open>utils/clusters/node.go\<close>, and \<^verbatim>\<open>countSlots\<close> and \<^verbatim>\<open>clusterComputeReshardTable\<close> of \<^verbatim>\<open>cluster.go\<close>: one node of
  the cluster and its bitmap of 16384 slots, 256 words of 64 bits. \<open>owned\<close> reads the bitmap as a set of
  slots; every operation on the words is proved to be the set operation it stands for. The locks of a
  node are not modelled: each method holds the lock for its whole body. A pointer to a link or a node
  is a reference (\<^const>\<open>None\<close> is nil); the zero \<^verbatim>\<open>time.Time\<close> is \<^const>\<open>None\<close>, any other is its Unix second.
\<close>

type_synonym linkRef = nat
type_synonym nodeRef = nat
type_synonym time = "int option"

record ClusterNode =
  Name :: string
  Host :: string
  ClientPort :: int
  ClusterBusPort :: int
  OwnedSlots :: "u64 list"
  NumSlots :: int
  flags :: int
  TCPhost :: string
  TCPport :: int
  outbound :: "linkRef option"
  inbound :: "linkRef option"
  pongReceived :: time
  pingSent :: time
  balance :: "32 word"

record NodeSnapshot =
  snapName :: string
  snapHost :: string
  snapClientPort :: int
  snapClusterBusPort :: int
  snapOwnedSlots :: "u64 list"
  snapNumSlots :: int
  snapFlags :: int
  snapTCPPort :: int
  snapOutbound :: "linkRef option"
  snapPingSent :: time
  snapPongReceived :: time

definition CLUSTER_BUS_PORT_INCR :: int where "CLUSTER_BUS_PORT_INCR = 10000"

definition CLUSTER_SLOTS :: nat where "CLUSTER_SLOTS = 16384"

section \<open>Bitmaps\<close>

definition OnesCount64 :: "u64 \<Rightarrow> nat" where
  "OnesCount64 w = length (filter (bit w) [0..<64])"

definition countSlots :: "u64 list \<Rightarrow> int" where
  "countSlots slots = foldl (\<lambda>count word. count + int (OnesCount64 word)) 0 slots"

text \<open>\<^verbatim>\<open>1 << (slot % 64)\<close>, and the two updates of word \<^verbatim>\<open>slot/64\<close>; an index past the array panics.\<close>

definition slotMask :: "nat \<Rightarrow> u64" where
  "slotMask slot = push_bit (slot mod 64) 1"

definition setBit :: "u64 list \<Rightarrow> nat \<Rightarrow> u64 list option" where
  "setBit ws slot =
     (if slot div 64 < length ws then Some (ws[slot div 64 := ws ! (slot div 64) OR slotMask slot]) else None)"

definition clearBit :: "u64 list \<Rightarrow> nat \<Rightarrow> u64 list option" where
  "clearBit ws slot =
     (if slot div 64 < length ws then Some (ws[slot div 64 := ws ! (slot div 64) AND NOT (slotMask slot)]) else None)"

definition testBit :: "u64 list \<Rightarrow> nat \<Rightarrow> bool" where
  "testBit ws slot \<longleftrightarrow> ws ! (slot div 64) AND slotMask slot \<noteq> 0"

section \<open>Methods of a node\<close>

text \<open>The name comes from \<^verbatim>\<open>uuid.NewString()\<close>, which is the parameter \<open>uuid\<close>.\<close>

definition NewNode :: "string \<Rightarrow> int \<Rightarrow> string \<Rightarrow> int \<Rightarrow> bool \<Rightarrow> ClusterNode" where
  "NewNode uuid prt host fl temp =
     \<lparr>Name = (if temp then ''temp_'' @ uuid else uuid), Host = host, ClientPort = prt,
      ClusterBusPort = wrap64 (prt + CLUSTER_BUS_PORT_INCR), OwnedSlots = replicate SLOT_WORDS 0, NumSlots = 0,
      flags = fl, TCPhost = host, TCPport = prt, outbound = None, inbound = None,
      pongReceived = None, pingSent = None, balance = 0\<rparr>"

definition SetOwnedSlots :: "u64 list \<Rightarrow> ClusterNode \<Rightarrow> ClusterNode" where
  "SetOwnedSlots slots n = n\<lparr>OwnedSlots := slots, NumSlots := countSlots slots\<rparr>"

definition AddSlot :: "nat \<Rightarrow> ClusterNode \<Rightarrow> ClusterNode option" where
  "AddSlot slot n = do { ws \<leftarrow> setBit (OwnedSlots n) slot; Some (SetOwnedSlots ws n) }"

text \<open>The loop \<^verbatim>\<open>for slot := start; slot <= end; slot++\<close>; its callers pass \<open>0 \<le> start\<close>.\<close>

definition AddSlotRange :: "nat \<Rightarrow> nat \<Rightarrow> ClusterNode \<Rightarrow> ClusterNode option" where
  "AddSlotRange start end n =
     do { ws \<leftarrow> foldl (\<lambda>acc slot. do { ws \<leftarrow> acc; setBit ws slot }) (Some (OwnedSlots n)) [start..<Suc end];
          Some (SetOwnedSlots ws n) }"

definition RemoveSlot :: "nat \<Rightarrow> ClusterNode \<Rightarrow> ClusterNode option" where
  "RemoveSlot slot n = do { ws \<leftarrow> clearBit (OwnedSlots n) slot; Some (SetOwnedSlots ws n) }"

text \<open>\<open>TransferSlot n from slot\<close> returns the new \<open>n\<close> and the new \<open>from\<close>; they are different nodes.\<close>

definition TransferSlot :: "ClusterNode \<Rightarrow> ClusterNode \<Rightarrow> nat \<Rightarrow> (ClusterNode \<times> ClusterNode) option" where
  "TransferSlot n from slot =
     do { fws \<leftarrow> clearBit (OwnedSlots from) slot;
          nws \<leftarrow> setBit (OwnedSlots n) slot;
          Some (SetOwnedSlots nws n, SetOwnedSlots fws from) }"

definition MarkPongReceived :: "time \<Rightarrow> ClusterNode \<Rightarrow> ClusterNode" where
  "MarkPongReceived t n = n\<lparr>pongReceived := t, pingSent := None\<rparr>"

definition SetOutbound :: "linkRef option \<Rightarrow> ClusterNode \<Rightarrow> ClusterNode" where
  "SetOutbound l n = n\<lparr>outbound := l\<rparr>"

definition SetInbound :: "linkRef option \<Rightarrow> ClusterNode \<Rightarrow> ClusterNode" where
  "SetInbound l n = n\<lparr>inbound := l\<rparr>"

definition SetBalance :: "32 word \<Rightarrow> ClusterNode \<Rightarrow> ClusterNode" where
  "SetBalance b n = n\<lparr>balance := b\<rparr>"

definition SetPingSent :: "time \<Rightarrow> ClusterNode \<Rightarrow> ClusterNode" where
  "SetPingSent t n = n\<lparr>pingSent := t\<rparr>"

definition AdjustBalance :: "32 word \<Rightarrow> ClusterNode \<Rightarrow> ClusterNode" where
  "AdjustBalance delta n = n\<lparr>balance := balance n + delta\<rparr>"

definition UpdateGossip :: "string \<Rightarrow> int \<Rightarrow> int \<Rightarrow> int \<Rightarrow> ClusterNode \<Rightarrow> ClusterNode" where
  "UpdateGossip name clientPort clusterBusPort fl n =
     n\<lparr>Name := name, ClientPort := clientPort, TCPport := clientPort, ClusterBusPort := clusterBusPort, flags := fl\<rparr>"

definition UpdateMessage :: "string \<Rightarrow> int \<Rightarrow> int \<Rightarrow> int \<Rightarrow> u64 list \<Rightarrow> ClusterNode \<Rightarrow> ClusterNode" where
  "UpdateMessage name clientPort clusterBusPort fl slots n =
     n\<lparr>Name := name, ClientPort := clientPort, TCPport := clientPort, ClusterBusPort := clusterBusPort, flags := fl,
       OwnedSlots := slots, NumSlots := countSlots slots\<rparr>"

definition Snapshot :: "ClusterNode \<Rightarrow> NodeSnapshot" where
  "Snapshot n =
     \<lparr>snapName = Name n, snapHost = Host n, snapClientPort = ClientPort n, snapClusterBusPort = ClusterBusPort n,
      snapOwnedSlots = OwnedSlots n, snapNumSlots = NumSlots n, snapFlags = flags n, snapTCPPort = TCPport n,
      snapOutbound = outbound n, snapPingSent = pingSent n, snapPongReceived = pongReceived n\<rparr>"

text \<open>The loop of \<^verbatim>\<open>clusterComputeReshardTable\<close>: slots in ascending order until enough are found.\<close>

fun reshardLoop :: "u64 list \<Rightarrow> int \<Rightarrow> nat list \<Rightarrow> nat list \<Rightarrow> nat list" where
  "reshardLoop ws numslots [] moved = moved"
| "reshardLoop ws numslots (slot # rest) moved =
     (if \<not> testBit ws slot then reshardLoop ws numslots rest moved
      else if int (length moved) \<ge> numslots then moved
      else reshardLoop ws numslots rest (moved @ [slot]))"

definition clusterComputeReshardTable :: "int \<Rightarrow> ClusterNode \<Rightarrow> nat list" where
  "clusterComputeReshardTable numslots source =
     reshardLoop (OwnedSlots source) numslots [0..<CLUSTER_SLOTS] []"

section \<open>The bitmap as a set of slots\<close>

definition owned :: "u64 list \<Rightarrow> nat set" where
  "owned ws = {s. s div 64 < length ws \<and> bit (ws ! (s div 64)) (s mod 64)}"

definition node_wf :: "ClusterNode \<Rightarrow> bool" where
  "node_wf n \<longleftrightarrow> length (OwnedSlots n) = SLOT_WORDS \<and> NumSlots n = countSlots (OwnedSlots n)"

lemma bit_slotMask: "bit (slotMask s) i \<longleftrightarrow> i = s mod 64"
proof -
  have "s mod 64 < (64 :: nat)" by simp
  then show ?thesis unfolding slotMask_def bit_push_bit_iff bit_1_iff by auto
qed

lemma testBit_owned: "s div 64 < length ws \<Longrightarrow> testBit ws s \<longleftrightarrow> s \<in> owned ws"
proof -
  have "bit (w AND slotMask s) i \<longleftrightarrow> i = s mod 64 \<and> bit w (s mod 64)" for w i
    by (auto simp only: bit_and_iff bit_slotMask)
  then have "w AND slotMask s = 0 \<longleftrightarrow> \<not> bit w (s mod 64)" for w
    by (metis bit_0_eq bot_apply bot_bool_def bit_eqI)
  then show "s div 64 < length ws \<Longrightarrow> testBit ws s \<longleftrightarrow> s \<in> owned ws"
    by (simp add: testBit_def owned_def)
qed

lemma owned_bound: "length ws = 256 \<Longrightarrow> s \<in> owned ws \<Longrightarrow> s < 16384"
  by (auto simp: owned_def)

lemma owned_replicate [simp]: "owned (replicate n 0) = {}"
  by (simp add: owned_def)

text \<open>A slot is its word and its bit.\<close>

lemma slot_eq_iff: "s = (t :: nat) \<longleftrightarrow> s div 64 = t div 64 \<and> s mod 64 = t mod 64"
  by (metis div_mod_decomp)

lemma setBit_owned:
  assumes "setBit ws s = Some ws'"
  shows "owned ws' = insert s (owned ws)" "length ws' = length ws"
proof -
  have ws': "s div 64 < length ws" "ws' = ws[s div 64 := ws ! (s div 64) OR slotMask s]"
    using assms by (auto simp: setBit_def split: if_splits)
  show "owned ws' = insert s (owned ws)"
  proof (rule set_eqI)
    fix t
    show "t \<in> owned ws' \<longleftrightarrow> t \<in> insert s (owned ws)"
      using ws'(1) slot_eq_iff [of t s]
      by (cases "t div 64 = s div 64") (auto simp: ws'(2) owned_def nth_list_update bit_or_iff bit_slotMask)
  qed
  show "length ws' = length ws" by (simp add: ws'(2))
qed

lemma clearBit_owned:
  assumes "clearBit ws s = Some ws'"
  shows "owned ws' = owned ws - {s}" "length ws' = length ws"
proof -
  have ws': "s div 64 < length ws" "ws' = ws[s div 64 := ws ! (s div 64) AND NOT (slotMask s)]"
    using assms by (auto simp: clearBit_def split: if_splits)
  show "owned ws' = owned ws - {s}"
  proof (rule set_eqI)
    fix t
    have "t mod 64 < (64 :: nat)" by simp
    then show "t \<in> owned ws' \<longleftrightarrow> t \<in> owned ws - {s}"
      using ws'(1) slot_eq_iff [of t s]
      by (cases "t div 64 = s div 64")
        (auto simp: ws'(2) owned_def nth_list_update bit_and_iff bit_not_iff bit_slotMask)
  qed
  show "length ws' = length ws" by (simp add: ws'(2))
qed

lemma setBit_total: "s < 16384 \<Longrightarrow> length ws = 256 \<Longrightarrow> \<exists>ws'. setBit ws s = Some ws'"
  by (simp add: setBit_def)

lemma clearBit_total: "s < 16384 \<Longrightarrow> length ws = 256 \<Longrightarrow> \<exists>ws'. clearBit ws s = Some ws'"
  by (simp add: clearBit_def)

lemma owned_Cons: "owned (w # ws) = {i. i < 64 \<and> bit w i} \<union> (\<lambda>s. s + 64) ` owned ws"
proof (rule set_eqI)
  fix s
  show "s \<in> owned (w # ws) \<longleftrightarrow> s \<in> {i. i < 64 \<and> bit w i} \<union> (\<lambda>s. s + 64) ` owned ws"
  proof (cases "s < 64")
    case False
    then obtain t where t: "s = t + 64" by (metis add.commute le_Suc_ex not_less)
    have "(t + 64) div 64 = Suc (t div 64)" by simp
    then have "s \<in> owned (w # ws) \<longleftrightarrow> t \<in> owned ws" unfolding t owned_def by simp
    with t show ?thesis by (auto simp: image_iff)
  qed (auto simp: owned_def)
qed

lemma finite_owned [simp]: "finite (owned ws)"
  by (induction ws) (auto simp: owned_Cons, simp add: owned_def)

lemma foldl_add_int: "foldl (\<lambda>a w. a + int (f w)) c ws = c + foldl (\<lambda>a w. a + int (f w)) 0 ws"
proof (induction ws arbitrary: c)
  case (Cons w ws)
  show ?case using Cons [of "c + int (f w)"] Cons [of "int (f w)"] by simp
qed simp

lemma countSlots_card: "countSlots ws = int (card (owned ws))"
proof (induction ws)
  case Nil
  then show ?case by (simp add: countSlots_def owned_def)
next
  case (Cons w ws)
  have "OnesCount64 w = card {i. i < 64 \<and> bit w i}"
  proof -
    have "{i. i < 64 \<and> bit w i} = set (filter (bit w) [0..<64])" by auto
    then show ?thesis unfolding OnesCount64_def by (simp only: distinct_card distinct_filter distinct_upt)
  qed
  moreover have "card (owned (w # ws)) = card {i. i < 64 \<and> bit w i} + card (owned ws)"
    unfolding owned_Cons by (subst card_Un_disjoint) (auto simp: card_image)
  moreover have "countSlots (w # ws) = int (OnesCount64 w) + countSlots ws"
    using foldl_add_int [of OnesCount64 "int (OnesCount64 w)" ws] by (simp add: countSlots_def)
  ultimately show ?case using Cons by simp
qed

section \<open>Operations on a node as operations on its slots\<close>

definition slots_of :: "ClusterNode \<Rightarrow> nat set" where
  "slots_of n = owned (OwnedSlots n)"

lemma SetOwnedSlots_simps [simp]:
  "OwnedSlots (SetOwnedSlots ws n) = ws" "NumSlots (SetOwnedSlots ws n) = countSlots ws"
  "Name (SetOwnedSlots ws n) = Name n" "node_wf (SetOwnedSlots ws n) \<longleftrightarrow> length ws = 256"
  "slots_of (SetOwnedSlots ws n) = owned ws"
  by (simp_all add: SetOwnedSlots_def node_wf_def slots_of_def)

lemma node_wf_NumSlots: "node_wf n \<Longrightarrow> NumSlots n = int (card (slots_of n))"
  by (simp add: node_wf_def countSlots_card slots_of_def)

lemma finite_slots_of [simp]: "finite (slots_of n)"
  by (simp add: slots_of_def)

text \<open>The contract of an operation that edits one slot of one node.\<close>

locale slot_edit =
  fixes op :: "nat \<Rightarrow> ClusterNode \<Rightarrow> ClusterNode option" and eff :: "nat \<Rightarrow> nat set \<Rightarrow> nat set"
  assumes edit: "node_wf n \<Longrightarrow> s < 16384 \<Longrightarrow>
      \<exists>ws. op s n = Some (SetOwnedSlots ws n) \<and> length ws = 256 \<and> owned ws = eff s (slots_of n)"
begin

lemma edit_slots:
  assumes "node_wf n" "s < 16384"
  shows "\<exists>n'. op s n = Some n' \<and> node_wf n' \<and> slots_of n' = eff s (slots_of n) \<and> Name n' = Name n"
  using edit [OF assms] by fastforce

end

interpretation adds: slot_edit AddSlot insert
proof unfold_locales
  fix n s
  assume "node_wf n" "s < (16384 :: nat)"
  then obtain ws where "setBit (OwnedSlots n) s = Some ws" using setBit_total by (auto simp: node_wf_def)
  with setBit_owned [OF this] \<open>node_wf n\<close> show "\<exists>ws. AddSlot s n = Some (SetOwnedSlots ws n) \<and> length ws = 256
      \<and> owned ws = insert s (slots_of n)"
    by (auto simp: AddSlot_def node_wf_def slots_of_def)
qed

interpretation rems: slot_edit RemoveSlot "\<lambda>s A. A - {s}"
proof unfold_locales
  fix n s
  assume "node_wf n" "s < (16384 :: nat)"
  then obtain ws where "clearBit (OwnedSlots n) s = Some ws" using clearBit_total by (auto simp: node_wf_def)
  with clearBit_owned [OF this] \<open>node_wf n\<close> show "\<exists>ws. RemoveSlot s n = Some (SetOwnedSlots ws n) \<and> length ws = 256
      \<and> owned ws = slots_of n - {s}"
    by (auto simp: RemoveSlot_def node_wf_def slots_of_def)
qed

lemma setBits_fold:
  assumes "length ws = 256" "\<forall>s \<in> set ss. s < 16384"
  shows "\<exists>ws'. foldl (\<lambda>acc slot. do { ws \<leftarrow> acc; setBit ws slot }) (Some ws) ss = Some ws'
     \<and> length ws' = 256 \<and> owned ws' = owned ws \<union> set ss"
  using assms
proof (induction ss arbitrary: ws)
  case (Cons s ss)
  then obtain w1 where w1: "setBit ws s = Some w1" using setBit_total [of s ws] by auto
  note o = setBit_owned [OF w1]
  obtain ws' where "foldl (\<lambda>acc slot. do { ws \<leftarrow> acc; setBit ws slot }) (Some w1) ss = Some ws'"
     "length ws' = 256" "owned ws' = owned w1 \<union> set ss"
    using Cons.IH [of w1] Cons.prems o(2) by auto
  with w1 o show ?case by auto
qed simp

lemma AddSlotRange_spec:
  assumes "node_wf n" "b < 16384"
  shows "\<exists>n'. AddSlotRange a b n = Some n' \<and> node_wf n' \<and> slots_of n' = slots_of n \<union> {a..b} \<and> Name n' = Name n"
proof -
  have "\<forall>s \<in> set [a..<Suc b]. s < 16384" using assms(2) by (simp del: upt_Suc)
  then obtain ws where "foldl (\<lambda>acc slot. do { ws \<leftarrow> acc; setBit ws slot }) (Some (OwnedSlots n)) [a..<Suc b] = Some ws"
     "length ws = 256" "owned ws = owned (OwnedSlots n) \<union> set [a..<Suc b]"
    using setBits_fold [of "OwnedSlots n" "[a..<Suc b]"] assms(1) unfolding node_wf_def by blast
  moreover have "set [a..<Suc b] = {a..b}" by auto
  ultimately show ?thesis by (simp add: AddSlotRange_def slots_of_def)
qed

lemma reshardLoop_take:
  "reshardLoop ws k ss moved = moved @ take (nat k - length moved) (filter (testBit ws) ss)"
proof (induction ss arbitrary: moved)
  case (Cons s ss)
  show ?case
  proof (cases "testBit ws s \<and> int (length moved) < k")
    case True
    then have "length moved < nat k" by linarith
    then have "nat k - length moved = Suc (nat k - length (moved @ [s]))" by simp
    with Cons True show ?thesis by simp
  next
    case False
    with Cons show ?thesis by auto
  qed
qed simp

section \<open>Properties\<close>

text \<open>on a well-formed node AddSlot, RemoveSlot and AddSlotRange insert and remove exactly the slots
  they are given, whatever the word and bit, and NumSlots is afterwards the number of owned slots.\<close>

theorem slot_operations:
  assumes "node_wf n" "s < 16384" "b < 16384"
  shows "\<exists>n1 n2 n3. AddSlot s n = Some n1 \<and> slots_of n1 = insert s (slots_of n)
     \<and> RemoveSlot s n = Some n2 \<and> slots_of n2 = slots_of n - {s}
     \<and> AddSlotRange a b n = Some n3 \<and> slots_of n3 = slots_of n \<union> {a..b}
     \<and> (\<forall>m \<in> {n1, n2, n3}. node_wf m \<and> NumSlots m = int (card (slots_of m)))"
proof -
  obtain n1 where "AddSlot s n = Some n1" "node_wf n1" "slots_of n1 = insert s (slots_of n)"
    using adds.edit_slots [OF assms(1,2)] by blast
  moreover obtain n2 where "RemoveSlot s n = Some n2" "node_wf n2" "slots_of n2 = slots_of n - {s}"
    using rems.edit_slots [OF assms(1,2)] by blast
  moreover obtain n3 where "AddSlotRange a b n = Some n3" "node_wf n3" "slots_of n3 = slots_of n \<union> {a..b}"
    using AddSlotRange_spec [OF assms(1,3)] by blast
  ultimately show ?thesis using node_wf_NumSlots by (auto 4 4)
qed

lemma NewNode_wf: "node_wf (NewNode u p h f t)" "slots_of (NewNode u p h f t) = {}"
  by (simp_all add: NewNode_def node_wf_def countSlots_card slots_of_def)

theorem slot_operations_witness:
  "\<exists>n3. AddSlotRange 60 70 (NewNode ''id'' 7000 ''h'' 0 False) = Some n3 \<and> slots_of n3 = {60..70} \<and> NumSlots n3 = 11"
proof -
  obtain n3 where "AddSlotRange 60 70 (NewNode ''id'' 7000 ''h'' 0 False) = Some n3"
      "slots_of n3 = {60..70}" "NumSlots n3 = int (card (slots_of n3))"
    using slot_operations [OF NewNode_wf(1), of 0 70 "''id''" 7000 "''h''" 0 False 60] by (auto simp: NewNode_wf(2))
  then show ?thesis by auto
qed

text \<open>TransferSlot moves a slot from one node to another: if the giver owned it and the receiver did
  not, no slot is lost or owned twice and the total number of slots stays the same.\<close>

theorem TransferSlot_conserves:
  assumes "node_wf n" "node_wf from" "s \<in> slots_of from" "slots_of n \<inter> slots_of from = {}"
  shows "\<exists>n' from'. TransferSlot n from s = Some (n', from') \<and> node_wf n' \<and> node_wf from'
     \<and> slots_of n' = insert s (slots_of n) \<and> slots_of from' = slots_of from - {s}
     \<and> slots_of n' \<inter> slots_of from' = {} \<and> slots_of n' \<union> slots_of from' = slots_of n \<union> slots_of from
     \<and> NumSlots n' = NumSlots n + 1 \<and> NumSlots n' + NumSlots from' = NumSlots n + NumSlots from"
proof -
  have s: "s < 16384" using owned_bound assms(2,3) by (auto simp: node_wf_def slots_of_def)
  obtain ws where ws: "clearBit (OwnedSlots from) s = Some ws"
    using clearBit_total [OF s] assms(2) by (auto simp: node_wf_def)
  obtain ws' where ws': "setBit (OwnedSlots n) s = Some ws'"
    using setBit_total [OF s] assms(1) by (auto simp: node_wf_def)
  let ?n = "SetOwnedSlots ws' n" and ?f = "SetOwnedSlots ws from"
  have t: "TransferSlot n from s = Some (?n, ?f)" by (simp add: TransferSlot_def ws ws')
  have sl: "slots_of ?n = insert s (slots_of n)" "slots_of ?f = slots_of from - {s}"
    using setBit_owned [OF ws'] clearBit_owned [OF ws] by (simp_all add: slots_of_def)
  have wf: "node_wf ?n" "node_wf ?f"
    using setBit_owned [OF ws'] clearBit_owned [OF ws] assms(1,2) by (simp_all add: node_wf_def)
  have new: "s \<notin> slots_of n" using assms(3,4) by auto
  have c: "int (card (slots_of from - {s})) = int (card (slots_of from)) - 1"
    using card_Suc_Diff1 [of "slots_of from" s] assms(3) by simp
  have num: "NumSlots ?n = NumSlots n + 1" "NumSlots ?f = NumSlots from - 1"
    using node_wf_NumSlots [OF wf(1)] node_wf_NumSlots [OF wf(2)] node_wf_NumSlots [OF assms(1)]
      node_wf_NumSlots [OF assms(2)] new c unfolding sl by simp_all
  show ?thesis
    using t wf sl num new assms(3,4) by (intro exI [of _ ?n] exI [of _ ?f]) auto
qed

theorem TransferSlot_conserves_witness:
  "\<exists>a b c. AddSlot 100 (NewNode ''a'' 7000 ''h'' 0 False) = Some a
     \<and> TransferSlot (NewNode ''b'' 7001 ''h'' 0 False) a 100 = Some (b, c) \<and> slots_of b = {100} \<and> slots_of c = {}"
proof -
  obtain a where a: "AddSlot 100 (NewNode ''a'' 7000 ''h'' 0 False) = Some a" "node_wf a" "slots_of a = {100}"
    using adds.edit_slots [OF NewNode_wf(1), of 100 "''a''" 7000 "''h''" 0 False] by (auto simp: NewNode_wf(2))
  with TransferSlot_conserves [OF NewNode_wf(1) a(2), of 100 "''b''" 7001 "''h''" 0 False] show ?thesis
    by (auto simp: NewNode_wf(2))
qed

text \<open>the reshard table of a node is the lowest of its owned slots, in ascending order, as many as
  were asked for or all of them.\<close>

theorem reshard_table_spec:
  assumes "node_wf n"
  shows "clusterComputeReshardTable k n = take (nat k) (sorted_list_of_set (slots_of n))"
proof -
  have "filter (testBit (OwnedSlots n)) [0..<16384] = filter (\<lambda>s. s \<in> slots_of n) [0..<16384]"
    using assms by (intro filter_cong) (auto simp: testBit_owned node_wf_def slots_of_def)
  also have "\<dots> = sorted_list_of_set (set (filter (\<lambda>s. s \<in> slots_of n) [0..<16384]))"
    by (rule sorted_distinct_set_unique [symmetric])
      (simp_all add: sorted_wrt_filter del: set_filter)
  also have "set (filter (\<lambda>s. s \<in> slots_of n) [0..<16384]) = slots_of n"
    using assms owned_bound [of "OwnedSlots n"] by (auto simp: node_wf_def slots_of_def)
  finally show ?thesis
    by (simp add: clusterComputeReshardTable_def reshardLoop_take CLUSTER_SLOTS_def)
qed

theorem reshard_table_spec_witness:
  "\<exists>n. AddSlotRange 60 70 (NewNode ''id'' 7000 ''h'' 0 False) = Some n \<and> clusterComputeReshardTable 2 n = [60, 61]"
proof -
  obtain n where n: "AddSlotRange 60 70 (NewNode ''id'' 7000 ''h'' 0 False) = Some n" "node_wf n" "slots_of n = {60..70}"
    using AddSlotRange_spec [OF NewNode_wf(1), of 70 60 "''id''" 7000 "''h''" 0 False] by (auto simp: NewNode_wf(2))
  have "sorted_list_of_set {60..70 :: nat} = [60..<71]"
    by (metis atLeastLessThanSuc_atLeastAtMost eval_nat_numeral(3) numeral_eq_Suc pred_numeral_simps sorted_list_of_set_range)
  with n reshard_table_spec [OF n(2), of 2] show ?thesis by (simp add: upt_rec)
qed

end
