(* ===== verification/Cluster_State.thy ===== *)
theory Cluster_State
  imports Cluster_Node Go_Strconv
begin

text \<open>
  The view one server has of the cluster: \<^verbatim>\<open>utils/clusters/state.go\<close>, and \<^verbatim>\<open>ClusterSetSlot\<close> of \<^verbatim>\<open>cluster.go\<close>.

  Nodes and links are shared by pointer (a node is reached from \<^verbatim>\<open>Nodes\<close>, \<^verbatim>\<open>Self\<close>, \<^verbatim>\<open>Slots\<close> and its link,
  and an update through one of them is seen through all), so the state carries a store of nodes and a
  store of links. A nil pointer is \<^const>\<open>None\<close>; using it is a panic, the \<^const>\<open>None\<close> of the result. The runtime's
  choices are parameters: the order in which a map is iterated, \<^verbatim>\<open>rand.IntN\<close>, \<^verbatim>\<open>uuid.NewString\<close> and the clock.
\<close>

record clusterLink =
  lNode :: "nodeRef option"
  lInbound :: bool
  lHost :: "string option"
  lSend :: "string list"

record ClusterState =
  Self :: "nodeRef option"
  Nodes :: "(string, nodeRef option) gomap"
  Slots :: "nat \<Rightarrow> nodeRef option"
  clusterState :: int
  Importing :: "(int, nodeRef option) gomap"
  Migrating :: "(int, nodeRef option) gomap"
  store :: "nodeRef \<Rightarrow> ClusterNode"
  nextRef :: nodeRef
  links :: "linkRef \<Rightarrow> clusterLink"
  nextLink :: linkRef

type_synonym nodeIter = "(string, nodeRef option) gomap \<Rightarrow> string list"

section \<open>Pointers\<close>

definition deref :: "ClusterState \<Rightarrow> nodeRef option \<Rightarrow> ClusterNode option" where
  "deref s p = map_option (store s) p"

definition updNode :: "nodeRef \<Rightarrow> (ClusterNode \<Rightarrow> ClusterNode) \<Rightarrow> ClusterState \<Rightarrow> ClusterState" where
  "updNode r f s = s\<lparr>store := (store s)(r := f (store s r))\<rparr>"

definition allocNode :: "ClusterNode \<Rightarrow> ClusterState \<Rightarrow> ClusterState \<times> nodeRef" where
  "allocNode n s = (s\<lparr>store := (store s)(nextRef s := n), nextRef := nextRef s + 1\<rparr>, nextRef s)"

section \<open>\<^verbatim>\<open>state.go\<close>\<close>

definition GetNode :: "string \<Rightarrow> ClusterState \<Rightarrow> nodeRef option \<times> bool" where
  "GetNode name s = comma_ok (Nodes s) name None"

definition SetNode :: "nodeRef option \<Rightarrow> ClusterState \<Rightarrow> ClusterState option" where
  "SetNode p s = do { n \<leftarrow> deref s p; m \<leftarrow> assign (Nodes s) (Name n) p; Some (s\<lparr>Nodes := m\<rparr>) }"

definition DeleteNode :: "string \<Rightarrow> ClusterState \<Rightarrow> ClusterState" where
  "DeleteNode name s = s\<lparr>Nodes := remove (Nodes s) name\<rparr>"

fun firstOwner :: "ClusterState \<Rightarrow> nat \<Rightarrow> nodeRef option list \<Rightarrow> nodeRef option" where
  "firstOwner s slot [] = None"
| "firstOwner s slot (p # ps) =
     (case p of
        None \<Rightarrow> firstOwner s slot ps
      | Some r \<Rightarrow> if testBit (OwnedSlots (store s r)) slot then Some r else firstOwner s slot ps)"

definition rangeNodes :: "nodeIter \<Rightarrow> (string, nodeRef option) gomap \<Rightarrow> nodeRef option list" where
  "rangeNodes iter m = map (\<lambda>k. fst (comma_ok m k None)) (iter m)"

definition GetSlotOwner :: "nodeIter \<Rightarrow> nat \<Rightarrow> ClusterState \<Rightarrow> nodeRef option" where
  "GetSlotOwner iter slot s =
     (case Self s of
        Some r \<Rightarrow> if testBit (OwnedSlots (store s r)) slot then Some r
                  else firstOwner s slot (rangeNodes iter (Nodes s))
      | None \<Rightarrow> firstOwner s slot (rangeNodes iter (Nodes s)))"

definition SetSlotStable :: "int \<Rightarrow> ClusterState \<Rightarrow> ClusterState" where
  "SetSlotStable slot s = s\<lparr>Importing := remove (Importing s) slot, Migrating := remove (Migrating s) slot\<rparr>"

definition ImportingSlotsFrom :: "int \<Rightarrow> nodeRef option \<Rightarrow> ClusterState \<Rightarrow> ClusterState option" where
  "ImportingSlotsFrom slot p s = do { m \<leftarrow> assign (Importing s) slot p; Some (s\<lparr>Importing := m\<rparr>) }"

definition MigratingSlotsTo :: "int \<Rightarrow> nodeRef option \<Rightarrow> ClusterState \<Rightarrow> ClusterState option" where
  "MigratingSlotsTo slot p s = do { m \<leftarrow> assign (Migrating s) slot p; Some (s\<lparr>Migrating := m\<rparr>) }"

section \<open>\<^verbatim>\<open>SETSLOT\<close>\<close>

datatype setSlotError = BadSetSlotArgs | BadSlot | BadSlotRange | UnknownNode string | UnsupportedState string

fun setSlotError_text :: "setSlotError \<Rightarrow> string" where
  "setSlotError_text BadSetSlotArgs = ''invalid SETSLOT arguments''"
| "setSlotError_text BadSlot = ''invalid slot''"
| "setSlotError_text BadSlotRange = ''invalid slot range''"
| "setSlotError_text (UnknownNode n) = ''unknown node '' @ n"
| "setSlotError_text (UnsupportedState st) = ''unsupported SETSLOT state '' @ st"

text \<open>\<^verbatim>\<open>strings.ToLower\<close>: bytes below 128 are mapped here; \<open>unicodeLower\<close> stands for the Unicode tables.\<close>

definition ToLower :: "(string \<Rightarrow> string) \<Rightarrow> string \<Rightarrow> string" where
  "ToLower unicodeLower s =
     (if \<forall>c \<in> set s. of_char c < (128 :: nat) then map lower_byte s else unicodeLower s)"

definition setSlotNode :: "nat \<Rightarrow> nodeRef option \<Rightarrow> ClusterState \<Rightarrow> ClusterState option" where
  "setSlotNode slot p s =
     (let s1 = s\<lparr>Slots := (Slots s)(slot := p)\<rparr>
      in do { node \<leftarrow> deref s1 p;
              r \<leftarrow> Self s1;
              s2 \<leftarrow> (if Name node = Name (store s1 r) then
                       do { n' \<leftarrow> AddSlot slot (store s1 r); Some (updNode r (\<lambda>_. n') s1) }
                     else if testBit (OwnedSlots (store s1 r)) slot then
                       do { n' \<leftarrow> RemoveSlot slot (store s1 r); Some (updNode r (\<lambda>_. n') s1) }
                     else Some s1);
              Some (s2\<lparr>Importing := remove (Importing s2) (int slot), Migrating := remove (Migrating s2) (int slot)\<rparr>) })"

definition ClusterSetSlot ::
    "(string \<Rightarrow> string) \<Rightarrow> string list \<Rightarrow> ClusterState \<Rightarrow> (ClusterState \<times> setSlotError option) option" where
  "ClusterSetSlot unicodeLower args s =
     (case args of
        [a0, a1] \<Rightarrow>
          (if ToLower unicodeLower a1 \<noteq> ''stable'' then Some (s, Some BadSetSlotArgs)
           else case Atoi a0 of
                  Inl _ \<Rightarrow> Some (s, Some BadSlot)
                | Inr slot \<Rightarrow> if slot < 0 \<or> slot > 16383 then Some (s, Some BadSlotRange)
                              else Some (SetSlotStable slot s, None))
      | [a0, a1, nodeID] \<Rightarrow>
          (case Atoi a0 of
             Inl _ \<Rightarrow> Some (s, Some BadSlot)
           | Inr slot \<Rightarrow>
               if slot < 0 \<or> slot > 16383 then Some (s, Some BadSlotRange)
               else let st = ToLower unicodeLower a1; (node, ok) = GetNode nodeID s
                    in if \<not> ok then Some (s, Some (UnknownNode nodeID))
                       else if st = ''importing'' then
                         do { s' \<leftarrow> ImportingSlotsFrom slot node s; Some (s', None) }
                       else if st = ''migrating'' then
                         do { s' \<leftarrow> MigratingSlotsTo slot node s; Some (s', None) }
                       else if st = ''node'' then
                         do { s' \<leftarrow> setSlotNode (nat slot) node s; Some (s', None) }
                       else Some (s, Some (UnsupportedState st)))
      | _ \<Rightarrow> Some (s, Some BadSetSlotArgs))"

text \<open>The checks \<^verbatim>\<open>ClusterSetSlot\<close> makes before it first uses the state: without a cluster the state is nil, and only the
  refusals of these checks can be answered.\<close>

definition setSlotChecks :: "(string \<Rightarrow> string) \<Rightarrow> string list \<Rightarrow> setSlotError option" where
  "setSlotChecks unicodeLower args =
     (if length args = 2 \<and> ToLower unicodeLower (args ! 1) \<noteq> ''stable'' then Some BadSetSlotArgs
      else if length args \<noteq> 2 \<and> length args \<noteq> 3 then Some BadSetSlotArgs
      else case Atoi (args ! 0) of
             Inl _ \<Rightarrow> Some BadSlot
           | Inr slot \<Rightarrow> if slot < 0 \<or> slot > 16383 then Some BadSlotRange else None)"

lemma setSlotChecks_refuse:
  "setSlotChecks ul args = Some e \<Longrightarrow> ClusterSetSlot ul args s = Some (s, Some e)"
  by (auto simp: setSlotChecks_def ClusterSetSlot_def length_Suc_conv numeral_2_eq_2 numeral_3_eq_3
      split: list.splits sum.splits if_splits)

section \<open>Well-formed states\<close>

text \<open>Every node is filed under its own name, no pointer is nil, every bitmap is whole.\<close>

definition cs_wf :: "ClusterState \<Rightarrow> bool" where
  "cs_wf s \<longleftrightarrow> (\<exists>r < nextRef s. Self s = Some r)
     \<and> Nodes s \<noteq> NilMap \<and> gm_wf (Nodes s) \<and> Importing s \<noteq> NilMap \<and> Migrating s \<noteq> NilMap
     \<and> (\<forall>name p. lookup (Nodes s) name = Some p \<longrightarrow> (\<exists>r < nextRef s. p = Some r \<and> Name (store s r) = name))
     \<and> (\<forall>r < nextRef s. node_wf (store s r))"

definition self_ref :: "ClusterState \<Rightarrow> nodeRef" where
  "self_ref s = the (Self s)"

definition known :: "ClusterState \<Rightarrow> nodeRef set" where
  "known s = {r. Some r \<in> ran (lookup (Nodes s))}"

lemma cs_wfD:
  assumes "cs_wf s"
  shows "Self s = Some (self_ref s)" "self_ref s < nextRef s" "Nodes s \<noteq> NilMap" "gm_wf (Nodes s)"
    "Importing s \<noteq> NilMap" "Migrating s \<noteq> NilMap"
    "lookup (Nodes s) name = Some p \<Longrightarrow> \<exists>r < nextRef s. p = Some r \<and> Name (store s r) = name"
    "r < nextRef s \<Longrightarrow> node_wf (store s r)"
  using assms unfolding cs_wf_def self_ref_def by auto

lemma known_wf: "cs_wf s \<Longrightarrow> r \<in> known s \<Longrightarrow> r < nextRef s \<and> lookup (Nodes s) (Name (store s r)) = Some (Some r)"
  by (auto simp: known_def ran_def dest: cs_wfD(7))

lemma node_testBit: "node_wf n \<Longrightarrow> slot < 16384 \<Longrightarrow> testBit (OwnedSlots n) slot \<longleftrightarrow> slot \<in> slots_of n"
  by (simp add: node_wf_def testBit_owned slots_of_def)

lemma set_rangeNodes:
  assumes "is_iteration iter" shows "set (rangeNodes iter m) = ran (lookup m)"
proof -
  have "set (iter m) = dom (lookup m)"
    using assms mset_eq_setD [of "iter m" "keys m"] by (simp add: is_iteration_def set_keys)
  then have "set (rangeNodes iter m) = (\<lambda>k. the (lookup m k)) ` dom (lookup m)"
    by (auto simp: rangeNodes_def comma_ok_def intro!: image_cong)
  also have "\<dots> = ran (lookup m)" by (auto simp: ran_def dom_def image_def)
  finally show ?thesis .
qed

lemma firstOwner_Some: "firstOwner s slot ps = Some r \<Longrightarrow> Some r \<in> set ps \<and> testBit (OwnedSlots (store s r)) slot"
  by (induction ps) (auto split: option.splits if_splits)

lemma firstOwner_None: "firstOwner s slot ps = None \<longleftrightarrow> (\<forall>r. Some r \<in> set ps \<longrightarrow> \<not> testBit (OwnedSlots (store s r)) slot)"
  by (induction ps) (auto split: option.splits if_splits)

definition owners :: "ClusterState \<Rightarrow> nat \<Rightarrow> nodeRef set" where
  "owners s slot = {r \<in> insert (self_ref s) (known s). slot \<in> slots_of (store s r)}"

lemma GetSlotOwner_facts:
  assumes wf: "cs_wf s" and it: "is_iteration iter" and slot: "slot < 16384"
  shows "GetSlotOwner iter slot s = Some r \<Longrightarrow> r \<in> owners s slot"
    and "GetSlotOwner iter slot s = None \<longleftrightarrow> owners s slot = {}"
    and "self_ref s \<in> owners s slot \<Longrightarrow> GetSlotOwner iter slot s = Some (self_ref s)"
proof -
  note self = cs_wfD(1,2) [OF wf]
  have tb: "testBit (OwnedSlots (store s r)) slot \<longleftrightarrow> slot \<in> slots_of (store s r)" if "r < nextRef s" for r
    using node_testBit cs_wfD(8) [OF wf that] slot by blast
  have kn: "Some r \<in> set (rangeNodes iter (Nodes s)) \<longleftrightarrow> r \<in> known s" for r
    by (simp add: set_rangeNodes [OF it] known_def)
  show "GetSlotOwner iter slot s = Some r \<Longrightarrow> r \<in> owners s slot"
    using tb known_wf [OF wf] self
    by (auto simp: GetSlotOwner_def owners_def kn split: if_splits dest!: firstOwner_Some)
  show "GetSlotOwner iter slot s = None \<longleftrightarrow> owners s slot = {}"
    using tb known_wf [OF wf] self
    by (auto simp: GetSlotOwner_def owners_def firstOwner_None kn)
  show "self_ref s \<in> owners s slot \<Longrightarrow> GetSlotOwner iter slot s = Some (self_ref s)"
    using tb self by (auto simp: GetSlotOwner_def owners_def)
qed

lemma cs_wf_updNode:
  assumes "cs_wf s" "Name (f (store s r)) = Name (store s r)" "r < nextRef s \<Longrightarrow> node_wf (f (store s r))"
  shows "cs_wf (updNode r f s)"
proof -
  have "Name (store (updNode r f s) r') = Name (store s r')" for r'
    using assms(2) by (simp add: updNode_def)
  moreover have "r' < nextRef s \<Longrightarrow> node_wf (store (updNode r f s) r')" for r'
    using assms(1,3) cs_wfD(8) by (simp add: updNode_def)
  ultimately show ?thesis using assms(1) unfolding cs_wf_def by (simp add: updNode_def) 
qed

lemma cs_wf_maps:
  assumes "cs_wf s" "m \<noteq> NilMap" "m' \<noteq> NilMap"
  shows "cs_wf (s\<lparr>Importing := m, Migrating := m'\<rparr>)" "cs_wf (s\<lparr>Importing := m\<rparr>)" "cs_wf (s\<lparr>Migrating := m'\<rparr>)"
    "cs_wf (s\<lparr>Slots := f\<rparr>)"
  using assms unfolding cs_wf_def by simp_all

text \<open>The edit of our own node that \<^verbatim>\<open>SETSLOT NODE\<close> makes.\<close>

definition ownEdit :: "bool \<Rightarrow> nat \<Rightarrow> ClusterNode \<Rightarrow> ClusterNode option" where
  "ownEdit me slot n =
     (if me then AddSlot slot n else if testBit (OwnedSlots n) slot then RemoveSlot slot n else Some n)"

lemma ownEdit_spec:
  assumes "node_wf n" "slot < 16384"
  shows "\<exists>n'. ownEdit me slot n = Some n' \<and> node_wf n' \<and> Name n' = Name n
     \<and> slots_of n' = (if me then insert slot (slots_of n) else slots_of n - {slot})"
  using adds.edit_slots [OF assms] rems.edit_slots [OF assms] node_testBit [OF assms] assms(1)
  by (auto simp: ownEdit_def)

definition finishSlot :: "nat \<Rightarrow> nodeRef \<Rightarrow> ClusterNode \<Rightarrow> ClusterState \<Rightarrow> ClusterState" where
  "finishSlot slot r n' s =
     (updNode (self_ref s) (\<lambda>_. n') (s\<lparr>Slots := (Slots s)(slot \<mapsto> r)\<rparr>))
       \<lparr>Importing := remove (Importing s) (int slot), Migrating := remove (Migrating s) (int slot)\<rparr>"

lemma setSlotNode_eq:
  assumes "Self s = Some (self_ref s)"
    and "ownEdit (Name (store s r) = Name (store s (self_ref s))) slot (store s (self_ref s)) = Some n'"
  shows "setSlotNode slot (Some r) s = Some (finishSlot slot r n' s)"
  using assms unfolding setSlotNode_def ownEdit_def finishSlot_def Let_def deref_def
  by (simp add: updNode_def fun_upd_idem split: if_splits)

lemma finishSlot_wf:
  assumes "cs_wf s" "node_wf n'" "Name n' = Name (store s (self_ref s))"
  shows "cs_wf (finishSlot slot r n' s)"
proof -
  have 1: "cs_wf (s\<lparr>Slots := (Slots s)(slot \<mapsto> r)\<rparr>)"
    by (rule cs_wf_maps(4) [OF assms(1) cs_wfD(5) [OF assms(1)] cs_wfD(6) [OF assms(1)]])
  have 2: "cs_wf (updNode (self_ref s) (\<lambda>_. n') (s\<lparr>Slots := (Slots s)(slot \<mapsto> r)\<rparr>))"
    by (rule cs_wf_updNode [OF 1]) (use assms(2,3) in simp_all)
  show ?thesis unfolding finishSlot_def
    by (rule cs_wf_maps(1) [OF 2]) (use cs_wfD(5,6) [OF assms(1)] in simp_all)
qed

lemma finishSlot_simps [simp]:
  "self_ref (finishSlot slot r n' s) = self_ref s" "Nodes (finishSlot slot r n' s) = Nodes s"
  "Slots (finishSlot slot r n' s) = (Slots s)(slot \<mapsto> r)"
  "store (finishSlot slot r n' s) = (store s)(self_ref s := n')"
  "lookup (Importing (finishSlot slot r n' s)) = (lookup (Importing s))(int slot := None)"
  "lookup (Migrating (finishSlot slot r n' s)) = (lookup (Migrating s))(int slot := None)"
  by (simp_all add: finishSlot_def updNode_def self_ref_def)

lemma setSlotNode_spec:
  assumes wf: "cs_wf s" and slot: "slot < 16384"
  shows "\<exists>n'. setSlotNode slot (Some r) s = Some (finishSlot slot r n' s) \<and> cs_wf (finishSlot slot r n' s)
     \<and> slots_of n' = (if Name (store s r) = Name (store s (self_ref s))
         then insert slot (slots_of (store s (self_ref s))) else slots_of (store s (self_ref s)) - {slot})"
proof -
  have "node_wf (store s (self_ref s))" by (rule cs_wfD(8) [OF wf cs_wfD(2) [OF wf]])
  from ownEdit_spec [OF this slot, of "Name (store s r) = Name (store s (self_ref s))"]
  obtain n' where n': "ownEdit (Name (store s r) = Name (store s (self_ref s))) slot (store s (self_ref s)) = Some n'"
    "node_wf n'" "Name n' = Name (store s (self_ref s))"
    "slots_of n' = (if Name (store s r) = Name (store s (self_ref s))
         then insert slot (slots_of (store s (self_ref s))) else slots_of (store s (self_ref s)) - {slot})"
    by blast
  show ?thesis
    using setSlotNode_eq [OF cs_wfD(1) [OF wf] n'(1)] finishSlot_wf [OF wf n'(2,3)] n'(4) by blast
qed

section \<open>Properties\<close>

text \<open>the owner the router finds for a slot really owns it, there is none exactly when no known node
  owns the slot, a slot of our own is always served here, and with at most one owner the answer does not
  depend on the order in which the node map is iterated.\<close>

theorem GetSlotOwner_spec:
  assumes "cs_wf s" "is_iteration iter" "slot < 16384"
  shows "(\<forall>r. GetSlotOwner iter slot s = Some r \<longrightarrow> r \<in> owners s slot)
     \<and> (GetSlotOwner iter slot s = None \<longleftrightarrow> owners s slot = {})
     \<and> (self_ref s \<in> owners s slot \<longrightarrow> GetSlotOwner iter slot s = Some (self_ref s))
     \<and> (owners s slot = {r} \<longrightarrow> GetSlotOwner iter slot s = Some r)"
proof -
  note f = GetSlotOwner_facts [OF assms]
  have "GetSlotOwner iter slot s = Some r" if "owners s slot = {r}"
    using f(1) f(2) that by (cases "GetSlotOwner iter slot s") auto
  with f show ?thesis by blast
qed

definition initState :: "ClusterNode \<Rightarrow> ClusterState" where
  "initState self = \<lparr>Self = Some 0, Nodes = GoMap [(Name self, Some 0)], Slots = (\<lambda>_. None), clusterState = 0,
     Importing = GoMap [], Migrating = GoMap [], store = (\<lambda>_. self), nextRef = 1,
     links = (\<lambda>_. \<lparr>lNode = None, lInbound = False, lHost = None, lSend = []\<rparr>), nextLink = 0\<rparr>"

lemma initState_wf: "node_wf self \<Longrightarrow> cs_wf (initState self)"
  by (auto simp: cs_wf_def initState_def gm_wf_def keys_def lookup_def)

theorem GetSlotOwner_spec_witness:
  "GetSlotOwner keys 42 (initState (NewNode ''id'' 7000 ''h'' 0 False)) = None"
proof -
  have "owners (initState (NewNode ''id'' 7000 ''h'' 0 False)) 42 = {}"
    by (auto simp: owners_def initState_def NewNode_wf)
  then show ?thesis
    using GetSlotOwner_spec [OF initState_wf [OF NewNode_wf(1)] is_iteration_keys, of 42 "''id''" 7000 "''h''" 0 False]
    by simp
qed

text \<open>C36: SETSLOT slot NODE id with a known id does not panic, records the owner, adds the slot to our own
  bitmap if the id is ours and takes it out otherwise, ends the import and the migration of the
  slot, and touches no other node; afterwards we serve the slot exactly if it was given to us.\<close>

theorem SetSlot_node:
  assumes "cs_wf s" "Atoi a0 = Inr slot" "0 \<le> slot" "slot \<le> 16383" "ToLower ul a1 = ''node''"
    and "lookup (Nodes s) nodeID = Some (Some r)"
  shows "\<exists>s'. ClusterSetSlot ul [a0, a1, nodeID] s = Some (s', None) \<and> cs_wf s' \<and> self_ref s' = self_ref s
     \<and> Slots s' (nat slot) = Some r
     \<and> (nat slot \<in> slots_of (store s' (self_ref s)) \<longleftrightarrow> nodeID = Name (store s (self_ref s)))
     \<and> (\<forall>t. t \<noteq> nat slot \<longrightarrow> (t \<in> slots_of (store s' (self_ref s)) \<longleftrightarrow> t \<in> slots_of (store s (self_ref s))))
     \<and> (\<forall>r'. r' \<noteq> self_ref s \<longrightarrow> store s' r' = store s r')
     \<and> lookup (Importing s') slot = None \<and> lookup (Migrating s') slot = None
     \<and> (is_iteration iter \<and> nodeID = Name (store s (self_ref s)) \<longrightarrow>
          GetSlotOwner iter (nat slot) s' = Some (self_ref s))"
proof -
  have r: "r < nextRef s" "Name (store s r) = nodeID" using cs_wfD(7) [OF assms(1,6)] by auto
  have n: "nat slot < 16384" "int (nat slot) = slot" using assms(3,4) by simp_all
  obtain n' where s': "setSlotNode (nat slot) (Some r) s = Some (finishSlot (nat slot) r n' s)"
    "cs_wf (finishSlot (nat slot) r n' s)"
    "slots_of n' = (if nodeID = Name (store s (self_ref s))
       then insert (nat slot) (slots_of (store s (self_ref s))) else slots_of (store s (self_ref s)) - {nat slot})"
    using setSlotNode_spec [OF assms(1) n(1), of r] unfolding r(2) by blast
  have run: "ClusterSetSlot ul [a0, a1, nodeID] s = Some (finishSlot (nat slot) r n' s, None)"
    using assms(2-6) s'(1) by (simp add: ClusterSetSlot_def GetNode_def comma_ok_def)
  have own: "GetSlotOwner iter (nat slot) (finishSlot (nat slot) r n' s) = Some (self_ref s)"
    if "is_iteration iter" "nodeID = Name (store s (self_ref s))"
    using GetSlotOwner_facts(3) [OF s'(2) that(1) n(1)] s'(3) that(2) by (simp add: owners_def)
  show ?thesis
    by (rule exI [of _ "finishSlot (nat slot) r n' s"]) (use run s'(2,3) own n(2) in simp)
qed

theorem SetSlot_node_witness:
  "\<exists>s'. ClusterSetSlot id [''42'', ''NODE'', ''id''] (initState (NewNode ''id'' 7000 ''h'' 0 False)) = Some (s', None)
     \<and> 42 \<in> slots_of (store s' 0)"
proof -
  let ?s = "initState (NewNode ''id'' 7000 ''h'' 0 False)"
  have a: "Atoi ''42'' = Inr 42" by (simp add: strconv_eval)
  have l: "ToLower id ''NODE'' = ''node''" by code_simp
  have s: "lookup (Nodes ?s) ''id'' = Some (Some 0)" "self_ref ?s = 0" "Name (store ?s 0) = ''id''"
    by (simp_all add: initState_def NewNode_def lookup_def self_ref_def)
  have wf: "cs_wf ?s" by (rule initState_wf [OF NewNode_wf(1)])
  have "nat (42 :: int) = 42" by simp
  with SetSlot_node [OF wf a _ _ l s(1)] s(2,3) show ?thesis by force
qed

lemma SetSlot_cases:
  assumes "length args = 3 \<longrightarrow> ToLower ul (args ! 1) \<noteq> ''node''"
  obtains (refused) e where "ClusterSetSlot ul args s = Some (s, Some e)"
  | (stable) slot where "ClusterSetSlot ul args s = Some (SetSlotStable slot s, None)"
  | (importing) slot name p where "lookup (Nodes s) name = Some p"
      "ClusterSetSlot ul args s = map_option (\<lambda>s'. (s', None)) (ImportingSlotsFrom slot p s)"
  | (migrating) slot name p where "lookup (Nodes s) name = Some p"
      "ClusterSetSlot ul args s = map_option (\<lambda>s'. (s', None)) (MigratingSlotsTo slot p s)"
proof -
  consider a0 a1 where "args = [a0, a1]" | a0 a1 a2 where "args = [a0, a1, a2]"
    | "ClusterSetSlot ul args s = Some (s, Some BadSetSlotArgs)"
    by (cases args rule: list.exhaust; cases "tl args" rule: list.exhaust; cases "tl (tl args)" rule: list.exhaust;
        cases "tl (tl (tl args))" rule: list.exhaust) (auto simp: ClusterSetSlot_def)
  then show thesis
  proof cases
    case 1
    then have "(\<exists>e. ClusterSetSlot ul args s = Some (s, Some e))
        \<or> (\<exists>slot. ClusterSetSlot ul args s = Some (SetSlotStable slot s, None))"
      by (auto simp: ClusterSetSlot_def split: sum.splits)
    then show thesis using refused stable by blast
  next
    case 2
    have bind: "do { s' \<leftarrow> x; Some (s', None) } = map_option (\<lambda>s'. (s', None)) x" for x :: "ClusterState option"
      by (cases x) auto
    show thesis
    proof (cases "Atoi a0")
      case (Inr slot)
      show thesis
      proof (cases "slot < 0 \<or> slot > 16383 \<or> lookup (Nodes s) a2 = None")
        case True
        then have "\<exists>e. ClusterSetSlot ul args s = Some (s, Some e)"
          using 2 Inr by (auto simp: ClusterSetSlot_def GetNode_def comma_ok_def)
        then show thesis using refused by blast
      next
        case False
        then obtain p where p: "lookup (Nodes s) a2 = Some p" by auto
        have "ClusterSetSlot ul args s =
            (if ToLower ul a1 = ''importing'' then map_option (\<lambda>s'. (s', None)) (ImportingSlotsFrom slot p s)
             else if ToLower ul a1 = ''migrating'' then map_option (\<lambda>s'. (s', None)) (MigratingSlotsTo slot p s)
             else Some (s, Some (UnsupportedState (ToLower ul a1))))"
          using 2 Inr assms False p by (simp add: ClusterSetSlot_def GetNode_def comma_ok_def bind Let_def)
        then show thesis using refused importing [OF p] migrating [OF p] by metis
      qed
    qed (use 2 refused in \<open>simp add: ClusterSetSlot_def\<close>)
  qed (rule refused)
qed

lemma ran_upd: "p \<in> ran (f(k := x)) \<Longrightarrow> p \<in> ran f \<or> x = Some p"
  by (auto simp: ran_def split: if_splits)

text \<open>every other SETSLOT is either refused with the state unchanged, or only marks the slot: STABLE
  clears both marks, IMPORTING and MIGRATING record a known node; none of them changes who owns what,
  and none panics on a well-formed state.\<close>

theorem SetSlot_marks:
  assumes "cs_wf s" "length args = 3 \<longrightarrow> ToLower ul (args ! 1) \<noteq> ''node''"
  shows "\<exists>s' e. ClusterSetSlot ul args s = Some (s', e) \<and> cs_wf s' \<and> (e \<noteq> None \<longrightarrow> s' = s)
     \<and> Nodes s' = Nodes s \<and> store s' = store s \<and> Slots s' = Slots s \<and> Self s' = Self s
     \<and> (\<forall>p. p \<in> ran (lookup (Importing s')) \<or> p \<in> ran (lookup (Migrating s')) \<longrightarrow>
          p \<in> ran (lookup (Importing s)) \<or> p \<in> ran (lookup (Migrating s)) \<or> p \<in> Some ` known s)"
proof (rule SetSlot_cases [OF assms(2), of s])
  fix e
  assume "ClusterSetSlot ul args s = Some (s, Some e)"
  then show ?thesis using assms(1) by auto
next
  fix slot
  assume "ClusterSetSlot ul args s = Some (SetSlotStable slot s, None)"
  moreover have "cs_wf (SetSlotStable slot s)"
    unfolding SetSlotStable_def by (rule cs_wf_maps(1) [OF assms(1)]) (use cs_wfD(5,6) [OF assms(1)] in simp_all)
  ultimately show ?thesis by (auto simp: SetSlotStable_def dest!: ran_upd)
next
  fix slot name p
  assume p: "lookup (Nodes s) name = Some p"
    "ClusterSetSlot ul args s = map_option (\<lambda>s'. (s', None)) (ImportingSlotsFrom slot p s)"
  obtain m where m: "assign (Importing s) slot p = Some m" "m \<noteq> NilMap"
    using assign_total [OF cs_wfD(5) [OF assms(1)]] by blast
  have "p \<in> Some ` known s" using cs_wfD(7) [OF assms(1) p(1)] p(1) by (force simp: known_def ran_def)
  moreover have "cs_wf (s\<lparr>Importing := m\<rparr>)" by (rule cs_wf_maps(2) [OF assms(1) m(2) m(2)])
  ultimately show ?thesis
    using p(2) m(1) lookup_assign [OF m(1)] by (auto simp: ImportingSlotsFrom_def dest!: ran_upd)
next
  fix slot name p
  assume p: "lookup (Nodes s) name = Some p"
    "ClusterSetSlot ul args s = map_option (\<lambda>s'. (s', None)) (MigratingSlotsTo slot p s)"
  obtain m where m: "assign (Migrating s) slot p = Some m" "m \<noteq> NilMap"
    using assign_total [OF cs_wfD(6) [OF assms(1)]] by blast
  have "p \<in> Some ` known s" using cs_wfD(7) [OF assms(1) p(1)] p(1) by (force simp: known_def ran_def)
  moreover have "cs_wf (s\<lparr>Migrating := m\<rparr>)" by (rule cs_wf_maps(3) [OF assms(1) m(2) m(2)])
  ultimately show ?thesis
    using p(2) m(1) lookup_assign [OF m(1)] by (auto simp: MigratingSlotsTo_def dest!: ran_upd)
qed

theorem SetSlot_marks_witness:
  "\<exists>s' e. ClusterSetSlot id [''7'', ''IMPORTING'', ''nobody''] (initState (NewNode ''id'' 7000 ''h'' 0 False)) = Some (s', e)
     \<and> cs_wf s'"
proof -
  have l: "ToLower id ''IMPORTING'' = ''importing''" by code_simp
  then show ?thesis
    using SetSlot_marks [OF initState_wf [OF NewNode_wf(1)], of "[''7'', ''IMPORTING'', ''nobody'']" id "''id''" 7000 "''h''" 0 False]
    by fastforce
qed

end
