(* ===== verification/Cluster_Gossip.thy ===== *)
theory Cluster_Gossip
  imports Cluster_State
begin

text \<open>
  The cluster bus: \<^verbatim>\<open>clusterMsgBuildHdr\<close> (\<^verbatim>\<open>message.go\<close>), \<^verbatim>\<open>clusterSetGossipEntry\<close>, \<^verbatim>\<open>clusterProcessGossip\<close> and
  \<^verbatim>\<open>clusterProcessMsg\<close> (\<^verbatim>\<open>gossip.go\<close>), \<^verbatim>\<open>clusterSendPing\<close> and \<^verbatim>\<open>getRandomNode\<close> (\<^verbatim>\<open>cluster.go\<close>).

  The record \<open>env\<close> holds the choices of the runtime: \<open>rnd i n\<close> is the value of the \<open>i\<close>-th call of
  \<^verbatim>\<open>rand.IntN(n)\<close>, and \<open>order i\<close> the order of the \<open>i\<close>-th iteration over the node map; \<open>env_ok\<close> is what the
  language and \<^verbatim>\<open>math/rand\<close> promise of them. A message written to the \<^verbatim>\<open>send\<close> channel of a
  link is appended to its queue (the writer goroutine drains it; waiting for room is not modelled).
\<close>

record env =
  rnd :: "nat \<Rightarrow> nat \<Rightarrow> nat"
  order :: "nat \<Rightarrow> nodeIter"

definition env_ok :: "env \<Rightarrow> bool" where
  "env_ok e \<longleftrightarrow> (\<forall>i. is_iteration (order e i)) \<and> (\<forall>i n. 0 < n \<longrightarrow> rnd e i n < n)"

section \<open>Sending\<close>

definition CLUSTERMSG_TYPE_PING :: int where "CLUSTERMSG_TYPE_PING = 0"
definition CLUSTERMSG_TYPE_PONG :: int where "CLUSTERMSG_TYPE_PONG = 1"

definition clusterMsgBuildHdr :: "int \<Rightarrow> ClusterState \<Rightarrow> clusterMsg option" where
  "clusterMsgBuildHdr messageType s =
     do { self \<leftarrow> deref s (Self s);
          Some (let snap = Snapshot self
                in \<lparr>Sig = ''RCmb'', msgType = of_int messageType, totLen = 0, msgCount = 0,
                    port = of_int (snapClientPort snap), sender = snapName snap,
                    cport = of_int (snapClusterBusPort snap), msgFlags = of_int (snapFlags snap),
                    msgState = clusterState s, msgSlots = snapOwnedSlots snap, Gossip = []\<rparr>) }"

text \<open>A time that is not zero is sent as its Unix second, truncated to 32 bits.\<close>

definition timeField :: "time \<Rightarrow> u32" where
  "timeField t = (case t of None \<Rightarrow> 0 | Some sec \<Rightarrow> of_int sec)"

definition gossipEntry :: "NodeSnapshot \<Rightarrow> clusterMsgDataGossip" where
  "gossipEntry n =
     \<lparr>nodeName = snapName n, g_cport = of_int (snapClusterBusPort n), g_port = of_int (snapTCPPort n),
      g_flags = of_int (snapFlags n), g_pingSent = timeField (snapPingSent n),
      g_pongReceived = timeField (snapPongReceived n)\<rparr>"

definition clusterSetGossipEntry :: "clusterMsg \<Rightarrow> NodeSnapshot \<Rightarrow> clusterMsg" where
  "clusterSetGossipEntry hdr n = hdr\<lparr>Gossip := Gossip hdr @ [gossipEntry n]\<rparr>"

text \<open>\<open>n\<close> is the result of \<^verbatim>\<open>rand.IntN(len(nodes))\<close>; the loop stops at the \<open>n\<close>-th node of the iteration.\<close>

definition getRandomNode :: "nodeIter \<Rightarrow> nat \<Rightarrow> (string, nodeRef option) gomap \<Rightarrow> nodeRef option" where
  "getRandomNode iter n nodes =
     (let ps = rangeNodes iter nodes in if n < length ps then ps ! n else None)"

text \<open>The selection loop; its first argument counts \<^verbatim>\<open>maxIterations\<close> down and bounds the recursion.\<close>

fun pingLoop :: "nat \<Rightarrow> env \<Rightarrow> ClusterState \<Rightarrow> nodeRef option \<Rightarrow> int \<Rightarrow> int \<Rightarrow> int \<Rightarrow> string list \<Rightarrow> clusterMsg
    \<Rightarrow> (clusterMsg \<times> int) option" where
  "pingLoop 0 e s linkNode fresh wanted cnt selected hdr = Some (hdr, cnt)"
| "pingLoop (Suc maxIterations) e s linkNode fresh wanted cnt selected hdr =
     (if \<not> (fresh > 0 \<and> cnt < wanted) then Some (hdr, cnt)
      else let cur = getRandomNode (order e maxIterations) (rnd e maxIterations (len (Nodes s))) (Nodes s)
           in if cur = Self s \<or> cur = linkNode
              then pingLoop maxIterations e s linkNode fresh wanted cnt selected hdr
              else do { node \<leftarrow> deref s cur;
                        let snap = Snapshot node
                        in if snapName snap \<in> set selected
                           then pingLoop maxIterations e s linkNode fresh wanted cnt selected hdr
                           else pingLoop maxIterations e s linkNode (fresh - 1) wanted (cnt + 1)
                                  (snapName snap # selected) (clusterSetGossipEntry hdr snap) })"

definition updLink :: "linkRef \<Rightarrow> (clusterLink \<Rightarrow> clusterLink) \<Rightarrow> ClusterState \<Rightarrow> ClusterState" where
  "updLink l f s = s\<lparr>links := (links s)(l := f (links s l))\<rparr>"

definition clusterSendPing :: "env \<Rightarrow> int \<Rightarrow> linkRef \<Rightarrow> int \<Rightarrow> ClusterState \<Rightarrow> ClusterState option" where
  "clusterSendPing e now l messageType s =
     (let fresh = int (len (Nodes s)) - 1;
          w = int (len (Nodes s)) div 10;
          w1 = (if w < 3 then 3 else w);
          wanted = (if w1 = fresh then fresh else w1)
      in do { hdr \<leftarrow> clusterMsgBuildHdr messageType s;
              s1 \<leftarrow> (if lInbound (links s l) \<and> messageType = CLUSTERMSG_TYPE_PING
                     then do { r \<leftarrow> lNode (links s l); Some (updNode r (SetPingSent (Some now)) s) }
                     else Some s);
              (hdr1, cnt) \<leftarrow> pingLoop (nat (wanted * 3)) e s1 (lNode (links s l)) fresh wanted 0 [] hdr;
              let hdr2 = hdr1\<lparr>totLen := of_nat CLUSTERMSG_HEADER_SIZE + of_int (int CLUSTERMSG_GOSSIP_SIZE * cnt),
                              msgCount := of_int cnt\<rparr>
              in case serializeClusterMsg hdr2 of
                   None \<Rightarrow> Some s1
                 | Some buf \<Rightarrow> Some (updLink l (\<lambda>lk. lk\<lparr>lSend := lSend lk @ [buf]\<rparr>) s1) })"

section \<open>Receiving\<close>

definition newFromGossip :: "string \<Rightarrow> clusterMsgDataGossip \<Rightarrow> ClusterNode" where
  "newFromGossip uuid g =
     UpdateGossip (nodeName g) (uint (g_port g)) (uint (g_cport g)) (uint (g_flags g))
       (NewNode uuid (uint (g_port g)) [] (uint (g_flags g)) False)"

fun processGossip :: "string \<Rightarrow> clusterMsgDataGossip list \<Rightarrow> ClusterState \<Rightarrow> ClusterState option" where
  "processGossip uuid [] s = Some s"
| "processGossip uuid (g # gs) s =
     do { self \<leftarrow> deref s (Self s);
          if nodeName g = Name self then processGossip uuid gs s
          else let (p, exists) = GetNode (nodeName g) s
               in if \<not> exists
                  then let (s1, r) = allocNode (newFromGossip uuid g) s
                       in do { s2 \<leftarrow> SetNode (Some r) s1; processGossip uuid gs s2 }
                  else do { r \<leftarrow> p;
                            processGossip uuid gs
                              (updNode r (UpdateGossip (nodeName g) (uint (g_port g)) (uint (g_cport g)) (uint (g_flags g))) s) } }"

definition clusterProcessGossip :: "string \<Rightarrow> clusterMsg \<Rightarrow> ClusterState \<Rightarrow> ClusterState option" where
  "clusterProcessGossip uuid msg s = processGossip uuid (Gossip msg) s"

text \<open>The node a message comes from: the node of the link, renamed if it is a handshake node, or a new one.\<close>

definition senderNode :: "string \<Rightarrow> linkRef \<Rightarrow> clusterMsg \<Rightarrow> ClusterState \<Rightarrow> ClusterState \<times> nodeRef" where
  "senderNode uuid l msg s =
     (let upd = UpdateMessage (sender msg) (uint (port msg)) (uint (cport msg)) (uint (msgFlags msg)) (msgSlots msg)
      in case lNode (links s l) of
           Some r \<Rightarrow>
             (if take 5 (Name (store s r)) = ''temp_''
              then (updNode r upd (DeleteNode (Name (store s r)) s), r)
              else (updNode r (SetOwnedSlots (msgSlots msg)) s, r))
         | None \<Rightarrow>
             (let host = (case lHost (links s l) of None \<Rightarrow> [] | Some h \<Rightarrow> h);
                  (s1, r) = allocNode (upd (NewNode uuid (uint (port msg)) host (uint (msgFlags msg)) False)) s
              in (updLink l (\<lambda>lk. lk\<lparr>lNode := Some r\<rparr>) s1, r)))"

definition clusterProcessMsg :: "env \<Rightarrow> string \<Rightarrow> int \<Rightarrow> linkRef \<Rightarrow> clusterMsg \<Rightarrow> ClusterState \<Rightarrow> ClusterState option" where
  "clusterProcessMsg e uuid now l msg s =
     (let (s1, r) = senderNode uuid l msg s
      in do { s2 \<leftarrow> SetNode (Some r) s1;
              s3 \<leftarrow> clusterProcessGossip uuid msg s2;
              if msgType msg = of_int CLUSTERMSG_TYPE_PING then clusterSendPing e now l CLUSTERMSG_TYPE_PONG s3
              else if msgType msg = of_int CLUSTERMSG_TYPE_PONG then Some (updNode r (MarkPongReceived (Some now)) s3)
              else Some s3 })"

section \<open>Invariants\<close>

lemma SetNode_wf:
  assumes wf: "cs_wf s" and r: "r < nextRef s"
  shows "\<exists>s'. SetNode (Some r) s = Some s' \<and> cs_wf s' \<and> lookup (Nodes s') = (lookup (Nodes s))(Name (store s r) \<mapsto> Some r)
     \<and> store s' = store s \<and> nextRef s' = nextRef s \<and> Self s' = Self s \<and> links s' = links s \<and> clusterState s' = clusterState s"
proof -
  obtain m where m: "assign (Nodes s) (Name (store s r)) (Some r) = Some m" "m \<noteq> NilMap" "gm_wf m"
    "lookup m = (lookup (Nodes s))(Name (store s r) \<mapsto> Some r)"
    using gm.putE [OF cs_wfD(4) [OF wf] cs_wfD(3) [OF wf]] by blast
  have "cs_wf (s\<lparr>Nodes := m\<rparr>)"
    using wf r m(2-4) unfolding cs_wf_def by auto
  with m show ?thesis by (simp add: SetNode_def deref_def)
qed

text \<open>A fresh node changes no node that is already there.\<close>

lemma allocNode_wf:
  assumes "cs_wf s" "node_wf n" "allocNode n s = (s', r)"
  shows "cs_wf s'" "r = nextRef s" "store s' = (store s)(r := n)" "nextRef s' = nextRef s + 1"
    "Nodes s' = Nodes s" "Self s' = Self s" "links s' = links s" "clusterState s' = clusterState s"
proof -
  have s': "s' = s\<lparr>store := (store s)(nextRef s := n), nextRef := nextRef s + 1\<rparr>" "r = nextRef s"
    using assms(3) by (auto simp: allocNode_def)
  have "\<exists>r < nextRef s'. p = Some r \<and> Name (store s' r) = name" if "lookup (Nodes s') name = Some p" for name p
  proof -
    have "lookup (Nodes s) name = Some p" using that by (simp add: s'(1))
    from cs_wfD(7) [OF assms(1) this] obtain r where "r < nextRef s" "p = Some r" "Name (store s r) = name" by blast
    then show ?thesis by (auto simp: s'(1) intro!: exI [of _ r])
  qed
  moreover have "\<forall>r < nextRef s'. node_wf (store s' r)"
    using assms(2) cs_wfD(8) [OF assms(1)] by (simp add: s'(1) less_Suc_eq)
  moreover have "\<exists>r < nextRef s'. Self s' = Some r"
    using cs_wfD(1,2) [OF assms(1)] by (auto simp: s'(1) less_Suc_eq)
  ultimately show "cs_wf s'"
    using cs_wfD(3-6) [OF assms(1)] unfolding cs_wf_def by (simp add: s'(1))
  show "r = nextRef s" "store s' = (store s)(r := n)" "nextRef s' = nextRef s + 1"
    "Nodes s' = Nodes s" "Self s' = Self s" "links s' = links s" "clusterState s' = clusterState s" by (simp_all add: s')
qed

lemma UpdateGossip_simps [simp]:
  "Name (UpdateGossip nm a b c n) = nm" "node_wf (UpdateGossip nm a b c n) = node_wf n"
  "slots_of (UpdateGossip nm a b c n) = slots_of n" "OwnedSlots (UpdateGossip nm a b c n) = OwnedSlots n"
  by (simp_all add: UpdateGossip_def node_wf_def slots_of_def)

lemma newFromGossip_simps [simp]:
  "Name (newFromGossip u g) = nodeName g" "node_wf (newFromGossip u g)" "slots_of (newFromGossip u g) = {}"
  by (simp_all add: newFromGossip_def NewNode_wf)

text \<open>What one gossip entry, and then a whole section, may do to the state.\<close>

definition gossip_rel :: "ClusterState \<Rightarrow> ClusterState \<Rightarrow> bool" where
  "gossip_rel s s' \<longleftrightarrow> cs_wf s' \<and> links s' = links s \<and> Self s' = Self s \<and> nextRef s \<le> nextRef s'
     \<and> (\<forall>r < nextRef s. OwnedSlots (store s' r) = OwnedSlots (store s r) \<and> Name (store s' r) = Name (store s r))
     \<and> (\<forall>r. nextRef s \<le> r \<and> r < nextRef s' \<longrightarrow> slots_of (store s' r) = {})
     \<and> store s' (self_ref s) = store s (self_ref s)
     \<and> lookup (Nodes s) \<subseteq>\<^sub>m lookup (Nodes s')"

lemma gossip_rel_refl: "cs_wf s \<Longrightarrow> gossip_rel s s"
  by (auto simp: gossip_rel_def)

lemma gossip_rel_trans:
  assumes "cs_wf s1" "gossip_rel s1 s2" "gossip_rel s2 s3" shows "gossip_rel s1 s3"
proof -
  have self: "self_ref s2 = self_ref s1" using assms(2) by (simp add: gossip_rel_def self_ref_def)
  have "slots_of (store s3 r) = {}" if "nextRef s1 \<le> r" "r < nextRef s3" for r
  proof (cases "r < nextRef s2")
    case True
    then have "OwnedSlots (store s3 r) = OwnedSlots (store s2 r)" "slots_of (store s2 r) = {}"
      using assms(2,3) that(1) by (auto simp: gossip_rel_def)
    then show ?thesis by (simp add: slots_of_def)
  next
    case False
    then show ?thesis using assms(3) that(2) by (auto simp: gossip_rel_def)
  qed
  moreover have "lookup (Nodes s1) \<subseteq>\<^sub>m lookup (Nodes s3)"
    using assms(2,3) map_le_trans by (auto simp: gossip_rel_def)
  ultimately show ?thesis
    using assms(2,3) self by (auto simp: gossip_rel_def)
qed

lemma gossip_known:
  assumes wf: "cs_wf s" and l: "lookup (Nodes s) (nodeName g) = Some (Some r)" and n: "nodeName g \<noteq> Name (store s (self_ref s))"
  shows "gossip_rel s (updNode r (UpdateGossip (nodeName g) a b c) s)"
proof -
  have r: "r < nextRef s" "Name (store s r) = nodeName g" using cs_wfD(7) [OF wf l] by auto
  have "cs_wf (updNode r (UpdateGossip (nodeName g) a b c) s)"
    by (rule cs_wf_updNode [OF wf]) (use r cs_wfD(8) [OF wf] in simp_all)
  moreover have "r \<noteq> self_ref s" using r(2) n by auto
  ultimately show ?thesis using r by (auto simp: gossip_rel_def updNode_def)
qed

lemma gossip_new:
  assumes wf: "cs_wf s" and l: "lookup (Nodes s) (nodeName g) = None"
    and a: "allocNode (newFromGossip uuid g) s = (s1, r)"
  shows "\<exists>s2. SetNode (Some r) s1 = Some s2 \<and> gossip_rel s s2 \<and> nodeName g \<in> dom (lookup (Nodes s2))"
proof -
  note al = allocNode_wf [OF wf newFromGossip_simps(2) a]
  obtain s2 where s2: "SetNode (Some r) s1 = Some s2" "cs_wf s2"
    "lookup (Nodes s2) = (lookup (Nodes s1))(Name (store s1 r) \<mapsto> Some r)" "store s2 = store s1" "nextRef s2 = nextRef s1"
    "Self s2 = Self s1" "links s2 = links s1"
    using SetNode_wf [OF al(1), of r] al(2,4) by auto
  have name: "Name (store s1 r) = nodeName g" by (simp add: al(3))
  have "lookup (Nodes s) \<subseteq>\<^sub>m lookup (Nodes s2)"
    using l by (auto simp: map_le_def s2(3) name al(5))
  then have "gossip_rel s s2"
    using s2 al cs_wfD(2) [OF wf] by (auto simp: gossip_rel_def less_Suc_eq)
  then show ?thesis using s2(1,3) name by auto
qed

lemma processGossip_spec:
  "cs_wf s \<Longrightarrow> \<exists>s'. processGossip uuid gs s = Some s' \<and> gossip_rel s s'
     \<and> (\<forall>g \<in> set gs. nodeName g = Name (store s (self_ref s)) \<or> nodeName g \<in> dom (lookup (Nodes s')))"
proof (induction gs arbitrary: s)
  case Nil
  then show ?case by (simp add: gossip_rel_refl)
next
  case (Cons g gs)
  note self = cs_wfD(1,2) [OF Cons.prems]
  let ?me = "Name (store s (self_ref s))"
  have step: "\<exists>s'. processGossip uuid (g # gs) s = Some s' \<and> gossip_rel s s'
     \<and> (\<forall>g \<in> set (g # gs). nodeName g = ?me \<or> nodeName g \<in> dom (lookup (Nodes s')))"
    if s1: "processGossip uuid (g # gs) s = processGossip uuid gs s1" "gossip_rel s s1"
      "nodeName g = ?me \<or> nodeName g \<in> dom (lookup (Nodes s1))" for s1
  proof -
    have "cs_wf s1" "self_ref s1 = self_ref s" "store s1 (self_ref s) = store s (self_ref s)"
      using s1(2) by (auto simp: gossip_rel_def self_ref_def)
    with Cons.IH [of s1] obtain s' where s': "processGossip uuid gs s1 = Some s'" "gossip_rel s1 s'"
      "\<forall>g \<in> set gs. nodeName g = ?me \<or> nodeName g \<in> dom (lookup (Nodes s'))" by auto
    moreover have "dom (lookup (Nodes s1)) \<subseteq> dom (lookup (Nodes s'))"
      using s'(2) map_le_implies_dom_le unfolding gossip_rel_def by blast
    ultimately show ?thesis
      using s1 gossip_rel_trans [OF Cons.prems s1(2) s'(2)] by auto
  qed
  show ?case
  proof (cases "nodeName g = ?me")
    case True
    then show ?thesis
      using step [of s] self gossip_rel_refl [OF Cons.prems] by (simp add: deref_def)
  next
    case False
    show ?thesis
    proof (cases "lookup (Nodes s) (nodeName g)")
      case None
      obtain s1 r where a: "allocNode (newFromGossip uuid g) s = (s1, r)" by force
      obtain s2 where "SetNode (Some r) s1 = Some s2" "gossip_rel s s2" "nodeName g \<in> dom (lookup (Nodes s2))"
        using gossip_new [OF Cons.prems None a] by blast
      with a None False self show ?thesis
        by (intro step [of s2]) (simp_all add: deref_def GetNode_def comma_ok_def)
    next
      case (Some p)
      then obtain r where p: "p = Some r" using cs_wfD(7) [OF Cons.prems Some] by auto
      note gk = gossip_known [OF Cons.prems Some [unfolded p] False, of "uint (g_port g)" "uint (g_cport g)" "uint (g_flags g)"]
      show ?thesis
        by (rule step [OF _ gk]) (use Some p False self in \<open>simp_all add: deref_def GetNode_def comma_ok_def updNode_def dom_def\<close>)
    qed
  qed
qed

definition bus_wf :: "ClusterState \<Rightarrow> bool" where
  "bus_wf s \<longleftrightarrow> cs_wf s \<and> (\<forall>l r. lNode (links s l) = Some r \<longrightarrow> r < nextRef s)"

lemma UpdateMessage_simps [simp]:
  "Name (UpdateMessage nm a b c ws n) = nm" "node_wf (UpdateMessage nm a b c ws n) \<longleftrightarrow> length ws = 256"
  "OwnedSlots (UpdateMessage nm a b c ws n) = ws"
  by (simp_all add: UpdateMessage_def node_wf_def)

text \<open>The name under which the sender of a message is filed.\<close>

definition sender_name :: "linkRef \<Rightarrow> clusterMsg \<Rightarrow> ClusterState \<Rightarrow> string" where
  "sender_name l msg s =
     (case lNode (links s l) of
        Some r \<Rightarrow> if take 5 (Name (store s r)) = ''temp_'' then sender msg else Name (store s r)
      | None \<Rightarrow> sender msg)"

lemma DeleteNode_rename_wf:
  assumes wf: "cs_wf s" and r: "r < nextRef s" and n: "node_wf (f (store s r))"
  shows "cs_wf (updNode r f (DeleteNode (Name (store s r)) s))"
proof -
  let ?s = "updNode r f (DeleteNode (Name (store s r)) s)"
  have "\<exists>r' < nextRef ?s. p = Some r' \<and> Name (store ?s r') = name" if "lookup (Nodes ?s) name = Some p" for name p
  proof -
    have l: "lookup (Nodes s) name = Some p" "name \<noteq> Name (store s r)"
      using that by (auto simp: updNode_def DeleteNode_def split: if_splits)
    then obtain r' where "r' < nextRef s" "p = Some r'" "Name (store s r') = name" using cs_wfD(7) [OF wf] by blast
    moreover from this l(2) have "r' \<noteq> r" by auto
    ultimately show ?thesis by (simp add: updNode_def DeleteNode_def)
  qed
  moreover have "\<forall>r' < nextRef ?s. node_wf (store ?s r')"
    using n cs_wfD(8) [OF wf] by (simp add: updNode_def DeleteNode_def)
  ultimately show ?thesis
    using cs_wfD(1-6) [OF wf] unfolding cs_wf_def by (simp add: updNode_def DeleteNode_def gm_wf_remove)
qed

lemma senderNode_spec:
  assumes wf: "bus_wf s" and len: "length (msgSlots msg) = 256" and run: "senderNode uuid l msg s = (s1, r)"
  shows "bus_wf s1 \<and> r < nextRef s1 \<and> Name (store s1 r) = sender_name l msg s \<and> OwnedSlots (store s1 r) = msgSlots msg
     \<and> Self s1 = Self s \<and> clusterState s1 = clusterState s \<and> lNode (links s1 l) = Some r \<and> nextRef s \<le> nextRef s1
     \<and> (\<forall>r'. r' \<noteq> r \<longrightarrow> store s1 r' = store s r')"
proof (cases "lNode (links s l)")
  case None
  let ?n = "UpdateMessage (sender msg) (uint (port msg)) (uint (cport msg)) (uint (msgFlags msg)) (msgSlots msg)
      (NewNode uuid (uint (port msg)) (case lHost (links s l) of None \<Rightarrow> [] | Some h \<Rightarrow> h) (uint (msgFlags msg)) False)"
  obtain s0 r0 where a: "allocNode ?n s = (s0, r0)" by force
  have wf0: "cs_wf s" and nwf: "node_wf ?n" using wf len by (simp_all add: bus_wf_def)
  note al = allocNode_wf [OF wf0 nwf a]
  have s1: "s1 = updLink l (\<lambda>lk. lk\<lparr>lNode := Some r\<rparr>) s0" "r = r0"
    using run None a by (auto simp: senderNode_def Let_def)
  have "cs_wf s1" using al(1) unfolding s1 cs_wf_def updLink_def by simp
  then show ?thesis
    using wf al None by (auto simp: s1 updLink_def bus_wf_def sender_name_def less_Suc_eq)
next
  case (Some r0)
  then have r0: "r0 < nextRef s" and wf0: "cs_wf s" using wf by (auto simp: bus_wf_def)
  show ?thesis
  proof (cases "take 5 (Name (store s r0)) = ''temp_''")
    case True
    let ?f = "UpdateMessage (sender msg) (uint (port msg)) (uint (cport msg)) (uint (msgFlags msg)) (msgSlots msg)"
    have s1: "s1 = updNode r0 ?f (DeleteNode (Name (store s r0)) s)" "r = r0"
      using run Some True by (auto simp: senderNode_def Let_def)
    have "cs_wf s1" unfolding s1 by (rule DeleteNode_rename_wf [OF wf0 r0]) (simp add: len)
    then show ?thesis
      using wf Some True r0 by (auto simp: s1 bus_wf_def sender_name_def updNode_def DeleteNode_def)
  next
    case False
    have s1: "s1 = updNode r0 (SetOwnedSlots (msgSlots msg)) s" "r = r0"
      using run Some False by (auto simp: senderNode_def Let_def)
    have "cs_wf s1" unfolding s1 by (rule cs_wf_updNode [OF wf0]) (simp_all add: len)
    then show ?thesis
      using wf Some False r0 by (auto simp: s1 bus_wf_def sender_name_def updNode_def)
  qed
qed

section \<open>What is sent\<close>

lemma getRandomNode_known:
  assumes wf: "cs_wf s" and e: "env_ok e" and ne: "0 < len (Nodes s)"
  shows "\<exists>r \<in> known s. getRandomNode (order e i) (rnd e j (len (Nodes s))) (Nodes s) = Some r"
proof -
  have it: "is_iteration (order e i)" using e by (simp add: env_ok_def)
  have "mset (order e i (Nodes s)) = mset (keys (Nodes s))" using it by (simp add: is_iteration_def)
  then have "length (rangeNodes (order e i) (Nodes s)) = len (Nodes s)"
    using mset_eq_length by (fastforce simp: rangeNodes_def len_def keys_def)
  moreover have "rnd e j (len (Nodes s)) < len (Nodes s)" using e ne by (simp add: env_ok_def)
  ultimately have "getRandomNode (order e i) (rnd e j (len (Nodes s))) (Nodes s) \<in> set (rangeNodes (order e i) (Nodes s))"
    by (simp add: getRandomNode_def)
  then obtain name where "lookup (Nodes s) name = Some (getRandomNode (order e i) (rnd e j (len (Nodes s))) (Nodes s))"
    by (auto simp: set_rangeNodes [OF it] ran_def)
  with cs_wfD(7) [OF wf this] show ?thesis by (fastforce simp: known_def ran_def)
qed

lemma pingLoop_spec:
  assumes wf: "cs_wf s" and e: "env_ok e"
  shows "fresh < int (len (Nodes s)) \<Longrightarrow> \<exists>rs. pingLoop k e s ln fresh wanted cnt sel hdr
       = Some (hdr\<lparr>Gossip := Gossip hdr @ map (\<lambda>r. gossipEntry (Snapshot (store s r))) rs\<rparr>, cnt + int (length rs))
     \<and> set rs \<subseteq> known s \<and> self_ref s \<notin> set rs \<and> (\<forall>r. ln = Some r \<longrightarrow> r \<notin> set rs)
     \<and> distinct (map (\<lambda>r. Name (store s r)) rs) \<and> (\<forall>r \<in> set rs. Name (store s r) \<notin> set sel)
     \<and> (rs \<noteq> [] \<longrightarrow> cnt + int (length rs) \<le> wanted)"
proof (induction k arbitrary: fresh cnt sel hdr)
  case 0
  show ?case by (rule exI [of _ "[]"]) simp
next
  case (Suc k)
  show ?case
  proof (cases "fresh > 0 \<and> cnt < wanted")
    case False
    then show ?thesis by (intro exI [of _ "[]"]) simp
  next
    case True
    then have "0 < len (Nodes s)" using Suc.prems by simp
    then obtain r where r: "r \<in> known s" "getRandomNode (order e k) (rnd e k (len (Nodes s))) (Nodes s) = Some r"
      using getRandomNode_known [OF wf e] by blast
    let ?nm = "Name (store s r)"
    show ?thesis
    proof (cases "Some r = Self s \<or> Some r = ln \<or> ?nm \<in> set sel")
      case skip: True
      then have "pingLoop (Suc k) e s ln fresh wanted cnt sel hdr = pingLoop k e s ln fresh wanted cnt sel hdr"
        using True r(2) by (auto simp: Let_def deref_def Snapshot_def)
      with Suc.IH [OF Suc.prems] show ?thesis by simp
    next
      case False
      let ?hdr = "clusterSetGossipEntry hdr (Snapshot (store s r))"
      have step: "pingLoop (Suc k) e s ln fresh wanted cnt sel hdr
          = pingLoop k e s ln (fresh - 1) wanted (cnt + 1) (?nm # sel) ?hdr"
        using False True r(2) by (auto simp: Let_def deref_def Snapshot_def)
      obtain rs where rs: "pingLoop k e s ln (fresh - 1) wanted (cnt + 1) (?nm # sel) ?hdr
          = Some (?hdr\<lparr>Gossip := Gossip ?hdr @ map (\<lambda>r. gossipEntry (Snapshot (store s r))) rs\<rparr>, cnt + 1 + int (length rs))"
        "set rs \<subseteq> known s" "self_ref s \<notin> set rs" "\<forall>r. ln = Some r \<longrightarrow> r \<notin> set rs"
        "distinct (map (\<lambda>r. Name (store s r)) rs)" "\<forall>r \<in> set rs. Name (store s r) \<notin> set (?nm # sel)"
        "rs \<noteq> [] \<longrightarrow> cnt + 1 + int (length rs) \<le> wanted"
        using Suc.IH [of "fresh - 1" "cnt + 1" "?nm # sel" ?hdr] Suc.prems by auto
      have "self_ref s \<noteq> r" using False cs_wfD(1) [OF wf] by auto
      then show ?thesis
        using step rs False True r(1)
        by (intro exI [of _ "r # rs"]) (auto simp: clusterSetGossipEntry_def)
    qed
  qed
qed

text \<open>The message about the nodes \<open>rs\<close>.\<close>

definition pingMsg :: "int \<Rightarrow> nodeRef list \<Rightarrow> ClusterState \<Rightarrow> clusterMsg" where
  "pingMsg mt rs s =
     (let self = store s (self_ref s)
      in \<lparr>Sig = ''RCmb'', msgType = of_int mt, totLen = of_nat (CLUSTERMSG_HEADER_SIZE + CLUSTERMSG_GOSSIP_SIZE * length rs),
          msgCount = of_nat (length rs), port = of_int (ClientPort self), sender = Name self,
          cport = of_int (ClusterBusPort self), msgFlags = of_int (flags self), msgState = clusterState s,
          msgSlots = OwnedSlots self, Gossip = map (\<lambda>r. gossipEntry (Snapshot (store s r))) rs\<rparr>)"

definition markPing :: "int \<Rightarrow> linkRef \<Rightarrow> int \<Rightarrow> ClusterState \<Rightarrow> ClusterState" where
  "markPing now l mt s =
     (if lInbound (links s l) \<and> mt = CLUSTERMSG_TYPE_PING
      then updNode (the (lNode (links s l))) (SetPingSent (Some now)) s else s)"

lemma SetPingSent_simps [simp]:
  "Name (SetPingSent t n) = Name n" "node_wf (SetPingSent t n) = node_wf n" "OwnedSlots (SetPingSent t n) = OwnedSlots n"
  by (simp_all add: SetPingSent_def node_wf_def)

lemma MarkPong_simps [simp]:
  "Name (MarkPongReceived t n) = Name n" "node_wf (MarkPongReceived t n) = node_wf n"
  "OwnedSlots (MarkPongReceived t n) = OwnedSlots n"
  by (simp_all add: MarkPongReceived_def node_wf_def)

lemma markPing_simps [simp]:
  "Nodes (markPing now l mt s) = Nodes s" "Self (markPing now l mt s) = Self s" "links (markPing now l mt s) = links s"
  "nextRef (markPing now l mt s) = nextRef s" "Name (store (markPing now l mt s) r) = Name (store s r)"
  "OwnedSlots (store (markPing now l mt s) r) = OwnedSlots (store s r)" "self_ref (markPing now l mt s) = self_ref s"
  "known (markPing now l mt s) = known s"
  by (simp_all add: markPing_def updNode_def self_ref_def known_def)

lemma markPing_other: "lNode (links s l) \<noteq> Some r \<Longrightarrow> lNode (links s l) \<noteq> None \<or> mt \<noteq> CLUSTERMSG_TYPE_PING \<or> \<not> lInbound (links s l) \<Longrightarrow>
    store (markPing now l mt s) r = store s r"
  by (auto simp: markPing_def updNode_def)

lemma markPing_wf: "cs_wf s \<Longrightarrow> cs_wf (markPing now l mt s)"
  unfolding markPing_def by (auto intro!: cs_wf_updNode dest: cs_wfD(8))

lemma pingMsg_serialize:
  assumes "cs_wf s" "length rs < 2 ^ 26"
  shows "serializeClusterMsg (pingMsg mt rs s) = Some (wireBytes (pingMsg mt rs s))"
proof -
  have "length (OwnedSlots (store s (self_ref s))) = 256"
    using cs_wfD(8) [OF assms(1) cs_wfD(2) [OF assms(1)]] by (simp add: node_wf_def)
  then have "length (wireBytes (pingMsg mt rs s)) = 2106 + 54 * length rs"
    by (subst length_wire) (simp_all add: pingMsg_def Let_def)
  moreover have "unat (totLen (pingMsg mt rs s)) = 2106 + 54 * length rs"
    using assms(2) by (simp add: pingMsg_def Let_def sizes unat_of_nat take_bit_nat_eq_self del: of_nat_add of_nat_mult)
  ultimately show ?thesis by (simp add: serialize_wire)
qed

lemma ping_count_bound: "int k \<le> max 3 (int n div 10) \<Longrightarrow> n < 2 ^ 26 \<Longrightarrow> k < 2 ^ 26"
  by (auto simp: max_def split: if_splits)

lemma clusterSendPing_core:
  assumes wf: "cs_wf s" and e: "env_ok e"
    and link: "lInbound (links s l) \<and> mt = CLUSTERMSG_TYPE_PING \<longrightarrow> lNode (links s l) \<noteq> None"
  shows "\<exists>rs. clusterSendPing e now l mt s
       = Some (case serializeClusterMsg (pingMsg mt rs s) of
                 None \<Rightarrow> markPing now l mt s
               | Some buf \<Rightarrow> updLink l (\<lambda>lk. lk\<lparr>lSend := lSend lk @ [buf]\<rparr>) (markPing now l mt s))
     \<and> set rs \<subseteq> known s \<and> self_ref s \<notin> set rs \<and> (\<forall>r. lNode (links s l) = Some r \<longrightarrow> r \<notin> set rs)
     \<and> distinct (map (\<lambda>r. Name (store s r)) rs) \<and> int (length rs) \<le> max 3 (int (len (Nodes s)) div 10)"
proof -
  let ?s1 = "markPing now l mt s"
  let ?wanted = "if (if int (len (Nodes s)) div 10 < 3 then 3 else int (len (Nodes s)) div 10) = int (len (Nodes s)) - 1
      then int (len (Nodes s)) - 1 else (if int (len (Nodes s)) div 10 < 3 then 3 else int (len (Nodes s)) div 10)"
  have w: "?wanted = max 3 (int (len (Nodes s)) div 10)" by simp
  obtain hdr where hdr: "clusterMsgBuildHdr mt s = Some hdr"
    "hdr\<lparr>Gossip := gs, totLen := tl, msgCount := c\<rparr> = (pingMsg mt [] s)\<lparr>Gossip := gs, totLen := tl, msgCount := c\<rparr>" for gs tl c
    using cs_wfD(1) [OF wf]
    by (simp add: clusterMsgBuildHdr_def deref_def pingMsg_def Snapshot_def Let_def)
  have g0: "Gossip hdr = []" using hdr(1) cs_wfD(1) [OF wf] by (auto simp: clusterMsgBuildHdr_def deref_def Let_def)
  have mark: "(if lInbound (links s l) \<and> mt = CLUSTERMSG_TYPE_PING
      then do { r \<leftarrow> lNode (links s l); Some (updNode r (SetPingSent (Some now)) s) } else Some s) = Some ?s1"
    using link by (auto simp: markPing_def)
  obtain rs where rs: "pingLoop (nat (?wanted * 3)) e ?s1 (lNode (links s l)) (int (len (Nodes s)) - 1) ?wanted 0 [] hdr
       = Some (hdr\<lparr>Gossip := map (\<lambda>r. gossipEntry (Snapshot (store ?s1 r))) rs\<rparr>, int (length rs))"
     "set rs \<subseteq> known s" "self_ref s \<notin> set rs" "\<forall>r. lNode (links s l) = Some r \<longrightarrow> r \<notin> set rs"
     "distinct (map (\<lambda>r. Name (store s r)) rs)" "rs \<noteq> [] \<longrightarrow> int (length rs) \<le> ?wanted"
    using pingLoop_spec [OF markPing_wf [OF wf] e, of "int (len (Nodes s)) - 1" now l mt "nat (?wanted * 3)" "lNode (links s l)" ?wanted 0 "[]" hdr]
    by (auto simp: g0)
  have le: "int (length rs) \<le> max 3 (int (len (Nodes s)) div 10)" using rs(6) w by (cases "rs = []") simp_all
  have same: "map (\<lambda>r. gossipEntry (Snapshot (store ?s1 r))) rs = map (\<lambda>r. gossipEntry (Snapshot (store s r))) rs"
  proof (rule map_cong [OF refl])
    fix r
    assume "r \<in> set rs"
    then have "store ?s1 r = store s r" by (intro markPing_other) (use rs(4) link in auto)
    then show "gossipEntry (Snapshot (store ?s1 r)) = gossipEntry (Snapshot (store s r))" by simp
  qed
  have msg: "hdr\<lparr>Gossip := map (\<lambda>r. gossipEntry (Snapshot (store ?s1 r))) rs,
      totLen := of_nat CLUSTERMSG_HEADER_SIZE + of_int (int CLUSTERMSG_GOSSIP_SIZE * int (length rs)),
      msgCount := of_int (int (length rs))\<rparr> = pingMsg mt rs s"
    unfolding hdr(2) same by (simp add: pingMsg_def Let_def)
  have "clusterSendPing e now l mt s = Some (case serializeClusterMsg (pingMsg mt rs s) of None \<Rightarrow> ?s1
      | Some buf \<Rightarrow> updLink l (\<lambda>lk. lk\<lparr>lSend := lSend lk @ [buf]\<rparr>) ?s1)"
    unfolding clusterSendPing_def Let_def hdr(1) mark using rs(1) msg by (simp split: option.splits)
  then show ?thesis using rs(2-5) le by blast
qed

lemma clusterSendPing_result:
  assumes wf: "cs_wf s" and e: "env_ok e" and few: "len (Nodes s) < 2 ^ 26"
    and link: "lInbound (links s l) \<and> mt = CLUSTERMSG_TYPE_PING \<longrightarrow> lNode (links s l) \<noteq> None"
  shows "\<exists>rs. clusterSendPing e now l mt s
       = Some (updLink l (\<lambda>lk. lk\<lparr>lSend := lSend lk @ [wireBytes (pingMsg mt rs s)]\<rparr>) (markPing now l mt s))
     \<and> set rs \<subseteq> known s \<and> self_ref s \<notin> set rs \<and> (\<forall>r. lNode (links s l) = Some r \<longrightarrow> r \<notin> set rs)
     \<and> distinct (map (\<lambda>r. Name (store s r)) rs) \<and> int (length rs) \<le> max 3 (int (len (Nodes s)) div 10)"
proof -
  obtain rs where rs: "clusterSendPing e now l mt s
       = Some (case serializeClusterMsg (pingMsg mt rs s) of
                 None \<Rightarrow> markPing now l mt s
               | Some buf \<Rightarrow> updLink l (\<lambda>lk. lk\<lparr>lSend := lSend lk @ [buf]\<rparr>) (markPing now l mt s))"
     "set rs \<subseteq> known s \<and> self_ref s \<notin> set rs \<and> (\<forall>r. lNode (links s l) = Some r \<longrightarrow> r \<notin> set rs)
     \<and> distinct (map (\<lambda>r. Name (store s r)) rs) \<and> int (length rs) \<le> max 3 (int (len (Nodes s)) div 10)"
    using clusterSendPing_core [OF wf e link] by blast
  moreover have "serializeClusterMsg (pingMsg mt rs s) = Some (wireBytes (pingMsg mt rs s))"
    by (rule pingMsg_serialize [OF wf]) (use rs(2) few ping_count_bound in blast)
  ultimately show ?thesis by auto
qed

lemma updLink_simps [simp]:
  "Nodes (updLink l f s) = Nodes s" "store (updLink l f s) = store s" "Self (updLink l f s) = Self s"
  "nextRef (updLink l f s) = nextRef s" "cs_wf (updLink l f s) = cs_wf s" "links (updLink l f s) = (links s)(l := f (links s l))"
  by (simp_all add: updLink_def cs_wf_def)

text \<open>The state after a message, up to the pings and the pong time: gossip relation from the state in which
  the sender is filed.\<close>

definition msg_learnt :: "linkRef \<Rightarrow> clusterMsg \<Rightarrow> ClusterState \<Rightarrow> ClusterState \<Rightarrow> bool" where
  "msg_learnt l msg s s' \<longleftrightarrow>
     (\<exists>r. lookup (Nodes s') (sender_name l msg s) = Some (Some r) \<and> slots_of (store s' r) = owned (msgSlots msg)
        \<and> (\<forall>r' < nextRef s. r' \<noteq> r \<longrightarrow> OwnedSlots (store s' r') = OwnedSlots (store s r')))
     \<and> (\<forall>g \<in> set (Gossip msg). nodeName g \<in> dom (lookup (Nodes s')) \<or> nodeName g = Name (store s' (self_ref s')))"

lemma msg_learnt_frame:
  assumes "msg_learnt l msg s s3" "Nodes s' = Nodes s3" "Self s' = Self s3"
    "\<And>r. OwnedSlots (store s' r) = OwnedSlots (store s3 r) \<and> Name (store s' r) = Name (store s3 r)"
  shows "msg_learnt l msg s s'"
  using assms unfolding msg_learnt_def slots_of_def self_ref_def by simp

lemma receive_spec:
  assumes wf: "bus_wf s" and msg: "length (msgSlots msg) = 256" and s1: "senderNode uuid l msg s = (s1, r)"
  shows "\<exists>s2 s3. SetNode (Some r) s1 = Some s2 \<and> clusterProcessGossip uuid msg s2 = Some s3
     \<and> bus_wf s3 \<and> msg_learnt l msg s s3 \<and> lNode (links s3 l) = Some r \<and> r < nextRef s3"
proof -
  note sp = senderNode_spec [OF wf msg s1]
  then have wf1: "cs_wf s1" "r < nextRef s1" by (auto simp: bus_wf_def)
  obtain s2 where s2: "SetNode (Some r) s1 = Some s2" "cs_wf s2"
    "lookup (Nodes s2) = (lookup (Nodes s1))(sender_name l msg s \<mapsto> Some r)" "store s2 = store s1"
    "nextRef s2 = nextRef s1" "Self s2 = Self s1" "links s2 = links s1"
    using SetNode_wf [OF wf1] sp by auto
  obtain s3 where s3: "processGossip uuid (Gossip msg) s2 = Some s3" "gossip_rel s2 s3"
    "\<forall>g \<in> set (Gossip msg). nodeName g = Name (store s2 (self_ref s2)) \<or> nodeName g \<in> dom (lookup (Nodes s3))"
    using processGossip_spec [OF s2(2)] by blast
  have rel: "cs_wf s3" "links s3 = links s2" "nextRef s2 \<le> nextRef s3" "self_ref s3 = self_ref s2"
    "\<And>r. r < nextRef s2 \<Longrightarrow> OwnedSlots (store s3 r) = OwnedSlots (store s2 r)"
    "store s3 (self_ref s2) = store s2 (self_ref s2)" "lookup (Nodes s2) \<subseteq>\<^sub>m lookup (Nodes s3)"
    using s3(2) by (auto simp: gossip_rel_def self_ref_def)
  have "lookup (Nodes s3) (sender_name l msg s) = Some (Some r)"
    using rel(7) s2(3) by (auto simp: map_le_def dom_def split: if_splits)
  moreover have "slots_of (store s3 r) = owned (msgSlots msg)"
    using rel(5) [of r] wf1(2) sp s2(4,5) by (simp add: slots_of_def)
  moreover have "\<forall>r' < nextRef s. r' \<noteq> r \<longrightarrow> OwnedSlots (store s3 r') = OwnedSlots (store s r')"
    using rel(5) sp s2(4,5) by simp
  ultimately have "msg_learnt l msg s s3"
    using s3(3) rel(4,6) unfolding msg_learnt_def by auto
  moreover have "bus_wf s3"
    using sp rel(1-3) s2(5,7) by (auto simp: bus_wf_def intro: order_less_le_trans)
  ultimately show ?thesis
    using s2(1,5,7) s3(1) sp rel(2,3) wf1(2) by (auto simp: clusterProcessGossip_def)
qed

lemma process_result:
  assumes "bus_wf s" "env_ok e" "length (msgSlots msg) = 256"
  shows "\<exists>s'. clusterProcessMsg e uuid now l msg s = Some s' \<and> bus_wf s' \<and> msg_learnt l msg s s'"
proof -
  obtain s1 r where s1: "senderNode uuid l msg s = (s1, r)" by force
  obtain s2 s3 where s: "SetNode (Some r) s1 = Some s2" "clusterProcessGossip uuid msg s2 = Some s3"
    "bus_wf s3" "msg_learnt l msg s s3" "lNode (links s3 l) = Some r" "r < nextRef s3"
    using receive_spec [OF assms(1,3) s1] by blast
  have wf3: "cs_wf s3" using s(3) by (simp add: bus_wf_def)
  obtain s4 where s4: "clusterSendPing e now l CLUSTERMSG_TYPE_PONG s3 = Some s4" "cs_wf s4"
    "Nodes s4 = Nodes s3" "Self s4 = Self s3" "nextRef s4 = nextRef s3"
    "\<And>r. OwnedSlots (store s4 r) = OwnedSlots (store s3 r) \<and> Name (store s4 r) = Name (store s3 r)"
    "\<And>l'. lNode (links s4 l') = lNode (links s3 l')"
    using clusterSendPing_core [OF wf3 assms(2), of l CLUSTERMSG_TYPE_PONG now] s(5) markPing_wf [OF wf3]
    by (auto split: option.splits)
  have pong: "bus_wf (updNode r (MarkPongReceived (Some now)) s3)" "msg_learnt l msg s (updNode r (MarkPongReceived (Some now)) s3)"
  proof -
    have "cs_wf (updNode r (MarkPongReceived (Some now)) s3)"
      by (rule cs_wf_updNode [OF wf3]) (use cs_wfD(8) [OF wf3] in simp_all)
    then show "bus_wf (updNode r (MarkPongReceived (Some now)) s3)" using s(3) by (simp add: bus_wf_def updNode_def)
    show "msg_learnt l msg s (updNode r (MarkPongReceived (Some now)) s3)"
      by (rule msg_learnt_frame [OF s(4)]) (simp_all add: updNode_def)
  qed
  have ping: "bus_wf s4" "msg_learnt l msg s s4"
    using s4 s(3) msg_learnt_frame [OF s(4) s4(3,4,6)] by (auto simp: bus_wf_def)
  show ?thesis
    using s s1 s4(1) ping pong by (simp add: clusterProcessMsg_def)
qed

section \<open>Properties\<close>

text \<open>C37: a message with whole slot words is processed without a panic: the state stays well formed, the
  sender is filed under its name with exactly the slots it announced, every node it gossips about is known
  afterwards, and no other node's slots change.\<close>

theorem clusterProcessMsg_learns:
  assumes "bus_wf s" "env_ok e" "length (msgSlots msg) = 256"
  shows "\<exists>s'. clusterProcessMsg e uuid now l msg s = Some s' \<and> bus_wf s' \<and> msg_learnt l msg s s'"
  using assms by (rule process_result)



lemma env_ok_example: "env_ok \<lparr>rnd = (\<lambda>i n. i mod n), order = (\<lambda>_. keys)\<rparr>"
  by (simp add: env_ok_def is_iteration_keys)

lemma initState_bus: "node_wf n \<Longrightarrow> bus_wf (initState n)"
  by (simp add: bus_wf_def initState_wf) (simp add: initState_def)

theorem clusterProcessMsg_learns_witness:
  "\<exists>s' r. clusterProcessMsg \<lparr>rnd = (\<lambda>i n. i mod n), order = (\<lambda>_. keys)\<rparr> ''u'' 100 0
        \<lparr>Sig = ''RCmb'', msgType = 0, totLen = 2106, msgCount = 0, port = 7001, sender = ''peer'', cport = 17001,
         msgFlags = 0, msgState = 0, msgSlots = replicate 256 1, Gossip = []\<rparr>
        (initState (NewNode ''id'' 7000 ''h'' 0 False)) = Some s'
     \<and> lookup (Nodes s') ''peer'' = Some (Some r) \<and> slots_of (store s' r) = owned (replicate 256 1)"
proof -
  let ?m = "\<lparr>Sig = ''RCmb'', msgType = 0, totLen = 2106, msgCount = 0, port = 7001, sender = ''peer'', cport = 17001,
         msgFlags = 0, msgState = 0, msgSlots = replicate 256 1, Gossip = []\<rparr>"
  have "sender_name 0 ?m (initState (NewNode ''id'' 7000 ''h'' 0 False)) = ''peer''"
    by (simp add: sender_name_def initState_def)
  moreover have "length (msgSlots ?m) = 256" by simp
  note clusterProcessMsg_learns [OF initState_bus [OF NewNode_wf(1)] env_ok_example this,
      of "''u''" 100 0 "''id''" 7000 "''h''" 0 False]
  ultimately show ?thesis by (auto simp: msg_learnt_def)
qed


end
