(* ===== verification/Cluster_Bus.thy ===== *)
theory Cluster_Bus
  imports Cluster_Gossip
begin

text \<open>
  The links of the cluster bus: \<^verbatim>\<open>utils/clusters/link.go\<close>, and \<^verbatim>\<open>CreateClusterLink\<close>, \<^verbatim>\<open>ClusterStartHandshake\<close> and
  \<^verbatim>\<open>ClusterCron\<close> of \<^verbatim>\<open>cluster.go\<close>. The reader of a link runs over the bytes the connection delivers until it ends;
  the message with number \<open>i\<close> is processed with the choices \<open>rt i\<close> of the runtime. The network is a parameter:
  \<open>dial addr\<close> is the error text of \<^verbatim>\<open>net.Dial\<close>, or the address of the peer. The panic of a goroutine, which ends the whole
  process, is \<^const>\<open>None\<close>.
\<close>

record runtime =
  rtEnv :: env
  rtUuid :: string
  rtNow :: int

section \<open>Opening links\<close>

text \<open>\<^verbatim>\<open>net.JoinHostPort\<close>: a host with a colon is put in brackets.\<close>

definition JoinHostPort :: "string \<Rightarrow> string \<Rightarrow> string" where
  "JoinHostPort host prt = (if CHR '':'' \<in> set host then ''['' @ host @ '']:'' @ prt else host @ '':'' @ prt)"

definition newClusterLink :: "string option \<Rightarrow> nodeRef option \<Rightarrow> bool \<Rightarrow> clusterLink" where
  "newClusterLink conn node inb = \<lparr>lNode = node, lInbound = inb, lHost = conn, lSend = []\<rparr>"

definition CreateClusterLink :: "string option \<Rightarrow> nodeRef option \<Rightarrow> bool \<Rightarrow> ClusterState \<Rightarrow> ClusterState \<times> linkRef" where
  "CreateClusterLink conn node inb s =
     (let l = nextLink s;
          s1 = s\<lparr>links := (links s)(l := newClusterLink conn node inb), nextLink := l + 1\<rparr>
      in (case node of
            None \<Rightarrow> s1
          | Some r \<Rightarrow> if inb then updNode r (SetInbound (Some l)) s1 else updNode r (SetOutbound (Some l)) s1, l))"

definition CLUSTER_HANDSHAKE_NODE :: int where "CLUSTER_HANDSHAKE_NODE = 32"
definition CLUSTER_MEET_NODE :: int where "CLUSTER_MEET_NODE = 128"

definition ClusterStartHandshake ::
    "(string \<Rightarrow> string + string) \<Rightarrow> runtime \<Rightarrow> string \<Rightarrow> int \<Rightarrow> ClusterState \<Rightarrow> (ClusterState \<times> string option) option" where
  "ClusterStartHandshake dial rt senderHost senderPort s =
     (let senderCPort = wrap64 (senderPort + CLUSTER_BUS_PORT_INCR);
          (s1, r) = allocNode (NewNode (rtUuid rt) senderPort senderHost (CLUSTER_HANDSHAKE_NODE OR CLUSTER_MEET_NODE) True) s
      in do { s2 \<leftarrow> SetNode (Some r) s1;
              case dial (JoinHostPort senderHost (Itoa senderCPort)) of
                Inl err \<Rightarrow> Some (s2, Some err)
              | Inr peer \<Rightarrow>
                  (let (s3, l) = CreateClusterLink (Some peer) (Some r) False s2
                   in do { s4 \<leftarrow> clusterSendPing (rtEnv rt) (rtNow rt) l CLUSTERMSG_TYPE_PING s3; Some (s4, None) }) })"

section \<open>The cron job\<close>

text \<open>The scan of \<^verbatim>\<open>ClusterCron\<close>: once the counter has reached \<open>n\<close> it stays there, so every later node is a candidate
  until one qualifies; the \<^verbatim>\<open>break\<close> ends the scan there, so \<^verbatim>\<open>minPong\<close> never matters.\<close>

fun cronScan :: "ClusterState \<Rightarrow> nat \<Rightarrow> nat \<Rightarrow> nodeRef option list \<Rightarrow> linkRef option option" where
  "cronScan s n counter [] = Some None"
| "cronScan s n counter (p # ps) =
     (if counter \<noteq> n then cronScan s n (counter + 1) ps
      else if p = Self s then cronScan s n counter ps
      else do { node \<leftarrow> deref s p;
                let snap = Snapshot node
                in if snapOutbound snap = None \<or> snapPingSent snap \<noteq> None then cronScan s n counter ps
                   else if snapFlags snap AND (CLUSTER_MEET_NODE OR CLUSTER_HANDSHAKE_NODE) \<noteq> 0
                   then cronScan s n counter ps
                   else Some (snapOutbound snap) })"

text \<open>\<open>pick\<close> supplies the choices of the scan (\<^verbatim>\<open>rand.IntN\<close> panics when there are no nodes), \<open>rt\<close> those of the ping.\<close>

definition ClusterCron :: "env \<Rightarrow> runtime \<Rightarrow> int \<Rightarrow> ClusterState \<Rightarrow> ClusterState option" where
  "ClusterCron pick rt iterations s =
     (if iterations mod 10 = 0 then
        (if len (Nodes s) = 0 then None
         else do { pingLink \<leftarrow> cronScan s (rnd pick 0 (len (Nodes s))) 0 (rangeNodes (order pick 0) (Nodes s));
                   case pingLink of
                     None \<Rightarrow> Some s
                   | Some l \<Rightarrow> clusterSendPing (rtEnv rt) (rtNow rt) l CLUSTERMSG_TYPE_PING s })
      else Some s)"

section \<open>The reader of a link\<close>

text \<open>\<^verbatim>\<open>clusterReadLoop\<close>. A frame shorter than its own prefix makes the slice expression \<^verbatim>\<open>buf[:8]\<close> panic; the error of
  \<^verbatim>\<open>deserializeClusterMsg\<close> is not looked at, and \<^verbatim>\<open>clusterProcessMsg\<close> reads the nil message first of all.\<close>

function clusterReadLoop :: "(nat \<Rightarrow> runtime) \<Rightarrow> nat \<Rightarrow> linkRef \<Rightarrow> string \<Rightarrow> ClusterState \<Rightarrow> ClusterState option" where
  "clusterReadLoop rt i l input s =
     (if length input < 8 then Some s
      else if take 4 input \<noteq> ''RCmb'' then Some s
      else let tot = unat (Uint32 (sub input 4 4))
           in if tot < 8 then None
              else if length input < tot then Some s
              else case deserializeClusterMsg (take tot input) of
                     Inl _ \<Rightarrow> None
                   | Inr msg \<Rightarrow>
                       (case clusterProcessMsg (rtEnv (rt i)) (rtUuid (rt i)) (rtNow (rt i)) l msg s of
                          None \<Rightarrow> None
                        | Some s' \<Rightarrow> clusterReadLoop rt (i + 1) l (drop tot input) s'))"
  by pat_completeness auto
termination by (relation "measure (\<lambda>(rt, i, l, input, s). length input)") (auto simp: Let_def)

declare clusterReadLoop.simps [simp del]

text \<open>Processing a list of messages in order.\<close>

fun processAll :: "(nat \<Rightarrow> runtime) \<Rightarrow> nat \<Rightarrow> linkRef \<Rightarrow> clusterMsg list \<Rightarrow> ClusterState \<Rightarrow> ClusterState option" where
  "processAll rt i l [] s = Some s"
| "processAll rt i l (m # ms) s =
     do { s' \<leftarrow> clusterProcessMsg (rtEnv (rt i)) (rtUuid (rt i)) (rtNow (rt i)) l m s; processAll rt (i + 1) l ms s' }"

section \<open>What the reader does\<close>

lemma wire_prefix:
  assumes "msg_ok m"
  shows "length (wireBytes m) = unat (totLen m)" "take 4 (wireBytes m) = ''RCmb''"
    "Uint32 (sub (wireBytes m) 4 4) = totLen m" "2106 \<le> unat (totLen m)"
proof -
  have sig: "Sig m = ''RCmb''" "length (Sig m) = 4" and sl: "length (msgSlots m) = 256"
    and tot: "unat (totLen m) = 2106 + 54 * length (Gossip m)"
    using assms by (auto simp: msg_ok_def sizes)
  show "length (wireBytes m) = unat (totLen m)" using length_wire [OF sig(2) sl] tot by simp
  show "take 4 (wireBytes m) = ''RCmb''" using sig by (simp add: wireBytes_def fixedBytes_def)
  show "Uint32 (sub (wireBytes m) 4 4) = totLen m"
    by (simp add: sub_wire_fixed [OF sig(2)] fixed_fields [OF sig(2)] u32c.dec_enc)
  show "2106 \<le> unat (totLen m)" using tot by simp
qed

lemma readLoop_frame:
  assumes "msg_ok m"
  shows "clusterReadLoop rt i l (wireBytes m @ rest) s =
     do { s' \<leftarrow> clusterProcessMsg (rtEnv (rt i)) (rtUuid (rt i)) (rtNow (rt i)) l m s; clusterReadLoop rt (i + 1) l rest s' }"
proof -
  note w = wire_prefix [OF assms]
  have "sub (wireBytes m @ rest) 4 4 = sub (wireBytes m) 4 4"
    using w(1,4) by (simp add: sub_append_left)
  moreover have "deserializeClusterMsg (wireBytes m) = Inr m" using deserialize_serialize [OF assms] by blast
  ultimately show ?thesis
    using w by (subst clusterReadLoop.simps) (simp add: Let_def split: option.splits)
qed

lemma readLoop_stream:
  assumes "\<forall>m \<in> set ms. msg_ok m"
  shows "clusterReadLoop rt i l (concat (map wireBytes ms) @ rest) s =
     do { s' \<leftarrow> processAll rt i l ms s; clusterReadLoop rt (i + length ms) l rest s' }"
  using assms
proof (induction ms arbitrary: i s)
  case (Cons m ms)
  then show ?case by (simp add: readLoop_frame split: Option.bind_splits)
qed simp

lemma processAll_result:
  assumes "bus_wf s" "\<forall>i. env_ok (rtEnv (rt i))" "\<forall>m \<in> set ms. length (msgSlots m) = 256"
  shows "\<exists>s'. processAll rt i l ms s = Some s' \<and> bus_wf s'"
  using assms
proof (induction ms arbitrary: i s)
  case (Cons m ms)
  then show ?case
    using process_result [of s "rtEnv (rt i)" m "rtUuid (rt i)" "rtNow (rt i)" l] by fastforce
qed simp

section \<open>Links and nodes\<close>

text \<open>The outbound link of a node is one of ours to that node.\<close>

definition links_wf :: "ClusterState \<Rightarrow> bool" where
  "links_wf s \<longleftrightarrow> (\<forall>r < nextRef s. \<forall>l. outbound (store s r) = Some l \<longrightarrow>
     l < nextLink s \<and> lNode (links s l) = Some r \<and> \<not> lInbound (links s l))"

lemma links_wfD:
  assumes "links_wf s" "r < nextRef s" "outbound (store s r) = Some l"
  shows "l < nextLink s" "lNode (links s l) = Some r" "\<not> lInbound (links s l)"
  using assms by (auto simp: links_wf_def)

lemma link_setters_simps [simp]:
  "Name (SetOutbound p n) = Name n" "OwnedSlots (SetOutbound p n) = OwnedSlots n" "outbound (SetOutbound p n) = p"
  "Name (SetInbound p n) = Name n" "OwnedSlots (SetInbound p n) = OwnedSlots n" "outbound (SetInbound p n) = outbound n"
  "node_wf (SetOutbound p n) = node_wf n" "node_wf (SetInbound p n) = node_wf n"
  "flags (SetOutbound p n) = flags n" "flags (SetInbound p n) = flags n"
  by (simp_all add: SetOutbound_def SetInbound_def node_wf_def)

lemma CreateClusterLink_bus:
  assumes "bus_wf s" "r < nextRef s" "CreateClusterLink conn (Some r) False s = (s', l)"
  shows "bus_wf s'" "\<not> lInbound (links s' l)"
proof -
  have s': "s' = updNode r (SetOutbound (Some l)) (s\<lparr>links := (links s)(l := newClusterLink conn (Some r) False), nextLink := l + 1\<rparr>)"
    using assms(3) by (auto simp: CreateClusterLink_def Let_def)
  have "cs_wf (s\<lparr>links := (links s)(l := newClusterLink conn (Some r) False), nextLink := l + 1\<rparr>)"
    using assms(1) by (simp add: bus_wf_def cs_wf_def)
  then have "cs_wf s'" unfolding s' by (rule cs_wf_updNode) (use assms(1,2) in \<open>auto simp: bus_wf_def dest: cs_wfD(8)\<close>)
  then show "bus_wf s'" "\<not> lInbound (links s' l)"
    using assms(1,2) by (auto simp: bus_wf_def s' updNode_def newClusterLink_def)
qed

lemma CreateClusterLink_spec:
  assumes "bus_wf s" "links_wf s" "r < nextRef s" "CreateClusterLink conn (Some r) False s = (s', l)"
  shows "bus_wf s'" "links_wf s'" "l = nextLink s" "links s' = (links s)(l := newClusterLink conn (Some r) False)"
    "store s' = (store s)(r := SetOutbound (Some l) (store s r))" "Nodes s' = Nodes s" "Self s' = Self s"
    "nextRef s' = nextRef s" "clusterState s' = clusterState s"
proof -
  have s': "s' = updNode r (SetOutbound (Some l)) (s\<lparr>links := (links s)(l := newClusterLink conn (Some r) False), nextLink := l + 1\<rparr>)"
    and l: "l = nextLink s" using assms(4) by (auto simp: CreateClusterLink_def Let_def)
  show "bus_wf s'" by (rule CreateClusterLink_bus(1) [OF assms(1,3,4)])
  show "links_wf s'"
    using assms(2,3) unfolding links_wf_def
    by (auto simp: s' l updNode_def newClusterLink_def split: if_splits dest: less_SucI)
  show "l = nextLink s" "links s' = (links s)(l := newClusterLink conn (Some r) False)"
    "store s' = (store s)(r := SetOutbound (Some l) (store s r))" "Nodes s' = Nodes s" "Self s' = Self s"
    "nextRef s' = nextRef s" "clusterState s' = clusterState s" by (simp_all add: s' l updNode_def)
qed

text \<open>Registering the handshake node.\<close>

lemma register_spec:
  assumes "bus_wf s" "links_wf s" "node_wf n" "outbound n = None" "allocNode n s = (s1, r)"
  shows "\<exists>s2. SetNode (Some r) s1 = Some s2 \<and> bus_wf s2 \<and> links_wf s2 \<and> r = nextRef s \<and> nextRef s2 = nextRef s + 1
     \<and> lookup (Nodes s2) = (lookup (Nodes s))(Name n \<mapsto> Some r) \<and> store s2 = (store s)(r := n)
     \<and> links s2 = links s \<and> Self s2 = Self s \<and> nextLink s2 = nextLink s"
proof -
  have wf: "cs_wf s" using assms(1) by (simp add: bus_wf_def)
  note a = allocNode_wf [OF wf assms(3,5)]
  obtain s2 where s2: "SetNode (Some r) s1 = Some s2" "cs_wf s2" "lookup (Nodes s2) = (lookup (Nodes s1))(Name (store s1 r) \<mapsto> Some r)"
    "store s2 = store s1" "nextRef s2 = nextRef s1" "Self s2 = Self s1" "links s2 = links s1"
    using SetNode_wf [OF a(1), of r] a by auto
  have nl: "nextLink s2 = nextLink s"
    using s2(1) assms(5) by (auto simp: SetNode_def allocNode_def deref_def split: Option.bind_splits)
  have "bus_wf s2" using assms(1) s2 a by (auto simp: bus_wf_def intro: less_SucI)
  moreover have "links_wf s2"
    using assms(2,4) s2 a nl by (auto simp: links_wf_def less_Suc_eq)
  ultimately show ?thesis using s2 a nl by simp
qed

lemma ping_keeps:
  assumes "bus_wf s" "links_wf s" "\<not> lInbound (links s l)"
  shows "bus_wf (updLink l (\<lambda>lk. lk\<lparr>lSend := lSend lk @ q\<rparr>) s)" "links_wf (updLink l (\<lambda>lk. lk\<lparr>lSend := lSend lk @ q\<rparr>) s)"
proof -
  show "bus_wf (updLink l (\<lambda>lk. lk\<lparr>lSend := lSend lk @ q\<rparr>) s)" using assms(1) by (simp add: bus_wf_def)
  have "nextLink (updLink l f s) = nextLink s" for f by (simp add: updLink_def)
  then show "links_wf (updLink l (\<lambda>lk. lk\<lparr>lSend := lSend lk @ q\<rparr>) s)" using assms(2) by (simp add: links_wf_def)
qed

lemma markPing_outbound: "\<not> lInbound (links s l) \<Longrightarrow> markPing now l mt s = s"
  by (simp add: markPing_def)

text \<open>A ping over one of our own links only queues a message.\<close>

lemma ping_outbound:
  assumes "bus_wf s" "links_wf s" "env_ok e" "len (Nodes s) < 2 ^ 26" "\<not> lInbound (links s l)"
  shows "\<exists>buf. clusterSendPing e now l CLUSTERMSG_TYPE_PING s = Some (updLink l (\<lambda>lk. lk\<lparr>lSend := lSend lk @ [buf]\<rparr>) s)"
  using clusterSendPing_result [of s e l CLUSTERMSG_TYPE_PING now] assms markPing_outbound [OF assms(5)]
  by (auto simp: bus_wf_def)

text \<open>Whatever the number of nodes, a ping over a link of ours does not panic.\<close>

lemma ping_safe:
  assumes "bus_wf s" "env_ok e" "\<not> lInbound (links s l)"
  shows "\<exists>s'. clusterSendPing e now l CLUSTERMSG_TYPE_PING s = Some s' \<and> bus_wf s' \<and> store s' = store s \<and> Self s' = Self s"
proof -
  obtain rs where "clusterSendPing e now l CLUSTERMSG_TYPE_PING s
       = Some (case serializeClusterMsg (pingMsg CLUSTERMSG_TYPE_PING rs s) of None \<Rightarrow> s
               | Some buf \<Rightarrow> updLink l (\<lambda>lk. lk\<lparr>lSend := lSend lk @ [buf]\<rparr>) s)"
    using clusterSendPing_core [of s e l CLUSTERMSG_TYPE_PING now, unfolded markPing_outbound [OF assms(3)]] assms
    by (auto simp: bus_wf_def)
  then show ?thesis using assms(1) by (auto simp: bus_wf_def split: option.split)
qed

section \<open>The cron scan\<close>

text \<open>What \<^verbatim>\<open>ClusterCron\<close> asks of the node it pings.\<close>

definition pingable :: "ClusterState \<Rightarrow> nodeRef \<Rightarrow> bool" where
  "pingable s r \<longleftrightarrow> Some r \<noteq> Self s \<and> outbound (store s r) \<noteq> None \<and> pingSent (store s r) = None
     \<and> flags (store s r) AND 160 = 0"

lemma meet_mask: "CLUSTER_MEET_NODE OR CLUSTER_HANDSHAKE_NODE = 160"
  by (simp add: CLUSTER_MEET_NODE_def CLUSTER_HANDSHAKE_NODE_def)

lemma cronScan_spec:
  assumes "None \<notin> set ps"
  shows "\<exists>r. cronScan s n c ps = Some r \<and> (\<forall>l. r = Some l \<longrightarrow>
     (\<exists>k. Some k \<in> set ps \<and> pingable s k \<and> outbound (store s k) = Some l))"
  using assms
proof (induction ps arbitrary: c)
  case (Cons p ps)
  then obtain k where p: "p = Some k" by (cases p) auto
  note IH = Cons.IH [of c] Cons.IH [of "c + 1"]
  show ?case
    using IH Cons.prems unfolding p
    by (auto simp: deref_def Let_def Snapshot_def meet_mask pingable_def)
qed simp

section \<open>Properties\<close>

text \<open>the reader of a link cuts the byte stream into exactly the messages that were serialized into it and processes
  them in order, without a panic and keeping the state well formed; an incomplete prefix at the end is dropped.\<close>

theorem clusterReadLoop_stream:
  assumes "bus_wf s" "\<forall>i. env_ok (rtEnv (rt i))" "\<forall>m \<in> set ms. msg_ok m" "length rest < 8"
  shows "\<exists>bufs s'. map serializeClusterMsg ms = map Some bufs
     \<and> clusterReadLoop rt 0 l (concat bufs @ rest) s = Some s' \<and> processAll rt 0 l ms s = Some s' \<and> bus_wf s'"
proof -
  have "\<forall>m \<in> set ms. length (msgSlots m) = 256" using assms(3) by (simp add: msg_ok_def)
  then obtain s' where s': "processAll rt 0 l ms s = Some s'" "bus_wf s'"
    using processAll_result [OF assms(1,2)] by blast
  have "clusterReadLoop rt n l rest s' = Some s'" for n
    using assms(4) by (subst clusterReadLoop.simps) simp
  then have "clusterReadLoop rt 0 l (concat (map wireBytes ms) @ rest) s = Some s'"
    using readLoop_stream [OF assms(3), of rt 0 l rest s] s'(1) by simp
  moreover have "map serializeClusterMsg ms = map Some (map wireBytes ms)"
    using assms(3) deserialize_serialize by simp
  ultimately show ?thesis using s' by blast
qed

text \<open>C39: \<^verbatim>\<open>CLUSTER MEET\<close> never panics and keeps the state well formed: the peer is filed under its temporary name as
  a handshake node without slots, no other node's slots change, a failed dial is reported, and after a successful one the
  new outbound link of the peer holds exactly one message.\<close>

theorem ClusterStartHandshake_spec:
  assumes "bus_wf s" "links_wf s" "env_ok (rtEnv rt)" "len (Nodes s) + 1 < 2 ^ 26"
  shows "\<exists>s' err r. ClusterStartHandshake dial rt host prt s = Some (s', err) \<and> bus_wf s' \<and> links_wf s'
     \<and> lookup (Nodes s') = (lookup (Nodes s))(''temp_'' @ rtUuid rt \<mapsto> Some r) \<and> r = nextRef s
     \<and> slots_of (store s' r) = {} \<and> flags (store s' r) = 160 \<and> Host (store s' r) = host
     \<and> (\<forall>r' < nextRef s. store s' r' = store s r')
     \<and> (case dial (JoinHostPort host (Itoa (wrap64 (prt + 10000)))) of
          Inl e \<Rightarrow> err = Some e \<and> links s' = links s
        | Inr peer \<Rightarrow> err = None \<and> (\<exists>buf. outbound (store s' r) = Some (nextLink s)
            \<and> links s' (nextLink s) = \<lparr>lNode = Some r, lInbound = False, lHost = Some peer, lSend = [buf]\<rparr>))"
proof -
  let ?n = "NewNode (rtUuid rt) prt host (CLUSTER_HANDSHAKE_NODE OR CLUSTER_MEET_NODE) True"
  have n: "node_wf ?n" "outbound ?n = None" "Name ?n = ''temp_'' @ rtUuid rt" "slots_of ?n = {}" "flags ?n = 160" "Host ?n = host"
    by (simp_all only: NewNode_wf) (simp_all add: NewNode_def CLUSTER_MEET_NODE_def CLUSTER_HANDSHAKE_NODE_def)
  obtain s1 r where a: "allocNode ?n s = (s1, r)" by force
  obtain s2 where s2: "SetNode (Some r) s1 = Some s2" "bus_wf s2" "links_wf s2" "r = nextRef s" "nextRef s2 = nextRef s + 1"
    "lookup (Nodes s2) = (lookup (Nodes s))(Name ?n \<mapsto> Some r)" "store s2 = (store s)(r := ?n)"
    "links s2 = links s" "Self s2 = Self s" "nextLink s2 = nextLink s"
    using register_spec [OF assms(1,2) n(1,2) a] by blast
  show ?thesis
  proof (cases "dial (JoinHostPort host (Itoa (wrap64 (prt + 10000))))")
    case (Inl e)
    then have "ClusterStartHandshake dial rt host prt s = Some (s2, Some e)"
      using a s2(1) by (simp add: ClusterStartHandshake_def CLUSTER_BUS_PORT_INCR_def)
    with Inl s2 n show ?thesis by simp
  next
    case (Inr peer)
    obtain s3 l where c: "CreateClusterLink (Some peer) (Some r) False s2 = (s3, l)" by force
    note c' = CreateClusterLink_spec [OF s2(2,3) _ c, unfolded s2(4,5), simplified]
    have "len (Nodes s2) \<le> len (Nodes s) + 1"
      using s2(2,6) assms(1) by (simp add: bus_wf_def cs_wf_def len_eq_card card_insert_if)
    then have few: "len (Nodes s3) < 2 ^ 26" using c'(6) assms(4) by simp
    have nl: "\<not> lInbound (links s3 l)" using c'(4) by (simp add: newClusterLink_def)
    obtain buf where buf: "clusterSendPing (rtEnv rt) (rtNow rt) l CLUSTERMSG_TYPE_PING s3
        = Some (updLink l (\<lambda>lk. lk\<lparr>lSend := lSend lk @ [buf]\<rparr>) s3)" (is "_ = Some ?s4")
      using ping_outbound [OF c'(1,2) assms(3) few nl] by blast
    have "ClusterStartHandshake dial rt host prt s = Some (?s4, None)"
      using a s2(1) c buf Inr by (simp add: ClusterStartHandshake_def CLUSTER_BUS_PORT_INCR_def)
    moreover have "bus_wf ?s4" "links_wf ?s4" using ping_keeps [OF c'(1,2) nl] by auto
    moreover have "links ?s4 (nextLink s) = \<lparr>lNode = Some r, lInbound = False, lHost = Some peer, lSend = [buf]\<rparr>"
      "outbound (store ?s4 r) = Some (nextLink s)"
      using c'(3,4,5) s2(4,10) by (simp_all add: newClusterLink_def)
    moreover have "slots_of (store ?s4 r) = {}" "flags (store ?s4 r) = 160" "Host (store ?s4 r) = host"
      using c'(5) s2(4,7) n by (simp_all add: slots_of_def SetOutbound_def)
    ultimately show ?thesis using Inr c'(5,6) s2(4,6,7) n(3) by simp
  qed
qed

text \<open>the cron job never panics and does nothing but queue at most one ping, on the outbound link of a known node
  that is not this server, is past its handshake and has no ping outstanding; it marks no ping as sent.\<close>

theorem ClusterCron_pings:
  assumes "bus_wf s" "links_wf s" "env_ok pick" "env_ok (rtEnv rt)" "0 < len (Nodes s)" "len (Nodes s) < 2 ^ 26"
  shows "ClusterCron pick rt iterations s = Some s
     \<or> (\<exists>r l buf. ClusterCron pick rt iterations s = Some (updLink l (\<lambda>lk. lk\<lparr>lSend := lSend lk @ [buf]\<rparr>) s)
        \<and> iterations mod 10 = 0 \<and> r \<in> known s \<and> pingable s r \<and> outbound (store s r) = Some l \<and> lNode (links s l) = Some r)"
proof -
  let ?ps = "rangeNodes (order pick 0) (Nodes s)"
  have wf: "cs_wf s" using assms(1) by (simp add: bus_wf_def)
  have "set ?ps = ran (lookup (Nodes s))"
    by (rule set_rangeNodes) (use assms(3) cs_wfD(4) [OF wf] in \<open>auto simp: env_ok_def\<close>)
  then have ps: "None \<notin> set ?ps" "\<And>k. Some k \<in> set ?ps \<Longrightarrow> k \<in> known s"
    using cs_wfD(7) [OF wf] by (auto simp: ran_def known_def)
  obtain q where q: "cronScan s (rnd pick 0 (len (Nodes s))) 0 ?ps = Some q"
    "\<And>l. q = Some l \<Longrightarrow> \<exists>k. Some k \<in> set ?ps \<and> pingable s k \<and> outbound (store s k) = Some l"
    using cronScan_spec [OF ps(1)] by blast
  show ?thesis
  proof (cases "iterations mod 10 = 0 \<and> q \<noteq> None")
    case True
    then obtain l k where l: "q = Some l" "k \<in> known s" "pingable s k" "outbound (store s k) = Some l"
      using q(2) ps(2) by blast
    have k: "k < nextRef s" using known_wf [OF wf l(2)] by blast
    from ping_outbound [OF assms(1,2,4,6) links_wfD(3) [OF assms(2) k l(4)], of "rtNow rt"]
    show ?thesis using True l q(1) assms(5) links_wfD(2) [OF assms(2) k l(4)] by (auto simp: ClusterCron_def)
  next
    case False
    then show ?thesis using q(1) assms(5) by (auto simp: ClusterCron_def)
  qed
qed

text \<open>C40: a frame that arrives whole but is shorter than a message header panics in the reader, whatever the state:
  the decoder's error is not looked at. Eight bytes on the bus port stop the server.\<close>

theorem short_frame_panics:
  assumes "8 \<le> length input" "take 4 input = ''RCmb''" "unat (Uint32 (sub input 4 4)) < 2106"
    "unat (Uint32 (sub input 4 4)) \<le> length input"
  shows "clusterReadLoop rt i l input s = None"
  using assms by (subst clusterReadLoop.simps) (simp add: deserializeClusterMsg_def sizes Let_def)

theorem short_frame_panics_witness:
  "\<exists>rt s. clusterReadLoop rt 0 0 (''RCmb'' @ [CHR 0x00, CHR 0x00, CHR 0x00, CHR 0x08]) s = None"
  using short_frame_panics [of "''RCmb'' @ [CHR 0x00, CHR 0x00, CHR 0x00, CHR 0x08]"]
  by (simp add: sub_def Uint32_def be_val_def)

section \<open>Witnesses\<close>

definition exampleRt :: runtime where
  "exampleRt = \<lparr>rtEnv = \<lparr>rnd = (\<lambda>i n. i mod n), order = (\<lambda>_. keys)\<rparr>, rtUuid = ''u'', rtNow = 100\<rparr>"

lemma exampleRt_ok: "env_ok (rtEnv exampleRt)"
  using env_ok_example by (simp add: exampleRt_def)

abbreviation exampleState :: ClusterState where
  "exampleState \<equiv> initState (NewNode ''id'' 7000 ''h'' 0 False)"

lemma exampleState_ok:
  "bus_wf exampleState" "links_wf exampleState" "len (Nodes exampleState) = 1" "nextLink exampleState = 0" "nextRef exampleState = 1"
  by (simp add: initState_bus NewNode_wf(1)) (simp_all add: links_wf_def initState_def NewNode_def len_def)

lemma map_Some_twice: "map f [m, m] = map Some bufs \<Longrightarrow> \<exists>b. bufs = [b, b] \<and> f m = Some b"
  by (auto simp: Cons_eq_map_conv)

theorem clusterReadLoop_stream_witness:
  "\<exists>buf s'. serializeClusterMsg \<lparr>Sig = ''RCmb'', msgType = 0, totLen = 2106, msgCount = 0, port = 7001, sender = ''peer'',
       cport = 17001, msgFlags = 0, msgState = 0, msgSlots = replicate 256 1, Gossip = []\<rparr> = Some buf
     \<and> clusterReadLoop (\<lambda>_. exampleRt) 0 0 (buf @ buf @ ''RCm'') exampleState = Some s' \<and> bus_wf s'"
proof -
  let ?m = "\<lparr>Sig = ''RCmb'', msgType = 0, totLen = 2106, msgCount = 0, port = 7001, sender = ''peer'',
       cport = 17001, msgFlags = 0, msgState = 0, msgSlots = replicate 256 1, Gossip = []\<rparr>"
  have ok: "\<forall>m \<in> set [?m, ?m]. msg_ok m" by (simp add: msg_ok_def name_ok_def sizes)
  have rt: "\<forall>i :: nat. env_ok (rtEnv exampleRt)" using exampleRt_ok by simp
  have "length ''RCm'' < 8" by simp
  obtain bufs s' where b: "map serializeClusterMsg [?m, ?m] = map Some bufs"
    "clusterReadLoop (\<lambda>_. exampleRt) 0 0 (concat bufs @ ''RCm'') exampleState = Some s'" "bus_wf s'"
    using clusterReadLoop_stream [OF exampleState_ok(1) rt ok \<open>length ''RCm'' < 8\<close>, of 0] by blast
  obtain buf where "bufs = [buf, buf]" "serializeClusterMsg ?m = Some buf"
    using map_Some_twice [OF b(1)] by blast
  moreover from this b(2) have "clusterReadLoop (\<lambda>_. exampleRt) 0 0 (buf @ buf @ ''RCm'') exampleState = Some s'"
    by (simp only: concat.simps append_Nil2 append_assoc)
  ultimately show ?thesis using b(3) by blast
qed

theorem ClusterStartHandshake_spec_witness:
  "\<exists>s' buf. ClusterStartHandshake (\<lambda>_. Inr ''10.0.0.9'') exampleRt ''10.0.0.9'' 7001 exampleState = Some (s', None)
     \<and> lSend (links s' 0) = [buf] \<and> lookup (Nodes s') (''temp_'' @ rtUuid exampleRt) = Some (Some 1)"
proof -
  have few: "len (Nodes exampleState) + 1 < 2 ^ 26" by (simp add: exampleState_ok)
  from ClusterStartHandshake_spec [OF exampleState_ok(1,2) exampleRt_ok few, of "\<lambda>_. Inr ''10.0.0.9''" "''10.0.0.9''" 7001]
  obtain s' err r buf where s': "ClusterStartHandshake (\<lambda>_. Inr ''10.0.0.9'') exampleRt ''10.0.0.9'' 7001 exampleState = Some (s', err)"
    "err = None" "r = nextRef exampleState" "lookup (Nodes s') = (lookup (Nodes exampleState))(''temp_'' @ rtUuid exampleRt \<mapsto> Some r)"
    "links s' (nextLink exampleState) = \<lparr>lNode = Some r, lInbound = False, lHost = Some ''10.0.0.9'', lSend = [buf]\<rparr>"
    unfolding sum.case by blast
  have "lSend (links s' 0) = [buf]" using s'(5) unfolding exampleState_ok(4) by (simp only: clusterLink.simps)
  moreover have "lookup (Nodes s') (''temp_'' @ rtUuid exampleRt) = Some (Some 1)"
    using s'(3,4) unfolding exampleState_ok(5) by (simp only: fun_upd_same)
  ultimately show ?thesis using s'(1,2) by blast
qed

theorem ClusterCron_pings_witness:
  "\<exists>s'. ClusterCron (rtEnv exampleRt) exampleRt 20 exampleState = Some s'"
proof -
  have "0 < len (Nodes exampleState)" "len (Nodes exampleState) < 2 ^ 26" by (simp_all add: exampleState_ok)
  from ClusterCron_pings [OF exampleState_ok(1,2) exampleRt_ok exampleRt_ok this, of 20] show ?thesis by blast
qed

end
