(* ===== verification/Resp_Wire.thy ===== *)
theory Resp_Wire
  imports Go_Strconv
begin

text \<open>
  \<^verbatim>\<open>utils/go-resp\<close>, the wire side: the integer parsers of \<^verbatim>\<open>helpers.go\<close>, with their 8-, 32- and 64-bit
  arithmetic, and the \<^verbatim>\<open>Write\<close> family of \<^verbatim>\<open>server.go\<close>, each as the bytes it sends. A write that the connection
  refuses only sets the sticky \<^verbatim>\<open>werr\<close>, which no handler looks at, so the bytes are the model.
\<close>

section \<open>\<^verbatim>\<open>helpers.go\<close>\<close>

definition SanitizeSimpleString :: "string \<Rightarrow> string" where
  "SanitizeSimpleString buf = map (\<lambda>c. if c = CHR 0x0D \<or> c = CHR 0x0A then CHR '' '' else c) buf"

text \<open>\<^verbatim>\<open>b - '0'\<close> on bytes wraps: a minus sign becomes 253.\<close>

definition digitByte :: "char \<Rightarrow> u8" where
  "digitByte c = of_nat (of_char c) - 48"

text \<open>The digit loop of \<^verbatim>\<open>ParseInt64\<close> and \<^verbatim>\<open>ParseInt32\<close>: \<open>lim\<close> is the index from which it checks for overflow.\<close>

fun parseLoop :: "nat \<Rightarrow> nat \<Rightarrow> 'w :: len word \<Rightarrow> string \<Rightarrow> numErr + 'w word" where
  "parseLoop lim i v [] = Inr v"
| "parseLoop lim i v (b # bs) =
     (if i \<ge> lim \<and> v > (- 1) div 10 then Inl ErrRange
      else let c = digitByte b
           in if c > 9 then Inl ErrSyntax
              else let ic = ucast c; v1 = v * 10
                   in if i \<ge> lim \<and> v1 > (- 1) - ic then Inl ErrRange
                      else parseLoop lim (i + 1) (v1 + ic) bs)"

definition ParseInt64 :: "string \<Rightarrow> numErr + int" where
  "ParseInt64 b =
     (let l = length b
      in if l = 0 \<or> l > 20 then Inl ErrSyntax
         else let c = digitByte (b ! 0)
              in if c = 253 \<and> l = 1 then Inl ErrSyntax
                 else if c \<noteq> 253 \<and> c > 9 then Inl ErrSyntax
                 else if c = 0 then (if l = 1 then Inr 0 else Inl ErrSyntax)
                 else let neg = (c = 253); v0 = (if neg then 0 else ucast c :: u64)
                      in case parseLoop 19 1 v0 (drop 1 b) of
                           Inl e \<Rightarrow> Inl e
                         | Inr v \<Rightarrow>
                             (if neg then (if v > 9223372036854775808 then Inl ErrRange else Inr (sint (- v)))
                              else if v > 9223372036854775807 then Inl ErrRange else Inr (sint v)))"

definition ParseInt32 :: "string \<Rightarrow> numErr + int" where
  "ParseInt32 b =
     (let l = length b
      in if l = 0 \<or> l > 11 then Inl ErrSyntax
         else let c = digitByte (b ! 0)
              in if c = 253 \<and> l = 1 then Inl ErrSyntax
                 else if c \<noteq> 253 \<and> c > 9 then Inl ErrSyntax
                 else if c = 0 then (if l = 1 then Inr 0 else Inl ErrSyntax)
                 else let neg = (c = 253); v0 = (if neg then 0 else ucast c :: u32)
                      in case parseLoop 10 1 v0 (drop 1 b) of
                           Inl e \<Rightarrow> Inl e
                         | Inr v \<Rightarrow>
                             (if neg then (if v > 2147483648 then Inl ErrRange else Inr (sint (- v)))
                              else if v > 2147483647 then Inl ErrRange else Inr (sint v)))"

fun uintLoop :: "u64 \<Rightarrow> string \<Rightarrow> numErr + u64" where
  "uintLoop n [] = Inr n"
| "uintLoop n (b # bs) =
     (let c = digitByte b in if c > 9 then Inl ErrSyntax else uintLoop (n * 10 + ucast c) bs)"

definition ParseUInt32 :: "string \<Rightarrow> numErr + u32" where
  "ParseUInt32 b =
     (if length b = 0 \<or> length b > 10 then Inl ErrSyntax
      else case uintLoop 0 b of
             Inl e \<Rightarrow> Inl e
           | Inr n \<Rightarrow> if n > 4294967295 then Inl ErrRange else Inr (ucast n))"

section \<open>Writers\<close>

abbreviation CRLF :: string where "CRLF \<equiv> [CHR 0x0D, CHR 0x0A]"

text \<open>\<open>body = None\<close> is the nil slice, which writes no body part at all.\<close>

definition writeWithPrefix :: "string \<Rightarrow> string \<Rightarrow> string option \<Rightarrow> string" where
  "writeWithPrefix prefix head body =
     prefix @ SanitizeSimpleString head @ CRLF @ (case body of None \<Rightarrow> [] | Some b \<Rightarrow> b @ CRLF)"

definition writeWithType :: "char \<Rightarrow> string \<Rightarrow> string option \<Rightarrow> string" where
  "writeWithType typeByte head body = writeWithPrefix [typeByte] head body"

definition WriteStatusString :: "string \<Rightarrow> string" where
  "WriteStatusString v = writeWithType (CHR ''+'') v None"

definition WriteError :: "string \<Rightarrow> string" where
  "WriteError e = writeWithPrefix ''-ERR '' e None"

definition WriteOK :: string where
  "WriteOK = writeWithPrefix ''+OK'' [] None"

definition WriteBytes :: "string \<Rightarrow> string" where
  "WriteBytes v = writeWithType (CHR ''$'') (Itoa (int (length v))) (Some v)"

definition WriteString :: "string \<Rightarrow> string" where
  "WriteString v = WriteBytes v"

definition WriteInt64 :: "int \<Rightarrow> string" where
  "WriteInt64 v = writeWithType (CHR '':'') (Itoa v) None"

definition WriteInt :: "int \<Rightarrow> string" where
  "WriteInt v = WriteInt64 v"

definition WriteExplicitNullString :: string where
  "WriteExplicitNullString = writeWithPrefix ''$-1'' [] None"

definition WriteExplicitNullArray :: string where
  "WriteExplicitNullArray = writeWithPrefix ''*-1'' [] None"

definition WriteNullArray :: "bool \<Rightarrow> string" where
  "WriteNullArray resp2 = (if resp2 then WriteExplicitNullArray else writeWithType (CHR ''_'') [] None)"

definition WriteNullString :: "bool \<Rightarrow> string" where
  "WriteNullString resp2 = (if resp2 then WriteExplicitNullString else writeWithType (CHR ''_'') [] None)"

definition WriteBool :: "bool \<Rightarrow> bool \<Rightarrow> string" where
  "WriteBool resp2 v =
     (if resp2 then (if v then WriteInt 1 else WriteInt 0)
      else if v then writeWithPrefix ''#t'' [] None else writeWithPrefix ''#f'' [] None)"

definition WriteBlobError :: "bool \<Rightarrow> string \<Rightarrow> string" where
  "WriteBlobError resp2 e =
     (if resp2 then WriteError e else writeWithType (CHR ''!'') (Itoa (int (length e))) (Some e))"

text \<open>For RESP2 the encoding part, the first four bytes, is dropped if it is there.\<close>

definition WriteVerbatimBytes :: "bool \<Rightarrow> string \<Rightarrow> string" where
  "WriteVerbatimBytes resp2 v =
     (if resp2 then (if length v \<ge> 4 then WriteBytes (drop 4 v) else WriteBytes v)
      else writeWithType (CHR ''='') (Itoa (int (length v))) (Some v))"

text \<open>\<open>fmtFloat\<close> stands for \<^verbatim>\<open>strconv.AppendFloat(nil, v, 'g', -1, 64)\<close>.\<close>

definition WriteFloat :: "(u64 \<Rightarrow> string) \<Rightarrow> bool \<Rightarrow> u64 \<Rightarrow> string" where
  "WriteFloat fmtFloat resp2 v =
     (if resp2 then WriteBytes (fmtFloat v) else writeWithType (CHR '','') (fmtFloat v) None)"

definition WriteArrayHeader :: "int \<Rightarrow> string" where
  "WriteArrayHeader l = writeWithType (CHR ''*'') (Itoa l) None"

definition WriteArrayBytes :: "string list \<Rightarrow> string" where
  "WriteArrayBytes v = WriteArrayHeader (int (length v)) @ concat (map WriteBytes v)"

definition WriteArrayString :: "string list \<Rightarrow> string" where
  "WriteArrayString v = WriteArrayHeader (int (length v)) @ concat (map WriteString v)"

definition WriteMapHeader :: "bool \<Rightarrow> int \<Rightarrow> string" where
  "WriteMapHeader resp2 l =
     (if resp2 then WriteArrayHeader (l * 2) else writeWithType (CHR ''%'') (Itoa l) None)"

text \<open>\<^verbatim>\<open>Int64\<close> of a big number keeps its low 64 bits.\<close>

definition WriteBigInt :: "bool \<Rightarrow> int \<Rightarrow> string" where
  "WriteBigInt resp2 v = (if resp2 then WriteInt64 (wrap64 v) else writeWithType (CHR ''('') (Itoa v) None)"

text \<open>The dynamic types \<^verbatim>\<open>Write\<close> distinguishes; a map is the list of its entries in iteration order.\<close>

datatype goany = GBytes string | GString string | GInt int | GFloat u64 | GBool bool | GError string | GNil
  | GBig int | GArray "goany list" | GMap "(string \<times> goany) list" | GOther

text \<open>What is written, and whether the call succeeded: a value of another type is an error that stops the
  enclosing array after what was already sent.\<close>

fun Write :: "(u64 \<Rightarrow> string) \<Rightarrow> bool \<Rightarrow> goany \<Rightarrow> string \<times> bool"
  and WriteElems :: "(u64 \<Rightarrow> string) \<Rightarrow> bool \<Rightarrow> goany list \<Rightarrow> string \<times> bool"
  and WriteEntries :: "(u64 \<Rightarrow> string) \<Rightarrow> bool \<Rightarrow> (string \<times> goany) list \<Rightarrow> string \<times> bool" where
  "Write ff r2 (GBytes v) = (WriteBytes v, True)"
| "Write ff r2 (GString v) = (WriteString v, True)"
| "Write ff r2 (GInt v) = (WriteInt v, True)"
| "Write ff r2 (GFloat v) = (WriteFloat ff r2 v, True)"
| "Write ff r2 (GBool v) = (WriteBool r2 v, True)"
| "Write ff r2 (GError e) = (WriteError e, True)"
| "Write ff r2 GNil = (WriteNullString r2, True)"
| "Write ff r2 (GBig v) = (WriteBigInt r2 v, True)"
| "Write ff r2 (GArray vs) =
     (let (out, ok) = WriteElems ff r2 vs in (WriteArrayHeader (int (length vs)) @ out, ok))"
| "Write ff r2 (GMap kvs) =
     (let (out, ok) = WriteEntries ff r2 kvs in (WriteMapHeader r2 (int (length kvs)) @ out, ok))"
| "Write ff r2 GOther = ([], False)"
| "WriteElems ff r2 [] = ([], True)"
| "WriteElems ff r2 (v # vs) =
     (let (out, ok) = Write ff r2 v
      in if \<not> ok then (out, False) else let (out', ok') = WriteElems ff r2 vs in (out @ out', ok'))"
| "WriteEntries ff r2 [] = ([], True)"
| "WriteEntries ff r2 ((k, v) # kvs) =
     (let (out, ok) = Write ff r2 v
      in if \<not> ok then (WriteString k @ out, False)
         else let (out', ok') = WriteEntries ff r2 kvs in (WriteString k @ out @ out', ok'))"

definition WriteArray :: "(u64 \<Rightarrow> string) \<Rightarrow> bool \<Rightarrow> goany list \<Rightarrow> string \<times> bool" where
  "WriteArray ff r2 v = Write ff r2 (GArray v)"

definition WriteMap :: "(u64 \<Rightarrow> string) \<Rightarrow> bool \<Rightarrow> (string \<times> goany) list \<Rightarrow> string \<times> bool" where
  "WriteMap ff r2 kvs = Write ff r2 (GMap kvs)"

definition stringEntries :: "(string \<times> string) list \<Rightarrow> string" where
  "stringEntries kvs = concat (map (\<lambda>(k, v). WriteString k @ WriteString v) kvs)"

definition WriteMapString :: "bool \<Rightarrow> (string \<times> string) list \<Rightarrow> string" where
  "WriteMapString r2 kvs = WriteMapHeader r2 (int (length kvs)) @ stringEntries kvs"

definition WriteSetHeader :: "bool \<Rightarrow> int \<Rightarrow> string" where
  "WriteSetHeader resp2 l = (if resp2 then WriteArrayHeader l else writeWithType (CHR ''~'') (Itoa l) None)"

definition WriteSetString :: "bool \<Rightarrow> string list \<Rightarrow> string" where
  "WriteSetString r2 v = WriteSetHeader r2 (int (length v)) @ concat (map WriteString v)"

definition WriteSet :: "(u64 \<Rightarrow> string) \<Rightarrow> bool \<Rightarrow> goany list \<Rightarrow> string \<times> bool" where
  "WriteSet ff r2 v = (let (out, ok) = WriteElems ff r2 v in (WriteSetHeader r2 (int (length v)) @ out, ok))"

text \<open>Attributes and push messages are left out for RESP2.\<close>

definition WriteAttrString :: "bool \<Rightarrow> (string \<times> string) list \<Rightarrow> string" where
  "WriteAttrString r2 kvs =
     (if r2 then [] else writeWithType (CHR ''|'') (Itoa (int (length kvs))) None @ stringEntries kvs)"

definition WriteAttr :: "(u64 \<Rightarrow> string) \<Rightarrow> bool \<Rightarrow> (string \<times> goany) list \<Rightarrow> string \<times> bool" where
  "WriteAttr ff r2 kvs =
     (if r2 then ([], True)
      else let (out, ok) = WriteEntries ff r2 kvs in (writeWithType (CHR ''|'') (Itoa (int (length kvs))) None @ out, ok))"

definition WritePushString :: "bool \<Rightarrow> string list \<Rightarrow> string" where
  "WritePushString r2 v =
     (if r2 then [] else writeWithType (CHR ''>'') (Itoa (int (length v))) None @ concat (map WriteString v))"

definition WritePush :: "(u64 \<Rightarrow> string) \<Rightarrow> bool \<Rightarrow> goany list \<Rightarrow> string \<times> bool" where
  "WritePush ff r2 v =
     (if r2 then ([], True)
      else let (out, ok) = WriteElems ff r2 v in (writeWithType (CHR ''>'') (Itoa (int (length v))) None @ out, ok))"

text \<open>\<^verbatim>\<open>writeClusterCommand\<close> of \<^verbatim>\<open>utils/clusters/cluster.go\<close> builds the same bytes on its own.\<close>

definition writeClusterCommand :: "string list \<Rightarrow> string" where
  "writeClusterCommand args =
     ''*'' @ Itoa (int (length args)) @ CRLF
     @ concat (map (\<lambda>arg. ''$'' @ Itoa (int (length arg)) @ CRLF @ arg @ CRLF) args)"

section \<open>Decimal texts\<close>

lemma digitByte_digit: "d < 10 \<Longrightarrow> digitByte (digit_char d) = of_nat d"
  by (simp add: digitByte_def digit_char_def)

lemma utoa_no_crlf: "CHR 0x0D \<notin> set (utoa n)" "CHR 0x0A \<notin> set (utoa n)"
  using utoa_digits [of "CHR 0x0D" n] utoa_digits [of "CHR 0x0A" n] by (auto simp: is_digit_def)

lemma Itoa_no_crlf: "CHR 0x0D \<notin> set (Itoa x)" "CHR 0x0A \<notin> set (Itoa x)"
  by (auto simp: Itoa_def utoa_no_crlf)

lemma sanitize_id: "CHR 0x0D \<notin> set s \<Longrightarrow> CHR 0x0A \<notin> set s \<Longrightarrow> SanitizeSimpleString s = s"
  unfolding SanitizeSimpleString_def by (rule map_idI) auto

lemma sanitize_clean: "c \<in> set (SanitizeSimpleString s) \<Longrightarrow> c \<noteq> CHR 0x0D \<and> c \<noteq> CHR 0x0A"
  by (auto simp: SanitizeSimpleString_def)

lemma sanitize_Itoa [simp]: "SanitizeSimpleString (Itoa x) = Itoa x"
  by (simp add: sanitize_id Itoa_no_crlf)

text \<open>The digit loops on decimal texts: no check fires while the value fits.\<close>

lemma ucast_small: "d < 10 \<Longrightarrow> (ucast (of_nat d :: u8) :: 'w :: len word) = of_nat d"
  using of_nat_unat [of "of_nat d :: u8", where 'a = "'w word"] by (simp add: unat_of_nat take_bit_nat_eq_self)

lemma digit_not_gt9: "d < 10 \<Longrightarrow> \<not> (of_nat d :: u8) > 9"
  by (simp add: word_less_nat_alt unat_of_nat take_bit_nat_eq_self not_less)

definition dec_val :: "nat \<Rightarrow> string \<Rightarrow> nat" where
  "dec_val v s = foldl (\<lambda>a c. a * 10 + digit_val c) v s"

lemma is_digit_cases: "is_digit c \<Longrightarrow> \<exists>d < 10. c = digit_char d \<and> digit_val c = d"
proof -
  assume "is_digit c"
  then have "digit_val c < 10" "48 + digit_val c = (of_char c :: nat)" by (auto simp: is_digit_def digit_val_def)
  then have "c = digit_char (digit_val c)" by (simp add: digit_char_def)
  with \<open>digit_val c < 10\<close> show ?thesis by blast
qed

lemma parseLoop_digits:
  "\<forall>c \<in> set bs. is_digit c \<Longrightarrow> i + length bs \<le> lim \<Longrightarrow>
     parseLoop lim i (of_nat v :: 'w :: len word) bs = Inr (of_nat (dec_val v bs))"
proof (induction bs arbitrary: i v)
  case (Cons b bs)
  then obtain d where d: "d < 10" "b = digit_char d" "digit_val b = d" using is_digit_cases [of b] by auto
  have "parseLoop lim i (of_nat v :: 'w word) (b # bs) = parseLoop lim (i + 1) (of_nat (v * 10 + d)) bs"
    using Cons.prems(2) d(1) digit_not_gt9 [OF d(1)]
    by (simp add: d(2) digitByte_digit Let_def ucast_small mult.commute)
  also have "\<dots> = Inr (of_nat (dec_val (v * 10 + d) bs))"
    by (rule Cons.IH) (use Cons.prems in simp_all)
  finally show ?case using d(3) by (simp add: dec_val_def)
qed (simp add: dec_val_def)

lemma uintLoop_digits:
  "\<forall>c \<in> set bs. is_digit c \<Longrightarrow> uintLoop (of_nat v) bs = Inr (of_nat (dec_val v bs))"
proof (induction bs arbitrary: v)
  case (Cons b bs)
  then obtain d where d: "d < 10" "b = digit_char d" "digit_val b = d" using is_digit_cases [of b] by auto
  have "uintLoop (of_nat v) (b # bs) = uintLoop (of_nat (v * 10 + d)) bs"
    using digit_not_gt9 [OF d(1)]
    by (simp add: d(2) digitByte_digit [OF d(1)] Let_def ucast_small [OF d(1)] mult.commute)
  also have "\<dots> = Inr (of_nat (dec_val (v * 10 + d) bs))"
    by (rule Cons.IH) (use Cons.prems in simp)
  finally show ?case using d(3) by (simp add: dec_val_def)
qed (simp add: dec_val_def)

lemma dec_val_append1: "dec_val v (s @ [c]) = dec_val v s * 10 + digit_val c"
  by (simp add: dec_val_def)

lemma dec_val_utoa: "dec_val 0 (utoa n) = n"
proof (induction n rule: utoa.induct)
  case (1 n)
  show ?case
  proof (cases "n < 10")
    case False
    then have "utoa n = utoa (n div 10) @ [digit_char (n mod 10)]" by (subst utoa.simps) simp
    with "1.IH" [OF False] show ?thesis by (simp add: dec_val_append1)
  qed (subst utoa.simps, simp add: dec_val_def)
qed

lemma utoa_length: "n < 10 ^ k \<Longrightarrow> 0 < k \<Longrightarrow> length (utoa n) \<le> k"
proof (induction n arbitrary: k rule: utoa.induct)
  case (1 n)
  show ?case
  proof (cases "n < 10")
    case False
    with "1.prems" obtain j where k: "k = Suc j" "0 < j" by (cases k; cases "k - 1") auto
    have "n div 10 < 10 ^ j" using "1.prems"(1) k(1) by (simp add: less_mult_imp_div_less mult.commute)
    then have "length (utoa (n div 10)) \<le> j" using "1.IH" [OF False] k(2) by simp
    then show ?thesis using False k(1) by (subst utoa.simps) simp
  qed (use "1.prems" in \<open>subst utoa.simps, simp\<close>)
qed

lemma utoa_first: "0 < n \<Longrightarrow> \<exists>d ds. 0 < d \<and> d < 10 \<and> utoa n = digit_char d # ds"
proof (induction n rule: utoa.induct)
  case (1 n)
  show ?case
  proof (cases "n < 10")
    case True
    then show ?thesis using "1.prems" by (subst utoa.simps) auto
  next
    case False
    then have "0 < n div 10" by (simp add: div_greater_zero_iff)
    then obtain d ds where "0 < d" "d < 10" "utoa (n div 10) = digit_char d # ds" using "1.IH" [OF False] by blast
    with False show ?thesis by (subst utoa.simps) auto
  qed
qed

lemma ParseUInt32_utoa: "n < 2 ^ 32 \<Longrightarrow> ParseUInt32 (utoa n) = Inr (of_nat n)"
proof -
  assume n: "n < 2 ^ 32"
  have "length (utoa n) \<le> 10" using n utoa_length [of n 10] by simp
  moreover have "uintLoop 0 (utoa n) = Inr (of_nat n)"
    using uintLoop_digits [of "utoa n" 0] utoa_digits by (auto simp: dec_val_utoa)
  moreover have "\<not> (of_nat n :: u64) > 4294967295"
    using n by (simp add: word_less_nat_alt unat_of_nat take_bit_nat_eq_self)
  moreover have "(ucast (of_nat n :: u64) :: u32) = of_nat n"
    using n of_nat_unat [of "of_nat n :: u64", where 'a = u32] by (simp add: unat_of_nat take_bit_nat_eq_self)
  ultimately show ?thesis by (simp add: ParseUInt32_def)
qed

lemma ParseInt32_utoa: "0 < n \<Longrightarrow> n < 2 ^ 31 \<Longrightarrow> ParseInt32 (utoa n) = Inr (int n)"
proof -
  assume n: "0 < n" "n < 2 ^ 31"
  obtain d ds where d: "0 < d" "d < 10" "utoa n = digit_char d # ds" using utoa_first [OF n(1)] by blast
  have len: "length (utoa n) \<le> 10" using n(2) utoa_length [of n 10] by simp
  have dig: "\<forall>c \<in> set ds. is_digit c" using utoa_digits [of _ n] d(3) by auto
  have "parseLoop 10 1 (of_nat d :: u32) ds = Inr (of_nat (dec_val d ds))"
    by (rule parseLoop_digits [OF dig]) (use len d(3) in simp)
  moreover have "dec_val d ds = n"
    using dec_val_utoa [of n] d by (simp add: dec_val_def)
  moreover have c: "digitByte (digit_char d) = of_nat d" by (rule digitByte_digit [OF d(2)])
  moreover have "(of_nat d :: u8) \<noteq> 253" "(of_nat d :: u8) \<noteq> 0"
    using d(1,2) by (auto simp: word_unat_eq_iff unat_of_nat take_bit_nat_eq_self)
  moreover have "\<not> (of_nat n :: u32) > 2147483647" "sint (of_nat n :: u32) = int n"
    using n(2) by (simp_all add: word_less_nat_alt unat_of_nat take_bit_nat_eq_self sint_uint unsigned_of_nat signed_take_bit_int_eq_self)
  ultimately show ?thesis
    using d(3) len digit_not_gt9 [OF d(2)] ucast_small [OF d(2), where 'w = 32] by (simp add: ParseInt32_def Let_def)
qed

lemma WriteBytes_eq: "WriteBytes v = ''$'' @ Itoa (int (length v)) @ CRLF @ v @ CRLF"
  by (simp add: WriteBytes_def writeWithType_def writeWithPrefix_def)

lemma WriteArrayBytes_eq:
  "WriteArrayBytes args = ''*'' @ Itoa (int (length args)) @ CRLF @ concat (map WriteBytes args)"
  by (simp add: WriteArrayBytes_def WriteArrayHeader_def writeWithType_def writeWithPrefix_def)

lemma writeClusterCommand_eq: "writeClusterCommand args = WriteArrayBytes args"
proof -
  have "(\<lambda>arg. ''$'' @ Itoa (int (length arg)) @ CRLF @ arg @ CRLF) = WriteBytes"
    by (simp add: WriteBytes_eq fun_eq_iff)
  then show ?thesis by (simp add: writeClusterCommand_def WriteArrayBytes_eq)
qed

section \<open>Properties\<close>

text \<open>a status or error reply is one line whatever text is put into it: the only line break of the
  bytes is the one that ends them, so no client text can forge a second reply.\<close>

theorem simple_reply_is_one_line:
  "\<exists>a b. WriteStatusString v = a @ CRLF \<and> WriteError v = b @ CRLF \<and> hd a = CHR ''+'' \<and> take 5 b = ''-ERR ''
     \<and> CHR 0x0D \<notin> set (a @ b) \<and> CHR 0x0A \<notin> set (a @ b)"
proof -
  let ?s = "SanitizeSimpleString v"
  have "WriteStatusString v = (CHR ''+'' # ?s) @ CRLF" "WriteError v = (''-ERR '' @ ?s) @ CRLF"
    by (simp_all add: WriteStatusString_def WriteError_def writeWithType_def writeWithPrefix_def)
  moreover have "CHR 0x0D \<notin> set ?s" "CHR 0x0A \<notin> set ?s" using sanitize_clean by blast+
  ultimately show ?thesis
    by (intro exI [of _ "CHR ''+'' # ?s"] exI [of _ "''-ERR '' @ ?s"]) simp
qed

text \<open>the length parsers read back every length a peer may write: ParseUInt32 every 32-bit number,
  ParseInt32 every positive 31-bit number, both in the decimal form Itoa prints.\<close>

theorem length_parsers_read_lengths:
  assumes "0 < n" "n < 2 ^ 31" "m < 2 ^ 32"
  shows "ParseInt32 (Itoa (int n)) = Inr (int n) \<and> ParseUInt32 (Itoa (int m)) = Inr (of_nat m)"
  using ParseInt32_utoa [OF assms(1,2)] ParseUInt32_utoa [OF assms(3)] by (simp add: Itoa_def)

theorem length_parsers_read_lengths_witness:
  "ParseInt32 (Itoa (int 1024)) = Inr 1024 \<and> ParseUInt32 (Itoa (int 0)) = Inr 0"
  using length_parsers_read_lengths [of 1024 0] by simp

text \<open>the overflow check of ParseInt32 starts one digit late: a ten digit number past the 32-bit
  range is not refused but wraps, so the multibulk header of 4294967297 elements reads as one.\<close>

theorem ParseInt32_overflow_unchecked:
  "ParseInt32 ''4294967297'' = Inr 1 \<and> ParseInt32 ''2147483648'' = Inl ErrRange"
  by code_simp

end
