(* ===== verification/Server_Routing.thy ===== *)
theory Server_Routing
  imports KV_Strings KV_Hashes KV_SortedSets Cluster_Bus Resp_Wire
begin

text \<open>
  \<^verbatim>\<open>cmd/ember-server\<close>, how a command reaches its key: \<^verbatim>\<open>toMoveorNotToMove\<close> and \<^verbatim>\<open>clusterSlots\<close> of
  \<^verbatim>\<open>commands_cluster.go\<close>, and the shape every keyed handler has. A handler maps the store and the argument
  list to the store it leaves and the replies it writes, one byte string for each \<^verbatim>\<open>Write\<close> call;
  \<^const>\<open>None\<close> is a panic. The record \<open>ctx\<close> collects what the handlers take from outside the sources:
  the checksum, \<^verbatim>\<open>ParseFloat\<close> and \<^verbatim>\<open>FormatFloat\<close>, the Unicode tables (for \<^verbatim>\<open>ToLower\<close> and \<^verbatim>\<open>strconv.Quote\<close>) and
  the iteration orders, \<^verbatim>\<open>json.Marshal\<close>, and the network: \<open>cx_dial\<close> is \<^verbatim>\<open>net.Dial\<close>, and \<open>cx_ask addr cmd\<close> sends a command
  and is \<^const>\<open>None\<close> when the peer answers \<^verbatim>\<open>OK\<close> and the text of the error otherwise.
\<close>

record ctx =
  cx_crc :: crc16
  cx_float :: "string \<Rightarrow> u64 option"
  cx_lower :: "string \<Rightarrow> string"
  cx_nodes :: nodeIter
  cx_keys :: "(string, Value) gomap \<Rightarrow> string list"
  cx_fmt :: "u64 \<Rightarrow> string"
  cx_quote :: "string \<Rightarrow> string"
  cx_json :: "(string, NodeSnapshot) gomap \<Rightarrow> string + string"
  cx_dial :: "string \<Rightarrow> string + string"
  cx_ask :: "string \<Rightarrow> string list \<Rightarrow> string option"
  cx_rt :: runtime
  cx_chans :: "(string, nat list) gomap \<Rightarrow> string list"

type_synonym reply = string
type_synonym outcome = "(KVStore \<times> reply list) option"

section \<open>Routing\<close>

definition movedReply :: "u16 \<Rightarrow> NodeSnapshot \<Rightarrow> reply" where
  "movedReply slot owner =
     ''-MOVED '' @ Itoa (uint slot) @ '' '' @ JoinHostPort (snapHost owner) (Itoa (snapClientPort owner)) @ CRLF"

datatype route = RouteOK | RouteMoved | RouteError

text \<open>The verdict, and the reply it has already written unless the key is served here.\<close>

definition toMoveorNotToMove :: "ctx \<Rightarrow> ClusterState option \<Rightarrow> string \<Rightarrow> (route \<times> reply list) option" where
  "toMoveorNotToMove cx cs key =
     (let slot = SlotForKey (cx_crc cx) key
      in do { s \<leftarrow> cs;
              case GetSlotOwner (cx_nodes cx) (unat slot) s of
                None \<Rightarrow> Some (RouteError, [WriteError ''CLUSTERDOWN Hash slot not served''])
              | Some r \<Rightarrow>
                  if Some r \<noteq> Self s then Some (RouteMoved, [movedReply slot (Snapshot (store s r))])
                  else Some (RouteOK, []) })"

text \<open>\<^verbatim>\<open>if clusterEnabled && toMoveorNotToMove(key, rconn, kv) != OK { return }\<close>, then the rest of the handler.\<close>

definition routed :: "ctx \<Rightarrow> ClusterState option \<Rightarrow> bool \<Rightarrow> KVStore \<Rightarrow> string \<Rightarrow> outcome \<Rightarrow> outcome" where
  "routed cx cs cluster kv key body =
     (if cluster then
        do { (r, out) \<leftarrow> toMoveorNotToMove cx cs key;
             if r \<noteq> RouteOK then Some (kv, out) else body }
      else body)"

text \<open>\<^verbatim>\<open>CLUSTER SLOTS\<close>: maximal runs of slots with the same owner. The inner loop looks for the end of a run.\<close>

function runEnd :: "ctx \<Rightarrow> ClusterState \<Rightarrow> nodeRef \<Rightarrow> nat \<Rightarrow> nat" where
  "runEnd cx s owner end =
     (if end + 1 < CLUSTER_SLOTS \<and> GetSlotOwner (cx_nodes cx) (end + 1) s = Some owner
      then runEnd cx s owner (end + 1) else end)"
  by pat_completeness auto
termination by (relation "measure (\<lambda>(cx, s, owner, end). CLUSTER_SLOTS - end)") auto

declare runEnd.simps [simp del]

lemma runEnd_ge: "end \<le> runEnd cx s owner end"
proof (induction cx s owner "end" rule: runEnd.induct)
  case (1 cx s owner "end")
  then show ?case by (subst runEnd.simps) auto
qed

function slotRuns :: "ctx \<Rightarrow> ClusterState \<Rightarrow> nat \<Rightarrow> (nat \<times> nat \<times> nodeRef) list" where
  "slotRuns cx s start =
     (if start < CLUSTER_SLOTS then
        (case GetSlotOwner (cx_nodes cx) start s of
           None \<Rightarrow> slotRuns cx s (start + 1)
         | Some owner \<Rightarrow> (let end = runEnd cx s owner start in (start, end, owner) # slotRuns cx s (end + 1)))
      else [])"
  by pat_completeness auto
termination
proof (relation "measure (\<lambda>(cx, s, start). CLUSTER_SLOTS - start)")
  fix cx s start owner e
  assume "start < CLUSTER_SLOTS" "e = runEnd cx s owner start"
  then show "((cx, s, e + 1), cx, s, start) \<in> measure (\<lambda>(cx, s, start). CLUSTER_SLOTS - start)"
    using runEnd_ge [of start cx s owner] by auto
qed auto

declare slotRuns.simps [simp del]

definition clusterSlots :: "ctx \<Rightarrow> ClusterState \<Rightarrow> goany list" where
  "clusterSlots cx s =
     map (\<lambda>(start, end, owner).
        let node = Snapshot (store s owner)
        in GArray [GInt (int start), GInt (int end),
                   GArray [GString (snapHost node), GInt (snapClientPort node), GString (snapName node)]])
       (slotRuns cx s 0)"

section \<open>What routing guarantees\<close>

text \<open>A server as \<^verbatim>\<open>Run\<close> sets it up: in cluster mode there is a well-formed view of the cluster.\<close>

definition srv_ok :: "ctx \<Rightarrow> ClusterState option \<Rightarrow> bool \<Rightarrow> KVStore \<Rightarrow> bool" where
  "srv_ok cx cs cluster kv \<longleftrightarrow> kv_wf (cx_crc cx) kv \<and> clusterEnabled kv = cluster \<and> is_iteration (cx_nodes cx)
     \<and> is_iteration (cx_keys cx) \<and> (cluster \<longrightarrow> (\<exists>s. cs = Some s \<and> cs_wf s))"

text \<open>This server serves the key.\<close>

definition serves :: "ctx \<Rightarrow> ClusterState option \<Rightarrow> bool \<Rightarrow> string \<Rightarrow> bool" where
  "serves cx cs cluster key \<longleftrightarrow>
     (cluster \<longrightarrow> (\<exists>s. cs = Some s \<and> slotIndex (cx_crc cx) key \<in> slots_of (store s (self_ref s))))"

lemma route_total:
  assumes "srv_ok cx cs True kv"
  shows "\<exists>r out. toMoveorNotToMove cx cs key = Some (r, out) \<and> (r = RouteOK \<longleftrightarrow> serves cx cs True key)
     \<and> (r = RouteOK \<longrightarrow> out = []) \<and> (r \<noteq> RouteOK \<longrightarrow> length out = 1)"
proof -
  obtain s where s: "cs = Some s" "cs_wf s" and it: "is_iteration (cx_nodes cx)" using assms by (auto simp: srv_ok_def)
  let ?slot = "slotIndex (cx_crc cx) key"
  note f = GetSlotOwner_facts [OF s(2) it slotIndex_bound, of "cx_crc cx" key]
  have own: "?slot \<in> slots_of (store s (self_ref s)) \<Longrightarrow> GetSlotOwner (cx_nodes cx) ?slot s = Some (self_ref s)"
    using f(3) by (simp add: owners_def)
  have not: "?slot \<notin> slots_of (store s (self_ref s)) \<Longrightarrow> GetSlotOwner (cx_nodes cx) ?slot s \<noteq> Some (self_ref s)"
    using f(1) by (auto simp: owners_def)
  show ?thesis
    using own not s(1) cs_wfD(1) [OF s(2)]
    by (cases "GetSlotOwner (cx_nodes cx) ?slot s") (auto simp: toMoveorNotToMove_def serves_def Let_def)
qed

text \<open>A store operation that does not panic and keeps the invariant.\<close>

definition kv_safe :: "crc16 \<Rightarrow> KVStore \<Rightarrow> 'r kvop \<Rightarrow> bool" where
  "kv_safe crc kv out \<longleftrightarrow> (\<exists>kv' r. out = Some (kv', r) \<and> kv_wf crc kv' \<and> clusterEnabled kv' = clusterEnabled kv)"

lemma kv_result_safe: "kv_result crc kv out ks r \<Longrightarrow> kv_safe crc kv out"
  by (auto simp: kv_result_def kv_safe_def)

lemma kv_safe_same: "kv_wf crc kv \<Longrightarrow> kv_safe crc kv (Some (kv, r))"
  by (auto simp: kv_safe_def)

text \<open>The contract of a handler: it never panics, keeps the server well formed and answers something.\<close>

definition out_ok :: "ctx \<Rightarrow> ClusterState option \<Rightarrow> bool \<Rightarrow> outcome \<Rightarrow> bool" where
  "out_ok cx cs cluster out \<longleftrightarrow> (\<exists>kv' replies. out = Some (kv', replies) \<and> srv_ok cx cs cluster kv' \<and> replies \<noteq> [])"

lemma out_ok_same: "srv_ok cx cs cluster kv \<Longrightarrow> rs \<noteq> [] \<Longrightarrow> out_ok cx cs cluster (Some (kv, rs))"
  by (simp add: out_ok_def)

lemma out_ok_op:
  assumes "srv_ok cx cs cluster kv" "kv_safe (cx_crc cx) kv op" "\<And>r. f r \<noteq> []"
  shows "out_ok cx cs cluster (do { (kv', r) \<leftarrow> op; Some (kv', f r) })"
  using assms by (auto simp: kv_safe_def out_ok_def srv_ok_def)

lemma out_ok_routed:
  assumes "srv_ok cx cs cluster kv" "out_ok cx cs cluster body"
  shows "out_ok cx cs cluster (routed cx cs cluster kv key body)"
proof (cases cluster)
  case True
  then obtain r out where "toMoveorNotToMove cx cs key = Some (r, out)" "r \<noteq> RouteOK \<longrightarrow> length out = 1"
    using route_total [of cx cs kv key] assms(1) by auto
  with assms True show ?thesis by (cases "r = RouteOK") (auto simp: routed_def intro!: out_ok_same)
qed (use assms in \<open>simp add: routed_def\<close>)

lemma routed_elsewhere:
  assumes "srv_ok cx cs cluster kv" "\<not> serves cx cs cluster key"
  shows "\<exists>reply. routed cx cs cluster kv key body = Some (kv, [reply])"
proof -
  have c: "cluster" using assms(2) by (simp add: serves_def)
  then obtain r out where "toMoveorNotToMove cx cs key = Some (r, out)" "r \<noteq> RouteOK" "length out = 1"
    using route_total [of cx cs kv key] assms by auto
  with c show ?thesis by (cases out) (auto simp: routed_def)
qed

text \<open>The reply for a key that another server has, or none.\<close>

definition redirection :: "ctx \<Rightarrow> ClusterState \<Rightarrow> string \<Rightarrow> reply" where
  "redirection cx s key =
     (case GetSlotOwner (cx_nodes cx) (slotIndex (cx_crc cx) key) s of
        None \<Rightarrow> WriteError ''CLUSTERDOWN Hash slot not served''
      | Some r \<Rightarrow> movedReply (SlotForKey (cx_crc cx) key) (Snapshot (store s r)))"

lemma routed_redirects:
  assumes "srv_ok cx (Some s) True kv" "\<not> serves cx (Some s) True key"
  shows "routed cx (Some s) True kv key body = Some (kv, [redirection cx s key])"
proof -
  have wf: "cs_wf s" "is_iteration (cx_nodes cx)" using assms(1) by (auto simp: srv_ok_def)
  have "GetSlotOwner (cx_nodes cx) (slotIndex (cx_crc cx) key) s \<noteq> Some (self_ref s)"
    using GetSlotOwner_facts(1) [OF wf slotIndex_bound] assms(2) by (auto simp: owners_def serves_def)
  then show ?thesis
    using cs_wfD(1) [OF wf(1)]
    by (auto simp: routed_def toMoveorNotToMove_def redirection_def Let_def split: option.split)
qed

lemma routed_here:
  assumes "srv_ok cx cs cluster kv" "serves cx cs cluster key"
  shows "routed cx cs cluster kv key body = body"
proof (cases cluster)
  case True
  then obtain out where "toMoveorNotToMove cx cs key = Some (RouteOK, out)"
    using route_total [of cx cs kv key] assms by auto
  with True show ?thesis by (simp add: routed_def)
qed (simp add: routed_def)

section \<open>\<^verbatim>\<open>CLUSTER SLOTS\<close>\<close>

lemma runEnd_spec:
  assumes "GetSlotOwner (cx_nodes cx) e s = Some owner" "e < CLUSTER_SLOTS"
  shows "runEnd cx s owner e < CLUSTER_SLOTS
     \<and> (\<forall>i. e \<le> i \<and> i \<le> runEnd cx s owner e \<longrightarrow> GetSlotOwner (cx_nodes cx) i s = Some owner)
     \<and> (runEnd cx s owner e + 1 < CLUSTER_SLOTS \<longrightarrow> GetSlotOwner (cx_nodes cx) (runEnd cx s owner e + 1) s \<noteq> Some owner)"
  using assms
proof (induction cx s owner e rule: runEnd.induct)
  case (1 cx s owner e)
  show ?case
  proof (cases "e + 1 < CLUSTER_SLOTS \<and> GetSlotOwner (cx_nodes cx) (e + 1) s = Some owner")
    case True
    then have r: "runEnd cx s owner e = runEnd cx s owner (e + 1)" by (subst runEnd.simps) simp
    have "\<forall>i. e \<le> i \<longrightarrow> i = e \<or> e + 1 \<le> i" by auto
    then show ?thesis unfolding r using "1.IH" [OF True] True "1.prems"(1) by blast
  next
    case False
    then have "runEnd cx s owner e = e" by (subst runEnd.simps) auto
    with False "1.prems" show ?thesis by (auto simp: le_antisym)
  qed
qed

text \<open>The runs from \<open>start\<close> on: in order, disjoint and maximal, and together all the owned slots with their owners.\<close>

lemma slotRuns_spec:
  shows "(\<forall>(a, b, r) \<in> set (slotRuns cx s start). start \<le> a \<and> a \<le> b \<and> b < CLUSTER_SLOTS
        \<and> (\<forall>i. a \<le> i \<and> i \<le> b \<longrightarrow> GetSlotOwner (cx_nodes cx) i s = Some r))
     \<and> (\<forall>i r. start \<le> i \<and> i < CLUSTER_SLOTS \<and> GetSlotOwner (cx_nodes cx) i s = Some r \<longrightarrow>
          (\<exists>a b. (a, b, r) \<in> set (slotRuns cx s start) \<and> a \<le> i \<and> i \<le> b))
     \<and> sorted_wrt (\<lambda>(a, b, r) (a', b', r'). b < a' \<and> (a' = b + 1 \<longrightarrow> r \<noteq> r')) (slotRuns cx s start)"
proof (induction cx s start rule: slotRuns.induct)
  case (1 cx s start)
  let ?own = "\<lambda>i. GetSlotOwner (cx_nodes cx) i s"
  show ?case
  proof (cases "start < CLUSTER_SLOTS")
    case False
    then show ?thesis by (subst (1 2 3) slotRuns.simps) auto
  next
    case lt: True
    show ?thesis
    proof (cases "?own start")
      case None
      then have r: "slotRuns cx s start = slotRuns cx s (start + 1)" using lt by (subst slotRuns.simps) simp
      have "start \<le> i \<longrightarrow> i = start \<or> start + 1 \<le> i" for i by auto
      with "1.IH"(1) [OF lt None] None show ?thesis unfolding r by fastforce
    next
      case (Some owner)
      define e where "e = runEnd cx s owner start"
      note run = runEnd_spec [OF Some lt, folded e_def] and ge = runEnd_ge [of start cx s owner, folded e_def]
      have r: "slotRuns cx s start = (start, e, owner) # slotRuns cx s (e + 1)"
        using lt Some by (subst slotRuns.simps) (simp add: e_def Let_def)
      note IH = "1.IH"(2) [OF lt Some e_def]
      have next_run: "a' = e + 1 \<longrightarrow> owner \<noteq> r'" if "(a', b', r') \<in> set (slotRuns cx s (e + 1))" for a' b' r'
        using that IH run by fastforce
      have "start \<le> i \<longrightarrow> (start \<le> i \<and> i \<le> e) \<or> e + 1 \<le> i" for i by auto
      then have "\<exists>a b. (a, b, r) \<in> set (slotRuns cx s start) \<and> a \<le> i \<and> i \<le> b"
        if "start \<le> i" "i < CLUSTER_SLOTS" "?own i = Some r" for i r
        using that IH run unfolding r by (metis (no_types, lifting) list.set_intros(1) list.set_intros(2) option.inject)
      moreover have "sorted_wrt (\<lambda>(a, b, r) (a', b', r'). b < a' \<and> (a' = b + 1 \<longrightarrow> r \<noteq> r')) (slotRuns cx s start)"
        using IH next_run unfolding r by fastforce
      moreover have "\<forall>(a, b, r) \<in> set (slotRuns cx s start). start \<le> a \<and> a \<le> b \<and> b < CLUSTER_SLOTS
          \<and> (\<forall>i. a \<le> i \<and> i \<le> b \<longrightarrow> ?own i = Some r)"
        using IH run ge unfolding r by fastforce
      ultimately show ?thesis by blast
    qed
  qed
qed

end
