(* ===== verification/Server_Commands.thy ===== *)
theory Server_Commands
  imports Server_Routing
begin

text \<open>
  The handlers of \<^verbatim>\<open>cmd/ember-server\<close> for commands on one key, or on the keys of one slot: \<^verbatim>\<open>commands_strings.go\<close>,
  \<^verbatim>\<open>commands_lists.go\<close>, \<^verbatim>\<open>commands_hashes.go\<close>, \<^verbatim>\<open>commands_sets.go\<close> and \<^verbatim>\<open>commands_sortedsets.go\<close>, one definition each.
  The list of arguments does not contain the command itself.

  Every one of them keeps the contract of the locale \<open>keyed_handler\<close>: arguments of the wrong number are refused
  with one error, a key served elsewhere is answered with one redirection and touches nothing, and the rest does not
  panic and keeps the store well formed.
\<close>

type_synonym handler = "ctx \<Rightarrow> ClusterState option \<Rightarrow> bool \<Rightarrow> KVStore \<Rightarrow> string list \<Rightarrow> outcome"

text \<open>\<^verbatim>\<open>handleConnection\<close> leaves the connection in RESP3 mode.\<close>

definition resp2compat :: bool where "resp2compat = False"

section \<open>Strings\<close>

definition handleSet :: handler where
  "handleSet cx cs cluster kv args =
     (case args of
        [key, val] \<Rightarrow> routed cx cs cluster kv key
          (do { (kv', _) \<leftarrow> SetKV (cx_crc cx) kv key val; Some (kv', [WriteOK]) })
      | _ \<Rightarrow> Some (kv, [WriteError ''ERR Wrong number of arguments for 'SET' command'']))"

definition handleGet :: handler where
  "handleGet cx cs cluster kv args =
     (case args of
        [key] \<Rightarrow>
          (let val = Get (cx_crc cx) kv key
           in routed cx cs cluster kv key
                (if val = ''(nil)'' then Some (kv, [WriteStatusString ''No such key'']) else Some (kv, [WriteString val])))
      | _ \<Rightarrow> Some (kv, [WriteError ''ERR Wrong number of arguments for 'GET' command'']))"

text \<open>The error of \<^verbatim>\<open>Append\<close> is dropped.\<close>

definition handleAppend :: handler where
  "handleAppend cx cs cluster kv args =
     (case args of
        [key, valueToAppend] \<Rightarrow> routed cx cs cluster kv key
          (do { (kv', _) \<leftarrow> Append (cx_crc cx) kv key valueToAppend; Some (kv', [WriteOK]) })
      | _ \<Rightarrow> Some (kv, [WriteError ''ERR Wrong number of arguments for 'APPEND' command'']))"

text \<open>The four counter handlers do not return after an error: they go on to write \<^verbatim>\<open>OK\<close>.\<close>

definition counterReplies :: "kvError option \<Rightarrow> reply list" where
  "counterReplies err = (if err \<noteq> None then [WriteError ''ERR value is not an integer''] else []) @ [WriteOK]"

definition handleIncr :: handler where
  "handleIncr cx cs cluster kv args =
     (case args of
        [key] \<Rightarrow> routed cx cs cluster kv key
          (do { (kv', err) \<leftarrow> Incr (cx_crc cx) kv key; Some (kv', counterReplies err) })
      | _ \<Rightarrow> Some (kv, [WriteError ''ERR Wrong number of arguments for 'INCR' command'']))"

definition handleIncrBy :: handler where
  "handleIncrBy cx cs cluster kv args =
     (case args of
        [key, incrByVal] \<Rightarrow> routed cx cs cluster kv key
          (do { (kv', err) \<leftarrow> IncrBy (cx_crc cx) kv key incrByVal; Some (kv', counterReplies err) })
      | _ \<Rightarrow> Some (kv, [WriteError ''ERR Wrong number of arguments for 'INCRBY' command'']))"

definition handleDecr :: handler where
  "handleDecr cx cs cluster kv args =
     (case args of
        [key] \<Rightarrow> routed cx cs cluster kv key
          (do { (kv', err) \<leftarrow> Decr (cx_crc cx) kv key; Some (kv', counterReplies err) })
      | _ \<Rightarrow> Some (kv, [WriteError ''ERR Wrong number of arguments for 'DECR' command'']))"

definition handleDecrBy :: handler where
  "handleDecrBy cx cs cluster kv args =
     (case args of
        [key, decrByVal] \<Rightarrow> routed cx cs cluster kv key
          (do { (kv', err) \<leftarrow> DecrBy (cx_crc cx) kv key decrByVal; Some (kv', counterReplies err) })
      | _ \<Rightarrow> Some (kv, [WriteError ''ERR Wrong number of arguments for 'DECRBY' command'']))"

text \<open>The arguments two by two, as the loops \<^verbatim>\<open>for i := 0; i < len(args); i += 2\<close> take them.\<close>

fun argPairs :: "string list \<Rightarrow> (string \<times> string) list" where
  "argPairs (a # b # rest) = (a, b) # argPairs rest"
| "argPairs _ = []"

text \<open>The loop that compares the slot of every further key with that of the first.\<close>

definition crossSlot :: "crc16 \<Rightarrow> string list \<Rightarrow> bool" where
  "crossSlot crc ks = (case ks of [] \<Rightarrow> False | k0 # rest \<Rightarrow> list_ex (\<lambda>k. SlotForKey crc k \<noteq> SlotForKey crc k0) rest)"

definition crossSlotText :: string where
  "crossSlotText = ''CROSSSLOT Keys in request don't hash to the same slot''"

definition handleMSet :: handler where
  "handleMSet cx cs cluster kv args =
     (if args = [] \<or> length args mod 2 \<noteq> 0
      then Some (kv, [WriteError ''ERR Wrong number of arguments for 'MSET' command''])
      else let ks = map fst (argPairs args); vals = map snd (argPairs args)
           in if cluster \<and> crossSlot (cx_crc cx) ks then Some (kv, [WriteError crossSlotText])
              else routed cx cs cluster kv (args ! 0)
                     (do { (kv', _) \<leftarrow> Mset (cx_crc cx) kv ks vals; Some (kv', [WriteOK]) }))"

definition handleMGet :: handler where
  "handleMGet cx cs cluster kv args =
     (if args = [] then Some (kv, [WriteError ''Wrong number of arguments for 'MGET' command''])
      else if cluster \<and> crossSlot (cx_crc cx) args then Some (kv, [WriteError crossSlotText])
      else routed cx cs cluster kv (args ! 0) (Some (kv, [WriteArrayString (Mget (cx_crc cx) kv args)])))"

section \<open>Lists\<close>

definition ToUpper :: "string \<Rightarrow> string" where "ToUpper cmd = map upper_byte cmd"

definition handlePush :: "string \<Rightarrow> handler" where
  "handlePush cmd cx cs cluster kv args =
     (case args of
        key # v # vs \<Rightarrow> routed cx cs cluster kv key
          (do { (kv', n) \<leftarrow> (if cmd = ''lpush'' then LPush (cx_crc cx) kv key (v # vs) else RPush (cx_crc cx) kv key (v # vs));
                Some (kv', [WriteInt n]) })
      | _ \<Rightarrow> Some (kv, [WriteError (''ERR '' @ ToUpper cmd @ '' requires at least 2 arguments'')]))"

definition handlePop :: "string \<Rightarrow> handler" where
  "handlePop cmd cx cs cluster kv args =
     (case args of
        [key] \<Rightarrow> routed cx cs cluster kv key
          (do { (kv', v, ok) \<leftarrow> (if cmd = ''lpop'' then LPop (cx_crc cx) kv key else RPop (cx_crc cx) kv key);
                Some (kv', [if \<not> ok then WriteNullString resp2compat else WriteString v]) })
      | _ \<Rightarrow> Some (kv, [WriteError (''ERR '' @ ToUpper cmd @ '' requires 1 argument'')]))"

definition handleLRange :: handler where
  "handleLRange cx cs cluster kv args =
     (case args of
        [key, a, b] \<Rightarrow> routed cx cs cluster kv key
          (case Atoi a of
             Inl _ \<Rightarrow> Some (kv, [WriteError ''ERR LRANGE start index must be an integer''])
           | Inr start \<Rightarrow>
               (case Atoi b of
                  Inl _ \<Rightarrow> Some (kv, [WriteError ''ERR LRANGE end index must be an integer''])
                | Inr end \<Rightarrow> Some (kv, [WriteArrayString (LRange (cx_crc cx) kv key start end)])))
      | _ \<Rightarrow> Some (kv, [WriteError ''ERR LRANGE requires 3 arguments'']))"

definition handleLLen :: handler where
  "handleLLen cx cs cluster kv args =
     (case args of
        [key] \<Rightarrow> routed cx cs cluster kv key (Some (kv, [WriteInt (LLen (cx_crc cx) kv key)]))
      | _ \<Rightarrow> Some (kv, [WriteError ''ERR LLEN requires 1 argument'']))"

section \<open>Hashes\<close>

definition handleHSet :: handler where
  "handleHSet cx cs cluster kv args =
     (case args of
        [key, f, v] \<Rightarrow> routed cx cs cluster kv key
          (do { (kv', _) \<leftarrow> HSet (cx_crc cx) kv key f v; Some (kv', [WriteOK]) })
      | _ \<Rightarrow> Some (kv, [WriteError ''ERR HSET requires 3 arguments'']))"

definition handleHGet :: handler where
  "handleHGet cx cs cluster kv args =
     (case args of
        [key, f] \<Rightarrow> routed cx cs cluster kv key
          (let (v, ok) = HGet (cx_crc cx) kv key f
           in Some (kv, [if \<not> ok then WriteNullString resp2compat else WriteString v]))
      | _ \<Rightarrow> Some (kv, [WriteError ''ERR HGET requires 2 arguments'']))"

definition handleHMSet :: handler where
  "handleHMSet cx cs cluster kv args =
     (if length args < 3 \<or> length args mod 2 = 0 then Some (kv, [WriteError ''ERR HMSET requires field/value pairs''])
      else routed cx cs cluster kv (args ! 0)
        (do { fields \<leftarrow> put_loop assign (argPairs (drop 1 args)) (GoMap []);
              (kv', _) \<leftarrow> HMSet (cx_crc cx) kv (args ! 0) fields;
              Some (kv', [WriteOK]) }))"

definition handleHMGet :: handler where
  "handleHMGet cx cs cluster kv args =
     (case args of
        key # f # fs \<Rightarrow> routed cx cs cluster kv key
          (Some (kv, [fst (WriteArray (cx_fmt cx) resp2compat
             (map (\<lambda>v. case v of None \<Rightarrow> GNil | Some t \<Rightarrow> GString t) (HMGet (cx_crc cx) kv key (f # fs))))]))
      | _ \<Rightarrow> Some (kv, [WriteError ''ERR HMGET requires at least 2 arguments'']))"

definition handleHGetAll :: handler where
  "handleHGetAll cx cs cluster kv args =
     (case args of
        [key] \<Rightarrow> routed cx cs cluster kv key (Some (kv, [WriteArrayString (HGetAll (cx_crc cx) kv key)]))
      | _ \<Rightarrow> Some (kv, [WriteError ''ERR HGETALL requires 1 argument'']))"

definition handleHDel :: handler where
  "handleHDel cx cs cluster kv args =
     (case args of
        key # f # fs \<Rightarrow> routed cx cs cluster kv key
          (do { (kv', n) \<leftarrow> HDel (cx_crc cx) kv key (f # fs); Some (kv', [WriteInt n]) })
      | _ \<Rightarrow> Some (kv, [WriteError ''ERR HDEL requires at least 2 arguments'']))"

section \<open>Sets\<close>

definition handleSetMembers :: "string \<Rightarrow> handler" where
  "handleSetMembers cmd cx cs cluster kv args =
     (case args of
        key # m # ms \<Rightarrow> routed cx cs cluster kv key
          (do { (kv', n) \<leftarrow> (if cmd = ''sadd'' then SAdd (cx_crc cx) kv key (m # ms) else SRem (cx_crc cx) kv key (m # ms));
                Some (kv', [WriteInt n]) })
      | _ \<Rightarrow> Some (kv, [WriteError (''ERR '' @ ToUpper cmd @ '' requires at least 2 arguments'')]))"

definition handleSMembers :: handler where
  "handleSMembers cx cs cluster kv args =
     (case args of
        [key] \<Rightarrow> routed cx cs cluster kv key (Some (kv, [WriteArrayString (SMembers (cx_crc cx) kv key)]))
      | _ \<Rightarrow> Some (kv, [WriteError ''ERR SMEMBERS requires 1 argument'']))"

definition handleSIsMember :: handler where
  "handleSIsMember cx cs cluster kv args =
     (case args of
        [key, m] \<Rightarrow> routed cx cs cluster kv key
          (if SIsMember (cx_crc cx) kv key m then Some (kv, [WriteInt 1]) else Some (kv, [WriteInt 0]))
      | _ \<Rightarrow> Some (kv, [WriteError ''ERR SISMEMBER requires 2 arguments'']))"

section \<open>Sorted sets\<close>

definition handleZAdd :: handler where
  "handleZAdd cx cs cluster kv args =
     (if length args < 3 \<or> length args mod 2 = 0 then Some (kv, [WriteError ''ERR ZADD requires score/member pairs''])
      else routed cx cs cluster kv (args ! 0)
        (do { (kv', r) \<leftarrow> ZAdd (cx_crc cx) (cx_float cx) kv (args ! 0) (drop 1 args);
              Some (kv', [case r of Inl e \<Rightarrow> WriteError (kvError_text e) | Inr added \<Rightarrow> WriteInt added]) }))"

definition handleZRange :: handler where
  "handleZRange cx cs cluster kv args =
     (case args of
        [key, a, b] \<Rightarrow> routed cx cs cluster kv key
          (case Atoi a of
             Inl _ \<Rightarrow> Some (kv, [WriteError ''ERR ZRANGE invalid start index''])
           | Inr start \<Rightarrow>
               (case Atoi b of
                  Inl _ \<Rightarrow> Some (kv, [WriteError ''ERR ZRANGE invalid stop index''])
                | Inr end \<Rightarrow> Some (kv, [WriteArrayString (ZRange (cx_crc cx) kv key start end)])))
      | _ \<Rightarrow> Some (kv, [WriteError ''ERR ZRANGE requires 3 arguments'']))"

definition handleZRem :: handler where
  "handleZRem cx cs cluster kv args =
     (case args of
        key # m # ms \<Rightarrow> routed cx cs cluster kv key
          (do { (kv', n) \<leftarrow> ZRem (cx_crc cx) kv key (m # ms); Some (kv', [WriteInt n]) })
      | _ \<Rightarrow> Some (kv, [WriteError ''ERR ZREM requires at least 2 arguments'']))"

section \<open>The store operations are safe\<close>

lemma SetKV_safe: "kv_wf crc kv \<Longrightarrow> kv_safe crc kv (SetKV crc kv k v)"
  by (auto simp: SetKV_eq intro!: kv_result_safe putString_result)

lemma Append_safe: "kv_wf crc kv \<Longrightarrow> kv_safe crc kv (Append crc kv k v)"
  by (auto simp: Append_eq intro!: kv_safe_same kv_result_safe putString_result)

lemma changeInteger_safe: "kv_wf crc kv \<Longrightarrow> kv_safe crc kv (changeInteger crc kv k d)"
  by (auto simp: changeInteger_eq intro!: kv_safe_same kv_result_safe putString_result split: sum.split)

lemma counters_safe:
  assumes "kv_wf crc kv"
  shows "kv_safe crc kv (Incr crc kv k)" "kv_safe crc kv (IncrBy crc kv k t)"
    "kv_safe crc kv (Decr crc kv k)" "kv_safe crc kv (DecrBy crc kv k t)"
  using assms
  by (auto simp: Incr_def IncrBy_def Decr_def DecrBy_def split: sum.split intro!: changeInteger_safe kv_safe_same)

lemma Mset_safe:
  assumes "kv_wf crc kv" "length ks \<le> length vs" "clusterEnabled kv \<longrightarrow> same_slot crc ks"
  shows "kv_safe crc kv (Mset crc kv ks vs)"
  using Mset_result [OF assms] by (rule kv_result_safe)

lemma push_safe:
  assumes "kv_wf crc kv"
  shows "kv_safe crc kv (LPush crc kv k vs)" "kv_safe crc kv (RPush crc kv k vs)"
  using assms
  by (auto simp: LPush_eq RPush_eq Let_def intro!: kv_safe_same kv_result_safe putList_result)

lemma pop_safe:
  assumes "kv_wf crc kv"
  shows "kv_safe crc kv (LPop crc kv k)" "kv_safe crc kv (RPop crc kv k)"
proof -
  have "kv_safe crc kv (LPop crc kv k) \<and> kv_safe crc kv (RPop crc kv k)"
  proof (cases "list_or_empty (absKV crc kv) k = []")
    case True
    then show ?thesis using pop_empty [OF True] assms by (simp add: kv_safe_same)
  next
    case False
    then obtain x l y l' where "list_or_empty (absKV crc kv) k = x # l" "list_or_empty (absKV crc kv) k = l' @ [y]"
      by (metis neq_Nil_conv rev_exhaust)
    then show ?thesis using kv_result_safe [OF LPop_result [OF assms]] kv_result_safe [OF RPop_result [OF assms]] by blast
  qed
  then show "kv_safe crc kv (LPop crc kv k)" "kv_safe crc kv (RPop crc kv k)" by auto
qed

lemma HMSet_safe:
  assumes "kv_wf crc kv" "gm_wf flds"
  shows "kv_safe crc kv (HMSet crc kv k flds)"
proof -
  have "wrong_type (clusterEnabled kv) HashType (absKV crc kv) k \<or> len flds = 0 \<Longrightarrow> HMSet crc kv k flds = Some (kv, ())"
    by (auto simp: wrong_type_absKV HMSet_def shardValue_eq)
  with assms show ?thesis
    using HMSet_result [OF assms(1) _ _ assms(2), of k] kv_result_safe kv_safe_same by fastforce
qed

lemma HSet_safe: "kv_wf crc kv \<Longrightarrow> kv_safe crc kv (HSet crc kv k f v)"
  by (auto simp: HSet_def gm_wf_def keys_def intro!: HMSet_safe)

lemma HDel_safe: "kv_wf crc kv \<Longrightarrow> kv_safe crc kv (HDel crc kv k fs)"
  by (rule kv_result_safe [OF HDel_result])

lemma sets_safe:
  assumes "kv_wf crc kv" "ms \<noteq> []"
  shows "kv_safe crc kv (SAdd crc kv k ms)" "kv_safe crc kv (SRem crc kv k ms)"
proof -
  have "wrong_type (clusterEnabled kv) SetType (absKV crc kv) k \<Longrightarrow> SAdd crc kv k ms = Some (kv, 0)"
    by (auto simp: wrong_type_absKV SAdd_def shardValue_eq)
  with assms show "kv_safe crc kv (SAdd crc kv k ms)"
    using SAdd_result [OF assms(1) _ assms(2), of k] kv_result_safe kv_safe_same by fastforce
  show "kv_safe crc kv (SRem crc kv k ms)" by (rule kv_result_safe [OF SRem_result [OF assms(1)]])
qed

lemma parsePairs_not_Nil: "parsePairs pf pairs = Inr ps \<Longrightarrow> 2 \<le> length pairs \<Longrightarrow> ps \<noteq> []"
  by (cases "(pf, pairs)" rule: parsePairs.cases) (auto split: option.splits sum.splits)

lemma ZAdd_safe:
  assumes "kv_wf crc kv" "2 \<le> length pairs"
  shows "kv_safe crc kv (ZAdd crc pf kv k pairs)"
proof (cases "odd (length pairs) \<or> (\<exists>e. parsePairs pf pairs = Inl e) \<or> wrong_type (clusterEnabled kv) SortedSetType (absKV crc kv) k")
  case True
  then have "\<exists>e. ZAdd crc pf kv k pairs = Some (kv, Inl e)"
    by (auto simp: ZAdd_def odd_iff_mod_2_eq_one wrong_type_absKV shardValue_eq split: sum.split)
  with assms(1) show ?thesis using kv_safe_same by fastforce
next
  case False
  then obtain ps where ps: "parsePairs pf pairs = Inr ps" by (cases "parsePairs pf pairs") auto
  obtain zs n where z: "zadd (zset_or_empty (absKV crc kv) k) ps = (zs, n)" by force
  have nt: "\<not> wrong_type (clusterEnabled kv) SortedSetType (absKV crc kv) k" and ev: "even (length pairs)" using False by auto
  show ?thesis
    using ZAdd_eq [OF ev ps parsePairs_not_Nil [OF ps assms(2)] assms(1) nt z]
      kv_result_safe [OF putZSet_result [OF assms(1) nt zadd_spec(1) [OF z zset_distinct [OF assms(1)]]]] by simp
qed

lemma zset_not_wrong_type: "zset_or_empty (absKV crc kv) k \<noteq> [] \<Longrightarrow> \<not> wrong_type (clusterEnabled kv) SortedSetType (absKV crc kv) k"
  by (cases "clusterEnabled kv") (auto simp: zset_or_empty_def wrong_type_cluster typed_eq_Some split: option.splits)

lemma ZRem_safe:
  assumes "kv_wf crc kv"
  shows "kv_safe crc kv (ZRem crc kv k ms)"
proof (cases "zset_or_empty (absKV crc kv) k = []")
  case True
  then have "ZRem crc kv k ms = Some (kv, 0)" using ZRem_eq [of crc kv k ms "[]" 0] by (simp add: zrem_def)
  with assms show ?thesis by (simp add: kv_safe_same)
next
  case False
  let ?zs = "zset_or_empty (absKV crc kv) k"
  obtain kept n where z: "zrem ?zs ms = (kept, n)" by force
  then have "distinct (map Member kept)"
    using zset_distinct [OF assms, of k] by (auto simp: zrem_def Let_def distinct_map_filter)
  then show ?thesis
    using ZRem_eq [OF z] putZSet_result [OF assms zset_not_wrong_type [OF False]] assms
    by (auto intro!: kv_safe_same kv_result_safe)
qed

lemmas store_safe = SetKV_safe Append_safe counters_safe push_safe pop_safe HSet_safe HDel_safe ZRem_safe

section \<open>The contract of a keyed handler\<close>

definition body_ok :: "ctx \<Rightarrow> KVStore \<Rightarrow> outcome \<Rightarrow> bool" where
  "body_ok cx kv body \<longleftrightarrow> (\<exists>kv' rs. body = Some (kv', rs) \<and> kv_wf (cx_crc cx) kv' \<and> clusterEnabled kv' = clusterEnabled kv \<and> rs \<noteq> [])"

lemma body_ok_same [intro!]: "kv_wf (cx_crc cx) kv \<Longrightarrow> rs \<noteq> [] \<Longrightarrow> body_ok cx kv (Some (kv, rs))"
  by (simp add: body_ok_def)

lemma body_ok_op:
  assumes "kv_safe (cx_crc cx) kv out" "\<And>r. f r \<noteq> []"
  shows "body_ok cx kv (do { (kv', r) \<leftarrow> out; Some (kv', f r) })"
  using assms by (auto simp: kv_safe_def body_ok_def)

lemma routed_False [simp]: "routed cx cs False kv key out = out"
  by (simp add: routed_def)

text \<open>\<open>accepts\<close> is what a handler asks of its arguments, \<open>keyOf\<close> the key it routes by. Once the key is known to be
  served here, the handler is what it is without a cluster.\<close>

locale keyed_handler =
  fixes handle :: handler
    and accepts :: "ctx \<Rightarrow> bool \<Rightarrow> string list \<Rightarrow> bool"
    and keyOf :: "string list \<Rightarrow> string"
  assumes refuse: "\<not> accepts cx cluster args \<Longrightarrow> \<exists>e. handle cx cs cluster kv args = Some (kv, [WriteError e])"
    and shape: "accepts cx cluster args \<Longrightarrow>
      handle cx cs cluster kv args = routed cx cs cluster kv (keyOf args) (handle cx None False kv args)"
    and safe: "kv_wf (cx_crc cx) kv \<Longrightarrow> accepts cx (clusterEnabled kv) args \<Longrightarrow> body_ok cx kv (handle cx None False kv args)"
begin

lemma total:
  assumes "srv_ok cx cs cluster kv"
  shows "out_ok cx cs cluster (handle cx cs cluster kv args)"
proof (cases "accepts cx cluster args")
  case True
  with assms have "out_ok cx cs cluster (handle cx None False kv args)"
    using safe [of cx kv args] by (auto simp: body_ok_def out_ok_def srv_ok_def)
  then show ?thesis using out_ok_routed [OF assms] shape [OF True, of cs kv] by simp
next
  case False
  then show ?thesis using refuse [OF False, of cs kv] assms by (auto simp: out_ok_def)
qed

lemma elsewhere:
  assumes "srv_ok cx cs cluster kv" "\<not> serves cx cs cluster (keyOf args)"
  shows "\<exists>reply. handle cx cs cluster kv args = Some (kv, [reply])"
  using refuse [of cx cluster args cs kv] shape [of cx cluster args cs kv] routed_elsewhere [OF assms] by (cases "accepts cx cluster args") auto

lemma here:
  assumes "srv_ok cx cs cluster kv" "serves cx cs cluster (keyOf args)" "accepts cx cluster args"
  shows "handle cx cs cluster kv args = handle cx None False kv args"
  using shape [OF assms(3)] routed_here [OF assms(1,2)] by simp

end

section \<open>Every keyed handler keeps it\<close>

lemma counterReplies_not_Nil [simp]: "counterReplies e \<noteq> []"
  by (simp add: counterReplies_def)

abbreviation argc :: "nat \<Rightarrow> ctx \<Rightarrow> bool \<Rightarrow> string list \<Rightarrow> bool" where
  "argc n \<equiv> \<lambda>cx cluster args. length args = n"

abbreviation argc_ge :: "nat \<Rightarrow> ctx \<Rightarrow> bool \<Rightarrow> string list \<Rightarrow> bool" where
  "argc_ge n \<equiv> \<lambda>cx cluster args. n \<le> length args"

abbreviation firstArg :: "string list \<Rightarrow> string" where
  "firstArg \<equiv> \<lambda>args. args ! 0"

lemma length_ge_2: "2 \<le> length args \<longleftrightarrow> (\<exists>a b rest. args = a # b # rest)"
  by (auto simp: neq_Nil_conv Suc_le_length_iff numeral_2_eq_2)

lemmas argcs = length_Suc_conv numeral_2_eq_2 numeral_3_eq_3 length_ge_2

interpretation set: keyed_handler handleSet "argc 2" firstArg
  by unfold_locales (auto simp: handleSet_def argcs split: list.splits intro!: body_ok_op store_safe)
interpretation get: keyed_handler handleGet "argc 1" firstArg
  by unfold_locales (auto simp: handleGet_def argcs case_prod_unfold Let_def split: list.splits intro!: body_ok_op store_safe)
interpretation append: keyed_handler handleAppend "argc 2" firstArg
  by unfold_locales (auto simp: handleAppend_def argcs split: list.splits intro!: body_ok_op store_safe)
interpretation incr: keyed_handler handleIncr "argc 1" firstArg
  by unfold_locales (auto simp: handleIncr_def argcs split: list.splits intro!: body_ok_op store_safe)
interpretation incrby: keyed_handler handleIncrBy "argc 2" firstArg
  by unfold_locales (auto simp: handleIncrBy_def argcs split: list.splits intro!: body_ok_op store_safe)
interpretation decr: keyed_handler handleDecr "argc 1" firstArg
  by unfold_locales (auto simp: handleDecr_def argcs split: list.splits intro!: body_ok_op store_safe)
interpretation decrby: keyed_handler handleDecrBy "argc 2" firstArg
  by unfold_locales (auto simp: handleDecrBy_def argcs split: list.splits intro!: body_ok_op store_safe)
interpretation lrange: keyed_handler handleLRange "argc 3" firstArg
  by unfold_locales (auto simp: handleLRange_def argcs split: list.splits sum.splits intro!: body_ok_op store_safe)
interpretation llen: keyed_handler handleLLen "argc 1" firstArg
  by unfold_locales (auto simp: handleLLen_def argcs split: list.splits intro!: body_ok_op store_safe)
interpretation hset: keyed_handler handleHSet "argc 3" firstArg
  by unfold_locales (auto simp: handleHSet_def argcs split: list.splits intro!: body_ok_op store_safe)
interpretation hget: keyed_handler handleHGet "argc 2" firstArg
  by unfold_locales (auto simp: handleHGet_def argcs case_prod_unfold Let_def split: list.splits intro!: body_ok_op store_safe)
interpretation hgetall: keyed_handler handleHGetAll "argc 1" firstArg
  by unfold_locales (auto simp: handleHGetAll_def argcs split: list.splits intro!: body_ok_op store_safe)
interpretation smembers: keyed_handler handleSMembers "argc 1" firstArg
  by unfold_locales (auto simp: handleSMembers_def argcs split: list.splits intro!: body_ok_op store_safe)
interpretation sismember: keyed_handler handleSIsMember "argc 2" firstArg
  by unfold_locales (auto simp: handleSIsMember_def argcs split: list.splits intro!: body_ok_op store_safe)
interpretation zrange: keyed_handler handleZRange "argc 3" firstArg
  by unfold_locales (auto simp: handleZRange_def argcs split: list.splits sum.splits intro!: body_ok_op store_safe)
interpretation hmget: keyed_handler handleHMGet "argc_ge 2" firstArg
  by unfold_locales (auto simp: handleHMGet_def argcs split: list.splits intro!: body_ok_op store_safe)
interpretation hdel: keyed_handler handleHDel "argc_ge 2" firstArg
  by unfold_locales (auto simp: handleHDel_def argcs split: list.splits intro!: body_ok_op store_safe)
interpretation zrem: keyed_handler handleZRem "argc_ge 2" firstArg
  by unfold_locales (auto simp: handleZRem_def argcs split: list.splits intro!: body_ok_op store_safe)

interpretation lpush: keyed_handler "handlePush ''lpush''" "argc_ge 2" firstArg
  by unfold_locales (auto simp: handlePush_def argcs split: list.splits intro!: body_ok_op store_safe)
interpretation rpush: keyed_handler "handlePush ''rpush''" "argc_ge 2" firstArg
  by unfold_locales (auto simp: handlePush_def argcs split: list.splits intro!: body_ok_op store_safe)
interpretation sadd: keyed_handler "handleSetMembers ''sadd''" "argc_ge 2" firstArg
  by unfold_locales (auto simp: handleSetMembers_def argcs split: list.splits intro!: body_ok_op sets_safe)
interpretation srem: keyed_handler "handleSetMembers ''srem''" "argc_ge 2" firstArg
  by unfold_locales (auto simp: handleSetMembers_def argcs split: list.splits intro!: body_ok_op sets_safe)

lemma body_ok_op2:
  assumes "kv_safe (cx_crc cx) kv out" "\<And>v ok. f v ok \<noteq> []"
  shows "body_ok cx kv (do { (kv', v, ok) \<leftarrow> out; Some (kv', f v ok) })"
  using assms by (auto simp: kv_safe_def body_ok_def)

interpretation lpop: keyed_handler "handlePop ''lpop''" "argc 1" firstArg
  by unfold_locales (auto simp: handlePop_def argcs split: list.splits intro!: body_ok_op2 store_safe)
interpretation rpop: keyed_handler "handlePop ''rpop''" "argc 1" firstArg
  by unfold_locales (auto simp: handlePop_def argcs split: list.splits intro!: body_ok_op2 store_safe)

lemma argPairs_keys: "even (length args) \<Longrightarrow> length (argPairs args) = length args div 2"
  by (induction args rule: argPairs.induct) auto

lemma argPairs_hd: "2 \<le> length args \<Longrightarrow> map fst (argPairs args) = args ! 0 # map fst (argPairs (drop 2 args))"
  by (auto simp: length_ge_2)

lemma same_slot_iff: "same_slot crc ks \<longleftrightarrow> \<not> crossSlot crc ks"
  by (auto simp: same_slot_def crossSlot_def list_ex_iff split: list.split)

definition acceptsMSet :: "ctx \<Rightarrow> bool \<Rightarrow> string list \<Rightarrow> bool" where
  "acceptsMSet cx cluster args \<longleftrightarrow> args \<noteq> [] \<and> length args mod 2 = 0
     \<and> (cluster \<longrightarrow> \<not> crossSlot (cx_crc cx) (map fst (argPairs args)))"

interpretation mset: keyed_handler handleMSet acceptsMSet firstArg
  by unfold_locales
    (auto simp: handleMSet_def acceptsMSet_def Let_def same_slot_iff intro!: body_ok_op Mset_safe)

interpretation mget: keyed_handler handleMGet "\<lambda>cx cluster args. args \<noteq> [] \<and> (cluster \<longrightarrow> \<not> crossSlot (cx_crc cx) args)" firstArg
  by unfold_locales (auto simp: handleMGet_def)

abbreviation keyAndPairs :: "ctx \<Rightarrow> bool \<Rightarrow> string list \<Rightarrow> bool" where
  "keyAndPairs \<equiv> \<lambda>cx cluster args. 3 \<le> length args \<and> length args mod 2 = 1"

lemma fields_map: "\<exists>m. put_loop assign kvs (GoMap []) = Some m \<and> gm_wf m \<and> lookup m = map_of (rev kvs)"
  using gm.put_loop_spec [of "GoMap []" kvs] by auto

interpretation hmset: keyed_handler handleHMSet keyAndPairs firstArg
proof unfold_locales
  fix cx :: ctx and kv and args :: "string list"
  assume "kv_wf (cx_crc cx) kv" "3 \<le> length args \<and> length args mod 2 = 1"
  moreover obtain m where "put_loop assign (argPairs (drop 1 args)) (GoMap []) = Some m" "gm_wf m"
    using fields_map by blast
  ultimately show "body_ok cx kv (handleHMSet cx None False kv args)"
    by (auto simp: handleHMSet_def intro!: body_ok_op HMSet_safe)
qed (auto simp: handleHMSet_def)

interpretation zadd: keyed_handler handleZAdd keyAndPairs firstArg
  by unfold_locales (auto simp: handleZAdd_def split: sum.split intro!: body_ok_op ZAdd_safe)

section \<open>The commands on keys\<close>

text \<open>The branches of the \<^verbatim>\<open>switch\<close> in \<^verbatim>\<open>handleConnection\<close> that lead to these handlers.\<close>

definition keyedCommands :: "(string \<times> handler) list" where
  "keyedCommands =
     [(''lpush'', handlePush ''lpush''), (''rpush'', handlePush ''rpush''), (''lpop'', handlePop ''lpop''),
      (''rpop'', handlePop ''rpop''), (''lrange'', handleLRange), (''llen'', handleLLen), (''hset'', handleHSet),
      (''hget'', handleHGet), (''hmset'', handleHMSet), (''hmget'', handleHMGet), (''hgetall'', handleHGetAll),
      (''hdel'', handleHDel), (''sadd'', handleSetMembers ''sadd''), (''srem'', handleSetMembers ''srem''),
      (''smembers'', handleSMembers), (''sismember'', handleSIsMember), (''zadd'', handleZAdd), (''zrange'', handleZRange),
      (''zrem'', handleZRem), (''set'', handleSet), (''get'', handleGet), (''append'', handleAppend),
      (''incr'', handleIncr), (''incrby'', handleIncrBy), (''decr'', handleDecr), (''decrby'', handleDecrBy),
      (''mset'', handleMSet), (''mget'', handleMGet)]"

definition is_keyed :: "handler \<Rightarrow> bool" where
  "is_keyed h \<longleftrightarrow> (\<exists>acc. keyed_handler h acc firstArg)"

lemma is_keyedI: "keyed_handler h acc firstArg \<Longrightarrow> is_keyed h"
  by (auto simp: is_keyed_def)

lemmas keyed_facts =
    lpush.keyed_handler_axioms rpush.keyed_handler_axioms lpop.keyed_handler_axioms rpop.keyed_handler_axioms
    lrange.keyed_handler_axioms llen.keyed_handler_axioms hset.keyed_handler_axioms hget.keyed_handler_axioms
    hmset.keyed_handler_axioms hmget.keyed_handler_axioms hgetall.keyed_handler_axioms hdel.keyed_handler_axioms
    sadd.keyed_handler_axioms srem.keyed_handler_axioms smembers.keyed_handler_axioms
    sismember.keyed_handler_axioms zadd.keyed_handler_axioms zrange.keyed_handler_axioms
    zrem.keyed_handler_axioms set.keyed_handler_axioms get.keyed_handler_axioms append.keyed_handler_axioms
    incr.keyed_handler_axioms incrby.keyed_handler_axioms decr.keyed_handler_axioms decrby.keyed_handler_axioms
    mset.keyed_handler_axioms mget.keyed_handler_axioms

lemma keyed_commands: "map_of keyedCommands cmd = Some h \<Longrightarrow> is_keyed h"
proof -
  have "\<forall>h \<in> snd ` set keyedCommands. is_keyed h"
    unfolding keyedCommands_def by (simp only: list.set image_insert image_empty snd_conv ball_simps keyed_facts [THEN is_keyedI] simp_thms)
  moreover assume "map_of keyedCommands cmd = Some h"
  ultimately show ?thesis by (force dest: map_of_SomeD)
qed

lemma keyed_total: "is_keyed h \<Longrightarrow> srv_ok cx cs cluster kv \<Longrightarrow> out_ok cx cs cluster (h cx cs cluster kv args)"
  by (auto simp: is_keyed_def intro: keyed_handler.total)

lemma keyed_elsewhere: "is_keyed h \<Longrightarrow> srv_ok cx cs cluster kv \<Longrightarrow> \<not> serves cx cs cluster (args ! 0) \<Longrightarrow>
    \<exists>reply. h cx cs cluster kv args = Some (kv, [reply])"
  by (auto simp: is_keyed_def intro: keyed_handler.elsewhere)

lemma keyed_redirects:
  assumes "is_keyed h" "srv_ok cx (Some s) True kv" "\<not> serves cx (Some s) True (args ! 0)"
  shows "\<exists>reply. h cx (Some s) True kv args = Some (kv, [reply]) \<and> (reply = redirection cx s (args ! 0) \<or> (\<exists>e. reply = WriteError e))"
proof -
  obtain acc where k: "keyed_handler h acc firstArg" using assms(1) by (auto simp: is_keyed_def)
  show ?thesis
    using keyed_handler.refuse [OF k, of cx True args "Some s" kv] keyed_handler.shape [OF k, of cx True args "Some s" kv]
      routed_redirects [OF assms(2,3)] by (cases "acc cx True args") auto
qed

end
