(* ===== verification/PubSub.thy ===== *)
theory PubSub
  imports Ember_Prelude
begin

text \<open>
  \<^verbatim>\<open>utils/pubsub/pubsub.go\<close>: channels of subscribers. Every subscriber is a Go channel of capacity one,
  here an identity in a heap of channel states (what is buffered, and whether it is closed), because
  the identity of a channel is what \<^verbatim>\<open>Unsubscribe\<close> compares. Closing a closed channel and sending on
  one panic (\<^const>\<open>None\<close>). Each operation runs under the lock of the hub, so it is one step; the
  goroutine of a subscriber is the step \<open>recv\<close>.
\<close>

type_synonym chanId = nat

record chanState =
  buffered :: "string list"
  closed :: bool

record Subscription =
  channel :: string
  subscribers :: "chanId list"

record PubSub =
  subscriptions :: "(string, Subscription) gomap"
  heap :: "chanId \<Rightarrow> chanState"
  nextChan :: chanId

definition NewPubSub :: PubSub where
  "NewPubSub = \<lparr>subscriptions = GoMap [], heap = (\<lambda>_. \<lparr>buffered = [], closed = False\<rparr>), nextChan = 0\<rparr>"

section \<open>Channels\<close>

text \<open>\<^verbatim>\<open>make(chan string, 1)\<close>, \<^verbatim>\<open>close(ch)\<close>, the non-blocking send of \<^verbatim>\<open>select\<close> with a default, and a receive.\<close>

definition makeChan :: "PubSub \<Rightarrow> PubSub \<times> chanId" where
  "makeChan ps = (ps\<lparr>heap := (heap ps)(nextChan ps := \<lparr>buffered = [], closed = False\<rparr>), nextChan := nextChan ps + 1\<rparr>,
     nextChan ps)"

definition closeChan :: "chanId \<Rightarrow> PubSub \<Rightarrow> PubSub option" where
  "closeChan ch ps =
     (if closed (heap ps ch) then None
      else Some (ps\<lparr>heap := (heap ps)(ch := (heap ps ch)\<lparr>closed := True\<rparr>)\<rparr>))"

definition trySend :: "chanId \<Rightarrow> string \<Rightarrow> PubSub \<Rightarrow> (PubSub \<times> bool) option" where
  "trySend ch message ps =
     (if closed (heap ps ch) then None
      else if length (buffered (heap ps ch)) < 1
      then Some (ps\<lparr>heap := (heap ps)(ch := (heap ps ch)\<lparr>buffered := buffered (heap ps ch) @ [message]\<rparr>)\<rparr>, True)
      else Some (ps, False))"

definition recv :: "chanId \<Rightarrow> PubSub \<Rightarrow> (PubSub \<times> string) option" where
  "recv ch ps =
     (case buffered (heap ps ch) of
        [] \<Rightarrow> None
      | m # ms \<Rightarrow> Some (ps\<lparr>heap := (heap ps)(ch := (heap ps ch)\<lparr>buffered := ms\<rparr>)\<rparr>, m))"

section \<open>Operations\<close>

definition Subscribe :: "string \<Rightarrow> PubSub \<Rightarrow> (PubSub \<times> chanId) option" where
  "Subscribe c ps =
     (let (sub, ok) = comma_ok (subscriptions ps) c \<lparr>channel = [], subscribers = []\<rparr>;
          sub1 = (if \<not> ok then \<lparr>channel = c, subscribers = []\<rparr> else sub);
          (ps1, ch) = makeChan ps
      in do { m \<leftarrow> assign (subscriptions ps1) c (sub1\<lparr>subscribers := subscribers sub1 @ [ch]\<rparr>);
              Some (ps1\<lparr>subscriptions := m\<rparr>, ch) })"

text \<open>The loop of \<^verbatim>\<open>Unsubscribe\<close>: the first occurrence is cut out and closed.\<close>

fun cutSubscriber :: "chanId \<Rightarrow> chanId list \<Rightarrow> PubSub \<Rightarrow> (PubSub \<times> chanId list) option" where
  "cutSubscriber subscriber [] ps = Some (ps, [])"
| "cutSubscriber subscriber (ch # chs) ps =
     (if ch = subscriber then do { ps' \<leftarrow> closeChan ch ps; Some (ps', chs) }
      else do { (ps', chs') \<leftarrow> cutSubscriber subscriber chs ps; Some (ps', ch # chs') })"

definition Unsubscribe :: "string \<Rightarrow> chanId \<Rightarrow> PubSub \<Rightarrow> PubSub option" where
  "Unsubscribe c subscriber ps =
     (case lookup (subscriptions ps) c of
        None \<Rightarrow> Some ps
      | Some sub \<Rightarrow>
          do { (ps', chs) \<leftarrow> cutSubscriber subscriber (subscribers sub) ps;
               if length chs = 0 then Some (ps'\<lparr>subscriptions := remove (subscriptions ps') c\<rparr>)
               else do { m \<leftarrow> assign (subscriptions ps') c (sub\<lparr>subscribers := chs\<rparr>);
                         Some (ps'\<lparr>subscriptions := m\<rparr>) } })"

fun closeAll :: "chanId list \<Rightarrow> PubSub \<Rightarrow> PubSub option" where
  "closeAll [] ps = Some ps"
| "closeAll (ch # chs) ps = do { ps' \<leftarrow> closeChan ch ps; closeAll chs ps' }"

definition UnsubscribeAll :: "PubSub \<Rightarrow> PubSub option" where
  "UnsubscribeAll ps =
     do { ps' \<leftarrow> closeAll (concat (map (\<lambda>(c, sub). subscribers sub) (entries (subscriptions ps)))) ps;
          Some (ps'\<lparr>subscriptions := GoMap []\<rparr>) }"

fun publishLoop :: "string \<Rightarrow> chanId list \<Rightarrow> PubSub \<Rightarrow> int \<Rightarrow> (PubSub \<times> int) option" where
  "publishLoop message [] ps n = Some (ps, n)"
| "publishLoop message (ch # chs) ps n =
     do { (ps', sent) \<leftarrow> trySend ch message ps; publishLoop message chs ps' (if sent then n + 1 else n) }"

definition Publish :: "string \<Rightarrow> string \<Rightarrow> PubSub \<Rightarrow> (PubSub \<times> int) option" where
  "Publish c message ps =
     (case lookup (subscriptions ps) c of
        None \<Rightarrow> Some (ps, 0)
      | Some sub \<Rightarrow> publishLoop message (subscribers sub) ps 0)"

section \<open>Invariant\<close>

definition subs_of :: "PubSub \<Rightarrow> string \<Rightarrow> chanId list" where
  "subs_of ps c = (case lookup (subscriptions ps) c of None \<Rightarrow> [] | Some sub \<Rightarrow> subscribers sub)"

text \<open>Every registered channel is open, registered once and already made; no subscription is empty;
  no buffer exceeds the capacity.\<close>

definition ps_inv :: "PubSub \<Rightarrow> bool" where
  "ps_inv ps \<longleftrightarrow> subscriptions ps \<noteq> NilMap \<and> gm_wf (subscriptions ps)
     \<and> (\<forall>c sub. lookup (subscriptions ps) c = Some sub \<longrightarrow> channel sub = c \<and> subscribers sub \<noteq> [])
     \<and> (\<forall>c. distinct (subs_of ps c))
     \<and> (\<forall>c c' ch. ch \<in> set (subs_of ps c) \<and> ch \<in> set (subs_of ps c') \<longrightarrow> c = c')
     \<and> (\<forall>c. \<forall>ch \<in> set (subs_of ps c). \<not> closed (heap ps ch) \<and> ch < nextChan ps)
     \<and> (\<forall>ch. length (buffered (heap ps ch)) \<le> 1)"

lemma ps_invD:
  assumes "ps_inv ps"
  shows "subscriptions ps \<noteq> NilMap" "gm_wf (subscriptions ps)" "distinct (subs_of ps c)"
    "ch \<in> set (subs_of ps c) \<Longrightarrow> ch \<in> set (subs_of ps c') \<Longrightarrow> c = c'"
    "ch \<in> set (subs_of ps c) \<Longrightarrow> \<not> closed (heap ps ch)" "ch \<in> set (subs_of ps c) \<Longrightarrow> ch < nextChan ps"
    "length (buffered (heap ps ch)) \<le> 1"
    "lookup (subscriptions ps) c = Some sub \<Longrightarrow> channel sub = c \<and> subscribers sub \<noteq> []"
  using assms unfolding ps_inv_def by blast+

lemma ps_invI:
  assumes "subscriptions ps \<noteq> NilMap" "gm_wf (subscriptions ps)" "\<And>c. distinct (subs_of ps c)"
    "\<And>c c' ch. ch \<in> set (subs_of ps c) \<Longrightarrow> ch \<in> set (subs_of ps c') \<Longrightarrow> c = c'"
    "\<And>c ch. ch \<in> set (subs_of ps c) \<Longrightarrow> \<not> closed (heap ps ch)"
    "\<And>c ch. ch \<in> set (subs_of ps c) \<Longrightarrow> ch < nextChan ps"
    "\<And>ch. length (buffered (heap ps ch)) \<le> 1"
    "\<And>c sub. lookup (subscriptions ps) c = Some sub \<Longrightarrow> channel sub = c \<and> subscribers sub \<noteq> []"
  shows "ps_inv ps"
  using assms unfolding ps_inv_def by blast

lemma NewPubSub_simps: "subs_of NewPubSub = (\<lambda>_. [])" "nextChan NewPubSub = 0"
  by (simp_all add: NewPubSub_def subs_of_def fun_eq_iff)

lemma NewPubSub_inv: "ps_inv NewPubSub"
  by (simp add: ps_inv_def NewPubSub_def subs_of_def)

lemma subs_of_update:
  assumes "lookup m = (lookup (subscriptions ps))(c := osub)" "subscriptions ps' = m"
  shows "subs_of ps' = (subs_of ps)(c := (case osub of None \<Rightarrow> [] | Some sub \<Rightarrow> subscribers sub))"
  using assms by (auto simp: subs_of_def fun_eq_iff)

lemma Subscribe_spec:
  assumes inv: "ps_inv ps"
  shows "\<exists>ps'. Subscribe c ps = Some (ps', nextChan ps) \<and> ps_inv ps'
     \<and> subs_of ps' = (subs_of ps)(c := subs_of ps c @ [nextChan ps])
     \<and> heap ps' = (heap ps)(nextChan ps := \<lparr>buffered = [], closed = False\<rparr>)"
proof -
  let ?sub = "case lookup (subscriptions ps) c of None \<Rightarrow> \<lparr>channel = c, subscribers = []\<rparr> | Some sub \<Rightarrow> sub"
  let ?new = "?sub\<lparr>subscribers := subscribers ?sub @ [nextChan ps]\<rparr>"
  obtain m where m: "assign (subscriptions ps) c ?new = Some m" "m \<noteq> NilMap" "gm_wf m"
    "lookup m = (lookup (subscriptions ps))(c \<mapsto> ?new)"
    using gm.putE [OF ps_invD(2) [OF inv] ps_invD(1) [OF inv]] by blast
  let ?ps = "(fst (makeChan ps))\<lparr>subscriptions := m\<rparr>"
  have run: "Subscribe c ps = Some (?ps, nextChan ps)"
    using m(1) by (auto simp: Subscribe_def makeChan_def comma_ok_def split: option.splits)
  have subs: "subs_of ?ps = (subs_of ps)(c := subs_of ps c @ [nextChan ps])"
    using subs_of_update [OF m(4), of ?ps] by (auto simp: subs_of_def split: option.splits)
  have fresh: "nextChan ps \<notin> set (subs_of ps c')" for c'
    using ps_invD(6) [OF inv] by blast
  have mem: "ch \<in> set (subs_of ?ps c') \<longleftrightarrow> ch = nextChan ps \<and> c' = c \<or> ch \<in> set (subs_of ps c')" for ch c'
    by (auto simp: subs)
  have frame: "heap ?ps = (heap ps)(nextChan ps := \<lparr>buffered = [], closed = False\<rparr>)"
    "nextChan ?ps = nextChan ps + 1" "subscriptions ?ps = m"
    by (simp_all add: makeChan_def)
  have "ps_inv ?ps"
  proof (rule ps_invI)
    show "distinct (subs_of ?ps c')" for c'
      using ps_invD(3) [OF inv] fresh by (simp add: subs)
    show "c1 = c2" if "ch \<in> set (subs_of ?ps c1)" "ch \<in> set (subs_of ?ps c2)" for c1 c2 ch
      using that ps_invD(4) [OF inv] fresh unfolding mem by blast
    show "\<not> closed (heap ?ps ch)" if "ch \<in> set (subs_of ?ps c')" for c' ch
      using that ps_invD(5) [OF inv] unfolding mem frame by auto
    show "ch < nextChan ?ps" if "ch \<in> set (subs_of ?ps c')" for c' ch
      using that ps_invD(6) [OF inv] unfolding mem frame by force
    show "length (buffered (heap ?ps ch)) \<le> 1" for ch
      using ps_invD(7) [OF inv] by (simp add: frame)
    show "channel sb = c' \<and> subscribers sb \<noteq> []" if "lookup (subscriptions ?ps) c' = Some sb" for c' sb
      using that ps_invD(8) [OF inv] unfolding frame m(4) by (auto split: if_splits option.splits)
  qed (use m(2,3) in \<open>simp_all add: frame\<close>)
  with run subs show ?thesis by (auto simp: makeChan_def)
qed


lemma closeChan_open: "\<not> closed (heap ps ch) \<Longrightarrow>
    closeChan ch ps = Some (ps\<lparr>heap := (heap ps)(ch := (heap ps ch)\<lparr>closed := True\<rparr>)\<rparr>)"
  by (simp add: closeChan_def)

lemma cutSubscriber_spec:
  assumes "\<forall>ch \<in> set chs. \<not> closed (heap ps ch)"
  shows "cutSubscriber s chs ps =
     Some (if s \<in> set chs then ps\<lparr>heap := (heap ps)(s := (heap ps s)\<lparr>closed := True\<rparr>)\<rparr> else ps, remove1 s chs)"
  using assms by (induction chs) (auto simp: closeChan_def)

lemma Unsubscribe_spec:
  assumes inv: "ps_inv ps"
  shows "\<exists>ps'. Unsubscribe c s ps = Some ps' \<and> ps_inv ps' \<and> subs_of ps' = (subs_of ps)(c := remove1 s (subs_of ps c))
     \<and> heap ps' = (if s \<in> set (subs_of ps c) then (heap ps)(s := (heap ps s)\<lparr>closed := True\<rparr>) else heap ps)
     \<and> nextChan ps' = nextChan ps"
proof (cases "lookup (subscriptions ps) c")
  case None
  then have "subs_of ps c = []" by (simp add: subs_of_def)
  with None inv show ?thesis by (simp add: Unsubscribe_def fun_upd_idem)
next
  case (Some sub)
  let ?chs = "remove1 s (subscribers sub)"
  let ?ps1 = "if s \<in> set (subscribers sub) then ps\<lparr>heap := (heap ps)(s := (heap ps s)\<lparr>closed := True\<rparr>)\<rparr> else ps"
  have sub: "subs_of ps c = subscribers sub" using Some by (simp add: subs_of_def)
  have cut: "cutSubscriber s (subscribers sub) ps = Some (?ps1, ?chs)"
    by (rule cutSubscriber_spec) (use ps_invD(5) [OF inv, of _ c] sub in auto)
  have m1: "subscriptions ?ps1 = subscriptions ps" by simp
  obtain m where m: "m \<noteq> NilMap" "gm_wf m"
    "lookup m = (lookup (subscriptions ps))(c := if ?chs = [] then None else Some (sub\<lparr>subscribers := ?chs\<rparr>))"
    "Unsubscribe c s ps = Some (?ps1\<lparr>subscriptions := m\<rparr>)"
  proof (cases "?chs = []")
    case True
    then show thesis
      using that [of "remove (subscriptions ps) c"] Some cut ps_invD(1,2) [OF inv]
      by (simp add: Unsubscribe_def gm_wf_remove)
  next
    case False
    then obtain m where "assign (subscriptions ps) c (sub\<lparr>subscribers := ?chs\<rparr>) = Some m" "m \<noteq> NilMap" "gm_wf m"
      "lookup m = (lookup (subscriptions ps))(c \<mapsto> sub\<lparr>subscribers := ?chs\<rparr>)"
      using gm.putE [OF ps_invD(2) [OF inv] ps_invD(1) [OF inv]] by blast
    with False show thesis using that [of m] Some cut by (simp add: Unsubscribe_def)
  qed
  let ?ps = "?ps1\<lparr>subscriptions := m\<rparr>"
  have subs: "subs_of ?ps = (subs_of ps)(c := remove1 s (subs_of ps c))"
    using subs_of_update [OF m(3), of ?ps] sub by (auto split: if_splits)
  have mem: "ch \<in> set (subs_of ?ps c') \<Longrightarrow> ch \<in> set (subs_of ps c') \<and> (c' = c \<longrightarrow> ch \<noteq> s)" for ch c'
    using ps_invD(3) [OF inv, of c] by (auto simp: subs split: if_splits)
  have "ps_inv ?ps"
  proof (rule ps_invI)
    show "\<not> closed (heap ?ps ch)" if "ch \<in> set (subs_of ?ps c')" for ch c'
      using mem [OF that] ps_invD(4) [OF inv, of ch c' c] ps_invD(5) [OF inv, of ch c'] sub by auto
    show "distinct (subs_of ?ps c')" for c'
      using ps_invD(3) [OF inv] by (simp add: subs)
    show "channel sb = c' \<and> subscribers sb \<noteq> []" if "lookup (subscriptions ?ps) c' = Some sb" for c' sb
      using that ps_invD(8) [OF inv] Some by (auto simp: m(3) split: if_splits)
    show "ch < nextChan ?ps" if "ch \<in> set (subs_of ?ps c')" for ch c'
      using mem [OF that] ps_invD(6) [OF inv] by auto
    show "c1 = c2" if "ch \<in> set (subs_of ?ps c1)" "ch \<in> set (subs_of ?ps c2)" for ch c1 c2
      using mem [OF that(1)] mem [OF that(2)] ps_invD(4) [OF inv] by blast
    show "length (buffered (heap ?ps ch)) \<le> 1" for ch
      using ps_invD(7) [OF inv] by simp
  qed (use m(1,2) in simp_all)
  with m(4) subs sub show ?thesis by auto
qed

lemma closeAll_spec:
  assumes "distinct chs" "\<forall>ch \<in> set chs. \<not> closed (heap ps ch)"
  shows "\<exists>ps'. closeAll chs ps = Some ps' \<and> subscriptions ps' = subscriptions ps \<and> nextChan ps' = nextChan ps
     \<and> heap ps' = (\<lambda>ch. if ch \<in> set chs then (heap ps ch)\<lparr>closed := True\<rparr> else heap ps ch)"
  using assms
proof (induction chs arbitrary: ps)
  case (Cons ch chs)
  let ?ps = "ps\<lparr>heap := (heap ps)(ch := (heap ps ch)\<lparr>closed := True\<rparr>)\<rparr>"
  have "\<forall>c \<in> set chs. \<not> closed (heap ?ps c)" using Cons.prems by auto
  with Cons.IH [of ?ps] Cons.prems show ?case by (auto simp: closeChan_open fun_eq_iff)
qed simp

definition registered :: "PubSub \<Rightarrow> chanId set" where
  "registered ps = (\<Union>c. set (subs_of ps c))"

lemma all_subscribers:
  assumes inv: "ps_inv ps"
  shows "distinct (concat (map (\<lambda>(c, sub). subscribers sub) (entries (subscriptions ps))))"
    "set (concat (map (\<lambda>(c, sub). subscribers sub) (entries (subscriptions ps)))) = registered ps"
proof -
  have d: "distinct (map fst (entries (subscriptions ps)))"
    using ps_invD(2) [OF inv] by (simp add: gm_wf_def keys_def)
  have entry: "(c, sub) \<in> set (entries (subscriptions ps)) \<longleftrightarrow> lookup (subscriptions ps) c = Some sub" for c sub
    using d by (simp add: lookup_def)
  then have sub: "(c, sub) \<in> set (entries (subscriptions ps)) \<Longrightarrow> subs_of ps c = subscribers sub" for c sub
    by (simp add: subs_of_def)
  show "set (concat (map (\<lambda>(c, sub). subscribers sub) (entries (subscriptions ps)))) = registered ps"
  proof (intro equalityI subsetI)
    fix ch
    assume "ch \<in> set (concat (map (\<lambda>(c, sub). subscribers sub) (entries (subscriptions ps))))"
    then obtain c s where "(c, s) \<in> set (entries (subscriptions ps))" "ch \<in> set (subscribers s)" by auto
    with sub have "ch \<in> set (subs_of ps c)" by simp
    then show "ch \<in> registered ps" by (auto simp: registered_def)
  next
    fix ch
    assume "ch \<in> registered ps"
    then obtain c where "ch \<in> set (subs_of ps c)" by (auto simp: registered_def)
    then obtain s where "lookup (subscriptions ps) c = Some s" "ch \<in> set (subscribers s)"
      by (cases "lookup (subscriptions ps) c") (auto simp: subs_of_def)
    then have "(c, s) \<in> set (entries (subscriptions ps))" using entry by simp
    with \<open>ch \<in> set (subscribers s)\<close>
    show "ch \<in> set (concat (map (\<lambda>(c, sub). subscribers sub) (entries (subscriptions ps))))" by force
  qed
  have "distinct (concat (map (\<lambda>(c, sub). subscribers sub) es))"
    if "distinct (map fst es)" "set es \<subseteq> set (entries (subscriptions ps))" for es
    using that
  proof (induction es)
    case (Cons e es)
    obtain c s where e: "e = (c, s)" by force
    have "subs_of ps c = subscribers s" using sub e Cons.prems by simp
    moreover have "ch \<notin> set (subscribers s')" if "(c', s') \<in> set es" "ch \<in> set (subscribers s)" for c' s' ch
    proof
      assume "ch \<in> set (subscribers s')"
      moreover have "subs_of ps c' = subscribers s'" using sub that(1) Cons.prems by auto
      ultimately have "c' = c"
        using ps_invD(4) [OF inv] \<open>subs_of ps c = subscribers s\<close> that(2) by metis
      with that(1) Cons.prems e show False by force
    qed
    ultimately have "set (subscribers s) \<inter> set (concat (map (\<lambda>(c, sub). subscribers sub) es)) = {}"
      by auto
    moreover have "distinct (subscribers s)"
      using ps_invD(3) [OF inv, of c] \<open>subs_of ps c = subscribers s\<close> by simp
    ultimately show ?case using Cons e by simp
  qed simp
  from this [OF d subset_refl]
  show "distinct (concat (map (\<lambda>(c, sub). subscribers sub) (entries (subscriptions ps))))" .
qed

lemma UnsubscribeAll_spec:
  assumes inv: "ps_inv ps"
  shows "\<exists>ps'. UnsubscribeAll ps = Some ps' \<and> ps_inv ps' \<and> registered ps' = {}
     \<and> (\<forall>ch. closed (heap ps' ch) \<longleftrightarrow> closed (heap ps ch) \<or> ch \<in> registered ps)"
proof -
  note a = all_subscribers [OF inv]
  have "\<forall>ch \<in> registered ps. \<not> closed (heap ps ch)"
    using ps_invD(5) [OF inv] by (auto simp: registered_def)
  then obtain ps' where ps': "closeAll (concat (map (\<lambda>(c, sub). subscribers sub) (entries (subscriptions ps)))) ps = Some ps'"
    "heap ps' = (\<lambda>ch. if ch \<in> registered ps then (heap ps ch)\<lparr>closed := True\<rparr> else heap ps ch)"
    using closeAll_spec [OF a(1), of ps] unfolding a(2) by blast
  then show ?thesis
    using ps_invD(7) [OF inv]
    by (auto simp: UnsubscribeAll_def ps_inv_def registered_def subs_of_def)
qed

lemma publishLoop_spec:
  assumes "distinct chs" "\<forall>ch \<in> set chs. \<not> closed (heap ps ch)"
  shows "\<exists>ps'. publishLoop msg chs ps n
       = Some (ps', n + int (length (filter (\<lambda>ch. buffered (heap ps ch) = []) chs)))
     \<and> subscriptions ps' = subscriptions ps \<and> nextChan ps' = nextChan ps
     \<and> heap ps' = (\<lambda>ch. if ch \<in> set chs \<and> buffered (heap ps ch) = []
                    then (heap ps ch)\<lparr>buffered := [msg]\<rparr> else heap ps ch)"
  using assms
proof (induction chs arbitrary: ps n)
  case (Cons ch chs)
  show ?case
  proof (cases "buffered (heap ps ch) = []")
    case True
    let ?ps = "ps\<lparr>heap := (heap ps)(ch := (heap ps ch)\<lparr>buffered := [msg]\<rparr>)\<rparr>"
    have send: "trySend ch msg ps = Some (?ps, True)" using True Cons.prems by (simp add: trySend_def)
    have "\<forall>c \<in> set chs. \<not> closed (heap ?ps c)" using Cons.prems by auto
    moreover have "filter (\<lambda>c. buffered (heap ?ps c) = []) chs = filter (\<lambda>c. buffered (heap ps c) = []) chs"
      using Cons.prems by (intro filter_cong) auto
    ultimately show ?thesis
      using Cons.IH [of ?ps "n + 1"] Cons.prems True send by (auto simp: fun_eq_iff)
  next
    case False
    then have "trySend ch msg ps = Some (ps, False)" using Cons.prems by (simp add: trySend_def)
    with Cons.IH [of ps n] Cons.prems False show ?thesis by (auto simp: fun_eq_iff)
  qed
qed simp

lemma ps_inv_heap:
  assumes "ps_inv ps" "subscriptions ps' = subscriptions ps" "nextChan ps' = nextChan ps"
    and "\<And>ch. closed (heap ps' ch) = closed (heap ps ch)" "\<And>ch. length (buffered (heap ps' ch)) \<le> 1"
  shows "ps_inv ps'"
proof -
  have "subs_of ps' = subs_of ps" using assms(2) by (simp add: subs_of_def fun_eq_iff)
  with assms show ?thesis by (simp add: ps_inv_def)
qed

lemma Publish_spec:
  assumes inv: "ps_inv ps"
  shows "\<exists>ps'. Publish c msg ps = Some (ps', int (length (filter (\<lambda>ch. buffered (heap ps ch) = []) (subs_of ps c))))
     \<and> ps_inv ps' \<and> subs_of ps' = subs_of ps
     \<and> heap ps' = (\<lambda>ch. if ch \<in> set (subs_of ps c) \<and> buffered (heap ps ch) = []
                    then (heap ps ch)\<lparr>buffered := [msg]\<rparr> else heap ps ch)"
proof -
  obtain ps' where ps': "publishLoop msg (subs_of ps c) ps 0
      = Some (ps', int (length (filter (\<lambda>ch. buffered (heap ps ch) = []) (subs_of ps c))))"
    "subscriptions ps' = subscriptions ps" "nextChan ps' = nextChan ps"
    "heap ps' = (\<lambda>ch. if ch \<in> set (subs_of ps c) \<and> buffered (heap ps ch) = []
                    then (heap ps ch)\<lparr>buffered := [msg]\<rparr> else heap ps ch)"
    using publishLoop_spec [OF ps_invD(3) [OF inv], of c ps msg 0] ps_invD(5) [OF inv] by auto
  moreover have "Publish c msg ps = publishLoop msg (subs_of ps c) ps 0"
    by (simp add: Publish_def subs_of_def split: option.splits)
  moreover have "ps_inv ps'"
    using ps_inv_heap [OF inv ps'(2,3)] ps_invD(7) [OF inv] by (simp add: ps'(4))
  moreover have "subs_of ps' = subs_of ps" using ps'(2) by (simp add: subs_of_def fun_eq_iff)
  ultimately show ?thesis by simp
qed

section \<open>Histories of a hub\<close>

datatype ps_event = EvSubscribe string | EvUnsubscribe string chanId | EvUnsubscribeAll
  | EvPublish string string | EvReceive chanId

fun ps_exec :: "ps_event \<Rightarrow> PubSub \<Rightarrow> PubSub option" where
  "ps_exec (EvSubscribe c) ps = map_option fst (Subscribe c ps)"
| "ps_exec (EvUnsubscribe c ch) ps = Unsubscribe c ch ps"
| "ps_exec EvUnsubscribeAll ps = UnsubscribeAll ps"
| "ps_exec (EvPublish c m) ps = map_option fst (Publish c m ps)"
| "ps_exec (EvReceive ch) ps = (case recv ch ps of None \<Rightarrow> Some ps | Some (ps', m) \<Rightarrow> Some ps')"

inductive ps_reach :: "PubSub \<Rightarrow> bool" where
  init: "ps_reach NewPubSub"
| step: "ps_reach ps \<Longrightarrow> ps_exec e ps = Some ps' \<Longrightarrow> ps_reach ps'"

lemma recv_inv: "ps_inv ps \<Longrightarrow> recv ch ps = Some (ps', m) \<Longrightarrow> ps_inv ps'"
proof -
  assume inv: "ps_inv ps" and r: "recv ch ps = Some (ps', m)"
  show ?thesis
  proof (rule ps_inv_heap [OF inv])
    show "length (buffered (heap ps' c)) \<le> 1" for c
      using r ps_invD(7) [OF inv, of c] ps_invD(7) [OF inv, of ch] by (auto simp: recv_def split: list.splits)
  qed (use r in \<open>auto simp: recv_def split: list.splits if_splits\<close>)
qed

lemma ps_exec_ok: "ps_inv ps \<Longrightarrow> \<exists>ps'. ps_exec e ps = Some ps' \<and> ps_inv ps'"
proof (cases e)
  case (EvReceive ch)
  assume "ps_inv ps"
  with EvReceive recv_inv show ?thesis by (cases "recv ch ps") auto
next
  case EvUnsubscribeAll
  assume "ps_inv ps"
  with UnsubscribeAll_spec EvUnsubscribeAll show ?thesis by (metis ps_exec.simps(3))
next
  case (EvUnsubscribe c ch)
  assume "ps_inv ps"
  with Unsubscribe_spec EvUnsubscribe show ?thesis by (metis ps_exec.simps(2))
next
  case (EvSubscribe c)
  assume "ps_inv ps"
  with Subscribe_spec [of ps c] EvSubscribe show ?thesis by auto
next
  case (EvPublish c m)
  assume "ps_inv ps"
  with Publish_spec [of ps c m] EvPublish show ?thesis by auto
qed

lemma ps_reach_inv: "ps_reach ps \<Longrightarrow> ps_inv ps"
proof (induction rule: ps_reach.induct)
  case init
  show ?case by (rule NewPubSub_inv)
next
  case (step ps e ps')
  then show ?case using ps_exec_ok [of ps e] by auto
qed

section \<open>Properties\<close>

text \<open>C18: whatever subscribes, unsubscribes, publishes and receives a hub has been through, every registered
  channel is open and registered exactly once, no buffer holds more than one message, and no
  operation panics: no channel is closed twice and none is written to after it was closed.\<close>

theorem pubsub_never_panics:
  assumes "ps_reach ps"
  shows "ps_inv ps \<and> ps_exec e ps \<noteq> None"
  using ps_reach_inv [OF assms] ps_exec_ok [of ps e] by auto

theorem pubsub_never_panics_witness:
  "\<exists>ps. ps_exec (EvSubscribe ''news'') NewPubSub = Some ps \<and> ps_exec (EvUnsubscribe ''news'' 0) ps \<noteq> None
     \<and> ps_inv ps"
proof -
  obtain ps where ps: "ps_exec (EvSubscribe ''news'') NewPubSub = Some ps"
    using ps_exec_ok [OF NewPubSub_inv] by blast
  have "ps_reach ps" by (rule ps_reach.step [OF ps_reach.init ps])
  from pubsub_never_panics [OF this, of "EvUnsubscribe ''news'' 0"] ps show ?thesis by blast
qed

text \<open>C19: PUBLISH hands the message to every subscriber of the channel whose buffer is empty, answers how
  many those are, drops it for the others, and touches no other channel and no registration.\<close>

theorem Publish_delivers:
  assumes "ps_reach ps"
  shows "let free = filter (\<lambda>ch. buffered (heap ps ch) = []) (subs_of ps c)
     in \<exists>ps'. Publish c msg ps = Some (ps', int (length free)) \<and> subs_of ps' = subs_of ps
       \<and> (\<forall>ch. buffered (heap ps' ch) = (if ch \<in> set free then [msg] else buffered (heap ps ch)))
       \<and> (\<forall>ch \<in> set free. \<exists>ps''. recv ch ps' = Some (ps'', msg))"
  using Publish_spec [OF ps_reach_inv [OF assms], of c msg] by (auto simp: Let_def recv_def)

theorem Publish_delivers_witness:
  "\<exists>ps ps'. Subscribe ''news'' NewPubSub = Some (ps, 0) \<and> Publish ''news'' ''hi'' ps = Some (ps', 1)
     \<and> buffered (heap ps' 0) = [''hi'']"
proof -
  obtain ps where ps: "Subscribe ''news'' NewPubSub = Some (ps, 0)" "subs_of ps ''news'' = [0]" "buffered (heap ps 0) = []"
    using Subscribe_spec [OF NewPubSub_inv, of "''news''"] by (auto simp: NewPubSub_simps)
  have "ps_reach ps" by (rule ps_reach.step [OF ps_reach.init, of "EvSubscribe ''news''"]) (simp add: ps(1))
  from Publish_delivers [OF this, of "''news''" "''hi''"] ps show ?thesis
    by (auto simp: Let_def)
qed

text \<open>a subscriber is added at the end of its channel's list with an empty open buffer of its own, and
  UNSUBSCRIBE takes exactly that one out and closes it: the lists of all the channels are as they
  were before the subscription.\<close>

theorem Subscribe_Unsubscribe:
  assumes "ps_reach ps"
  shows "\<exists>ps1 ps2 ch. Subscribe c ps = Some (ps1, ch) \<and> subs_of ps1 = (subs_of ps)(c := subs_of ps c @ [ch])
     \<and> heap ps1 ch = \<lparr>buffered = [], closed = False\<rparr> \<and> (\<forall>c'. ch \<notin> set (subs_of ps c'))
     \<and> Unsubscribe c ch ps1 = Some ps2 \<and> subs_of ps2 = subs_of ps \<and> closed (heap ps2 ch)"
proof -
  note inv = ps_reach_inv [OF assms]
  let ?ch = "nextChan ps"
  have fresh: "?ch \<notin> set (subs_of ps c')" for c' using ps_invD(6) [OF inv] by blast
  obtain ps1 where 1: "Subscribe c ps = Some (ps1, ?ch)" "ps_inv ps1"
    "subs_of ps1 = (subs_of ps)(c := subs_of ps c @ [?ch])"
    "heap ps1 = (heap ps)(?ch := \<lparr>buffered = [], closed = False\<rparr>)"
    using Subscribe_spec [OF inv] by blast
  obtain ps2 where 2: "Unsubscribe c ?ch ps1 = Some ps2"
    "subs_of ps2 = (subs_of ps1)(c := remove1 ?ch (subs_of ps1 c))"
    "heap ps2 = (if ?ch \<in> set (subs_of ps1 c) then (heap ps1)(?ch := (heap ps1 ?ch)\<lparr>closed := True\<rparr>) else heap ps1)"
    using Unsubscribe_spec [OF 1(2)] by blast
  have "subs_of ps2 = subs_of ps" using fresh by (simp add: 2(2) 1(3) remove1_append fun_upd_idem)
  moreover have "closed (heap ps2 ?ch)" by (simp add: 2(3) 1(3))
  ultimately show ?thesis using 1 2(1) fresh by fastforce
qed

theorem Subscribe_Unsubscribe_witness:
  "\<exists>ps1 ps2 ch. Subscribe ''c'' NewPubSub = Some (ps1, ch) \<and> Unsubscribe ''c'' ch ps1 = Some ps2
     \<and> subs_of ps2 = (\<lambda>_. []) \<and> closed (heap ps2 ch)"
proof -
  from Subscribe_Unsubscribe [OF ps_reach.init, of "''c''"] NewPubSub_simps(1) show ?thesis by metis
qed

end
