(* ===== verification/Resp_Reader.thy ===== *)
theory Resp_Reader
  imports Resp_Wire
begin

text \<open>
  The request parser of \<^verbatim>\<open>utils/go-resp/server.go\<close>: \<^verbatim>\<open>readShortLine\<close>, the inline parser \<^verbatim>\<open>readArgs\<close>, \<^verbatim>\<open>next\<close> and \<^verbatim>\<open>Next\<close>.
  The input is the byte string the peer will have sent before it closes the connection; a parser takes
  it and returns the arguments with the bytes that are left, or the error. The argument buffer of the
  inline parser is kept as the code keeps it (one buffer and the bounds of the arguments in it),
  because the limit on its size counts all the arguments together.
\<close>

datatype rdError = EOF | UnexpectedEOF | ErrBufferFull | ErrProtoUnbalancedQuotes
  | ErrProtoInvalidMultiBulkLength | ErrProtoInvalidBulkLength | ErrProtoExpectedString

record limits =
  maxMultiBulkLength :: int
  maxBulkLength :: int
  maxBufferSize :: int

definition ReaderBufferSize :: nat where "ReaderBufferSize = 65536"

section \<open>Lines\<close>

definition collectFragmentsSize :: "char \<Rightarrow> nat \<Rightarrow> string \<Rightarrow> rdError + (string \<times> string)" where
  "collectFragmentsSize delim maxLen inp =
     (case IndexByte inp delim of
        Some i \<Rightarrow> if i + 1 > maxLen then Inl ErrBufferFull else Inr (take (i + 1) inp, drop (i + 1) inp)
      | None \<Rightarrow> if length inp > maxLen then Inl ErrBufferFull else Inl EOF)"

definition readShortLine :: "string \<Rightarrow> rdError + (string \<times> string)" where
  "readShortLine inp =
     (case collectFragmentsSize (CHR 0x0A) ReaderBufferSize inp of
        Inl e \<Rightarrow> Inl e
      | Inr (b, rest) \<Rightarrow>
          (let l = length b
           in if l > 1 \<and> b ! (l - 2) = CHR 0x0D then Inr (take (l - 2) b, rest) else Inr (take (l - 1) b, rest)))"

section \<open>Inline commands\<close>

definition hexDigitToInt :: "char \<Rightarrow> nat option" where
  "hexDigitToInt c =
     (let n = of_char c :: nat; m = or n 32
      in if 48 \<le> n \<and> n \<le> 57 then Some (n - 48)
         else if 97 \<le> m \<and> m \<le> 102 then Some (10 + (m - 97)) else None)"

text \<open>\<^verbatim>\<open>readArgsSpaceChars\<close>\<close>

definition spaceClass :: "char \<Rightarrow> nat" where
  "spaceClass c =
     (if c = CHR '' '' \<or> c = CHR 0x0D \<or> c = CHR 0x09 \<or> c = CHR 0x00 then 1
      else if c = CHR 0x0A then 2
      else if c = CHR 0x0B \<or> c = CHR 0x0C then 3 else 0)"

definition escapeChar :: "char \<Rightarrow> char" where
  "escapeChar c =
     (if c = CHR ''n'' then CHR 0x0A else if c = CHR ''r'' then CHR 0x0D else if c = CHR ''t'' then CHR 0x09
      else if c = CHR ''b'' then CHR 0x08 else if c = CHR ''a'' then CHR 0x07 else c)"

text \<open>What a backslash inside double quotes stands for, and how many bytes after it are used up.\<close>

definition dqEscape :: "string \<Rightarrow> (char \<times> nat) option" where
  "dqEscape peek =
     (case peek of
        [] \<Rightarrow> None
      | p0 # ps \<Rightarrow>
          (case ps of
             p1 # p2 # _ \<Rightarrow>
               (case (if p0 = CHR ''x'' then (hexDigitToInt p1, hexDigitToInt p2) else (None, None)) of
                  (Some i0, Some i1) \<Rightarrow> Some (char_of (i0 * 16 + i1), 3)
                | _ \<Rightarrow> Some (escapeChar p0, 1))
           | _ \<Rightarrow> Some (escapeChar p0, 1)))"

text \<open>The loop labelled \<^verbatim>\<open>inner\<close>: one argument, up to a space, a closing quote or the end of the input. One
  pass of its body on the byte \<open>c\<close> returns, leaves the loop, or goes on with the state it leaves: the
  input, \<^verbatim>\<open>indq\<close>, \<^verbatim>\<open>insq\<close> and \<^verbatim>\<open>argsBuffer\<close>.\<close>

type_synonym argState = "string \<times> bool \<times> bool \<times> string"

datatype loopStep = Fail rdError | Break argState | Continue argState

definition push :: "limits \<Rightarrow> string \<Rightarrow> bool \<Rightarrow> bool \<Rightarrow> string \<Rightarrow> char \<Rightarrow> loopStep" where
  "push lim rest indq insq buf c =
     (if int (length buf) + 1 > maxBufferSize lim then Fail ErrBufferFull else Continue (rest, indq, insq, buf @ [c]))"

definition innerStep :: "limits \<Rightarrow> char \<Rightarrow> string \<Rightarrow> bool \<Rightarrow> bool \<Rightarrow> string \<Rightarrow> loopStep" where
  "innerStep lim c cs indq insq buf =
     (if indq then
        (if c = CHR 0x0A then Fail ErrProtoUnbalancedQuotes
         else case (if c = CHR 0x5C then dqEscape cs else None) of
                Some (ch, n) \<Rightarrow> push lim (drop n cs) indq insq buf ch
              | None \<Rightarrow>
                  if c = CHR 0x22 then
                    (if cs \<noteq> [] \<and> spaceClass (hd cs) = 0 then Fail ErrProtoUnbalancedQuotes
                     else Break (cs, False, insq, buf))
                  else push lim cs indq insq buf c)
      else if insq then
        (if c = CHR 0x0A then Fail ErrProtoUnbalancedQuotes
         else if c = CHR 0x5C \<and> cs \<noteq> [] \<and> hd cs = CHR 0x27 then push lim (tl cs) indq insq buf (CHR 0x27)
         else if c = CHR 0x27 then
           (if cs \<noteq> [] \<and> spaceClass (hd cs) = 0 then Fail ErrProtoUnbalancedQuotes
            else Break (cs, indq, False, buf))
         else push lim cs indq insq buf c)
      else if c = CHR 0x22 then Continue (cs, True, insq, buf)
      else if c = CHR 0x27 then Continue (cs, indq, True, buf)
      else if spaceClass c = 1 \<or> spaceClass c = 2 then Break (c # cs, indq, insq, buf)
      else push lim cs indq insq buf c)"

lemma push_Continue: "push lim rest dq sq buf c = Continue (rest', q) \<Longrightarrow> rest' = rest"
  by (auto simp: push_def split: if_splits)

lemma push_not_Break [simp]: "push lim rest dq sq buf c \<noteq> Break st"
  by (simp add: push_def)

lemma innerStep_shrinks: "innerStep lim c cs dq sq buf = Continue (rest, q) \<Longrightarrow> length rest \<le> length cs"
  by (auto simp: innerStep_def split: if_splits option.splits prod.splits dest!: push_Continue)

lemma innerStep_break:
  "innerStep lim c cs dq sq buf = Break (rest, q) \<Longrightarrow> spaceClass c = 0 \<or> dq \<or> sq \<Longrightarrow> rest = cs"
  by (auto simp: innerStep_def split: if_splits option.splits prod.splits)

lemma innerStep_break_any: "innerStep lim c cs dq sq buf = Break (rest, q) \<Longrightarrow> rest = cs \<or> rest = c # cs"
  by (auto simp: innerStep_def split: if_splits option.splits prod.splits)

function innerLoop :: "limits \<Rightarrow> string \<Rightarrow> bool \<Rightarrow> bool \<Rightarrow> string \<Rightarrow> rdError + argState" where
  "innerLoop lim [] indq insq buf = Inr ([], indq, insq, buf)"
| "innerLoop lim (c # cs) indq insq buf =
     (case innerStep lim c cs indq insq buf of
        Fail e \<Rightarrow> Inl e
      | Break st \<Rightarrow> Inr st
      | Continue (rest, dq, sq, buf') \<Rightarrow> innerLoop lim rest dq sq buf')"
  by pat_completeness auto
termination
  by (relation "measure (\<lambda>(lim, inp, _). length inp)") (auto dest: innerStep_shrinks)

lemma innerLoop_length: "innerLoop lim inp dq sq buf = Inr (rest, q) \<Longrightarrow> length rest \<le> length inp"
proof (induction lim inp dq sq buf rule: innerLoop.induct)
  case (2 lim c cs dq sq buf)
  then show ?case
    by (auto split: loopStep.splits prod.splits dest!: innerStep_shrinks innerStep_break_any) (force dest: le_trans)+
qed simp

lemma innerLoop_consumes:
  assumes "innerLoop lim (c # cs) dq sq buf = Inr (rest, q)" "spaceClass c = 0"
  shows "length rest \<le> length cs"
proof (cases "innerStep lim c cs dq sq buf")
  case (Continue st)
  obtain r d s b where st: "st = (r, d, s, b)" by (metis prod_cases4)
  have "length r \<le> length cs" using innerStep_shrinks Continue st by blast
  moreover have "innerLoop lim r d s b = Inr (rest, q)" using assms(1) Continue st by simp
  ultimately show ?thesis using innerLoop_length by (meson le_trans)
next
  case (Break st)
  then show ?thesis using assms innerStep_break [of lim c cs dq sq buf rest q] by auto
qed (use assms(1) in simp)

text \<open>The first loop of \<^verbatim>\<open>readArgs\<close>.\<close>

definition skipSpaces :: "string \<Rightarrow> string" where
  "skipSpaces inp = dropWhile (\<lambda>c. spaceClass c = 1 \<or> spaceClass c = 3) inp"

lemma skipSpaces_Cons:
  assumes "skipSpaces inp = c # cs"
  shows "spaceClass c = 0 \<or> spaceClass c = 2" "length cs < length inp"
proof -
  have "\<not> (spaceClass c = 1 \<or> spaceClass c = 3)"
    using hd_dropWhile [of "\<lambda>c. spaceClass c = 1 \<or> spaceClass c = 3" inp] assms
    unfolding skipSpaces_def by (metis list.distinct(1) list.sel(1))
  then show "spaceClass c = 0 \<or> spaceClass c = 2" by (auto simp: spaceClass_def split: if_splits)
  show "length cs < length inp"
    using length_dropWhile_le [of "\<lambda>c. spaceClass c = 1 \<or> spaceClass c = 3" inp] assms
    unfolding skipSpaces_def by simp
qed

text \<open>The outer loop: skip spaces, stop at the end of the line, else read one argument and check the limits.
  An argument is a pair of bounds into the buffer.\<close>

function readArgs :: "limits \<Rightarrow> string \<Rightarrow> bool \<Rightarrow> bool \<Rightarrow> (nat \<times> nat) list \<Rightarrow> string \<Rightarrow> nat \<Rightarrow> rdError + (string list \<times> string)" where
  "readArgs lim inp indq insq bounds buf barrier =
     (case skipSpaces inp of
        [] \<Rightarrow> Inl EOF
      | c # cs \<Rightarrow>
          if spaceClass c = 2 then
            (if insq \<or> indq then Inl ErrProtoUnbalancedQuotes
             else Inr (map (\<lambda>(p, l). take l (drop p buf)) bounds, cs))
          else (case innerLoop lim (c # cs) indq insq buf of
                  Inl e \<Rightarrow> Inl e
                | Inr (rest, dq, sq, buf') \<Rightarrow>
                    (let size = length buf' - barrier
                     in if int size > maxBulkLength lim then Inl ErrProtoInvalidBulkLength
                        else if int (length bounds) + 1 > maxMultiBulkLength lim then Inl ErrProtoInvalidMultiBulkLength
                        else readArgs lim rest dq sq (bounds @ [(barrier, size)]) buf' (length buf'))))"
  by pat_completeness auto
termination
proof (relation "measure (\<lambda>(lim, inp, _). length inp)", simp)
  fix lim :: limits and inp dq sq bounds buf barrier c cs st rest q dq' q' sq' buf' size
  assume d: "skipSpaces inp = c # cs" and c2: "spaceClass c \<noteq> 2"
    and i: "innerLoop lim (c # cs) dq sq buf = Inr st" "(rest, q) = st" "(dq', q') = q" "(sq', buf') = q'"
  have "spaceClass c = 0" using skipSpaces_Cons(1) [OF d] c2 by simp
  then have "length rest \<le> length cs" using innerLoop_consumes i(1,2) by blast
  with skipSpaces_Cons(2) [OF d] show "((lim, rest, dq', sq', bounds @ [(barrier, size)], buf', length buf'), lim, inp, dq, sq, bounds, buf, barrier)
      \<in> measure (\<lambda>(lim, inp, _). length inp)" by simp
qed

declare readArgs.simps [simp del]

section \<open>Multi-bulk commands\<close>

fun readBulks :: "limits \<Rightarrow> nat \<Rightarrow> nat \<Rightarrow> string list \<Rightarrow> string \<Rightarrow> rdError + (string list \<times> string)" where
  "readBulks lim 0 p args inp = Inr (args, inp)"
| "readBulks lim (Suc n) p args inp =
     (case readShortLine inp of
        Inl e \<Rightarrow> Inl e
      | Inr (line, rest) \<Rightarrow>
          if length line = 0 \<or> line ! 0 \<noteq> CHR ''$'' then Inl ErrProtoExpectedString
          else case ParseUInt32 (drop 1 line) of
                 Inl _ \<Rightarrow> Inl ErrProtoInvalidBulkLength
               | Inr l32 \<Rightarrow>
                   (let l = unat l32
                    in if int l > maxBulkLength lim then Inl ErrProtoInvalidBulkLength
                       else if int (p + l + 2) > maxBufferSize lim then Inl ErrBufferFull
                       else if length rest < l + 2 then Inl (if rest = [] then EOF else UnexpectedEOF)
                       else readBulks lim n (p + l) (args @ [take l rest]) (drop (l + 2) rest)))"

definition next_cmd :: "limits \<Rightarrow> string \<Rightarrow> rdError + (string list \<times> string)" where
  "next_cmd lim inp =
     (case inp of
        [] \<Rightarrow> Inl EOF
      | t # _ \<Rightarrow>
          if t \<noteq> CHR ''*'' then readArgs lim inp False False [] [] 0
          else case readShortLine inp of
                 Inl e \<Rightarrow> Inl e
               | Inr (line, rest) \<Rightarrow>
                   if length line \<le> 1 then Inr ([], rest)
                   else case ParseInt32 (drop 1 line) of
                          Inl _ \<Rightarrow> Inl ErrProtoInvalidMultiBulkLength
                        | Inr n \<Rightarrow>
                            if n > maxMultiBulkLength lim then Inl ErrProtoInvalidMultiBulkLength
                            else if n \<le> 0 then Inr ([], rest)
                            else readBulks lim (nat n) 0 [] rest)"


lemma readShortLine_shrinks: "readShortLine inp = Inr (line, rest) \<Longrightarrow> length rest < length inp"
  by (auto simp: readShortLine_def collectFragmentsSize_def Let_def IndexByte_Some_iff
      split: option.splits if_splits)

lemma readBulks_shrinks: "readBulks lim n p args inp = Inr (as, rest) \<Longrightarrow> length rest \<le> length inp"
proof (induction n arbitrary: p args inp)
  case (Suc n)
  obtain line r where l: "readShortLine inp = Inr (line, r)"
    using Suc.prems by (auto split: sum.splits)
  obtain k where "readBulks lim n (p + k) (args @ [take k r]) (drop (k + 2) r) = Inr (as, rest)"
    using Suc.prems l by (auto simp: Let_def split: sum.splits if_splits)
  from Suc.IH [OF this] readShortLine_shrinks [OF l] show ?case by simp
qed simp

lemma readArgs_shrinks: "readArgs lim inp dq sq bounds buf barrier = Inr (args, rest) \<Longrightarrow> length rest < length inp"
proof (induction lim inp dq sq bounds buf barrier rule: readArgs.induct)
  case (1 lim inp dq sq bounds buf barrier)
  show ?case
  proof (cases "skipSpaces inp")
    case Nil
    then show ?thesis using "1.prems" by (simp add: readArgs.simps)
  next
    case (Cons c cs)
    have le: "length (c # cs) \<le> length inp" using skipSpaces_Cons(2) [OF Cons] by simp
    show ?thesis
    proof (cases "spaceClass c = 2")
      case True
      then show ?thesis using "1.prems" Cons le by (simp add: readArgs.simps split: if_splits)
    next
      case False
      obtain r d s b where i: "innerLoop lim (c # cs) dq sq buf = Inr (r, d, s, b)"
        using "1.prems" Cons False by (auto simp: readArgs.simps split: sum.splits)
      have rec: "readArgs lim r d s (bounds @ [(barrier, length b - barrier)]) b (length b) = Inr (args, rest)"
        using "1.prems" Cons False i
        by (subst (asm) readArgs.simps) (simp add: Let_def split: if_splits)
      moreover have "\<not> int (length b - barrier) > maxBulkLength lim" "\<not> int (length bounds) + 1 > maxMultiBulkLength lim"
        using "1.prems" Cons False i by (subst (asm) readArgs.simps, simp add: Let_def split: if_splits)+
      ultimately have "length rest < length r"
        using "1.IH" [OF Cons False i refl refl refl refl] by blast
      then show ?thesis using innerLoop_length [OF i] le by simp
    qed
  qed
qed

lemma next_shrinks: "next_cmd lim inp = Inr (args, rest) \<Longrightarrow> length rest < length inp"
  by (auto simp: next_cmd_def split: list.splits sum.splits if_splits
      dest: readArgs_shrinks readShortLine_shrinks dest!: readBulks_shrinks)
     (metis le_less_trans length_Cons readShortLine_shrinks)+

text \<open>\<^verbatim>\<open>Next\<close> skips empty commands; an error is remembered, and every later call returns it again.\<close>

function nextLoop :: "limits \<Rightarrow> string \<Rightarrow> rdError + (string list \<times> string)" where
  "nextLoop lim inp =
     (case next_cmd lim inp of
        Inl e \<Rightarrow> Inl e
      | Inr (args, rest) \<Rightarrow> if args \<noteq> [] then Inr (args, rest) else nextLoop lim rest)"
  by pat_completeness auto
termination
  by (relation "measure (\<lambda>(lim, inp). length inp)") (auto dest: next_shrinks)

declare nextLoop.simps [simp del]

record respServer =
  rd :: string
  rerr :: "rdError option"
  lims :: limits

definition Next :: "respServer \<Rightarrow> respServer \<times> (rdError + string list)" where
  "Next s =
     (case rerr s of
        Some e \<Rightarrow> (s, Inl e)
      | None \<Rightarrow>
          (case nextLoop (lims s) (rd s) of
             Inl e \<Rightarrow> (s\<lparr>rerr := Some e\<rparr>, Inl e)
           | Inr (args, rest) \<Rightarrow> (s\<lparr>rd := rest\<rparr>, Inr args)))"

section \<open>Reading what the writers wrote\<close>

lemma readShortLine_crlf:
  assumes "CHR 0x0A \<notin> set s" "length s + 2 \<le> 65536"
  shows "readShortLine (s @ CRLF @ rest) = Inr (s, rest)"
proof -
  have "IndexByte (s @ CRLF @ rest) (CHR 0x0A) = Some (length s + 1)"
    unfolding IndexByte_Some_iff
  proof (intro conjI allI impI)
    show "(s @ CRLF @ rest) ! j \<noteq> CHR 0x0A" if "j < length s + 1" for j
      using that assms(1) by (cases "j < length s") (auto simp: nth_append in_set_conv_nth)
  qed (simp_all add: nth_append)
  then have "collectFragmentsSize (CHR 0x0A) ReaderBufferSize (s @ CRLF @ rest) = Inr (s @ CRLF, rest)"
    using assms(2) by (simp add: collectFragmentsSize_def ReaderBufferSize_def)
  then show ?thesis by (simp add: readShortLine_def nth_append)
qed

definition arg_total :: "string list \<Rightarrow> nat" where
  "arg_total args = sum_list (map length args)"

definition cmd_ok :: "limits \<Rightarrow> string list \<Rightarrow> bool" where
  "cmd_ok lim args \<longleftrightarrow> args \<noteq> [] \<and> int (length args) \<le> maxMultiBulkLength lim \<and> length args < 2 ^ 31
     \<and> (\<forall>a \<in> set args. int (length a) \<le> maxBulkLength lim \<and> length a < 2 ^ 32)
     \<and> int (arg_total args) + 2 \<le> maxBufferSize lim"

lemma header_line: "n < 2 ^ 32 \<Longrightarrow> readShortLine ((t # utoa n) @ CRLF @ rest) = Inr (t # utoa n, rest)" if "t \<noteq> CHR 0x0A" for t
  by (rule readShortLine_crlf) (use that utoa_no_crlf utoa_length [of n 10] in auto)

lemma readBulks_roundtrip:
  assumes "\<forall>a \<in> set as. int (length a) \<le> maxBulkLength lim \<and> length a < 2 ^ 32"
    and "int (p + arg_total as + 2) \<le> maxBufferSize lim"
  shows "readBulks lim (length as) p args (concat (map WriteBytes as) @ rest) = Inr (args @ as, rest)"
  using assms
proof (induction as arbitrary: p args)
  case (Cons a as)
  have a: "int (length a) \<le> maxBulkLength lim" "length a < 2 ^ 32" using Cons.prems(1) by simp_all
  let ?r = "a @ CRLF @ concat (map WriteBytes as) @ rest"
  have line: "readShortLine (WriteBytes a @ concat (map WriteBytes as) @ rest) = Inr (CHR ''$'' # utoa (length a), ?r)"
    using header_line [of "CHR ''$''" "length a" ?r] a(2) by (simp add: WriteBytes_eq Itoa_def)
  have len: "unat (of_nat (length a) :: u32) = length a" using a(2) by (simp add: unat_of_nat take_bit_nat_eq_self)
  have "int (p + length a + arg_total as + 2) \<le> maxBufferSize lim"
    using Cons.prems(2) by (simp add: arg_total_def)
  then have rec: "readBulks lim (length as) (p + length a) (args @ [a]) (concat (map WriteBytes as) @ rest) = Inr ((args @ [a]) @ as, rest)"
    and room: "\<not> int (p + length a + 2) > maxBufferSize lim"
    using Cons.IH [of "p + length a" "args @ [a]"] Cons.prems(1) by simp_all
  show ?case
    using rec room a(1) by (simp add: line ParseUInt32_utoa [OF a(2)] len Let_def)
qed simp

lemma next_roundtrip:
  assumes "cmd_ok lim args"
  shows "next_cmd lim (WriteArrayBytes args @ rest) = Inr (args, rest)"
proof -
  have n: "0 < length args" "length args < 2 ^ 31" using assms by (auto simp: cmd_ok_def)
  let ?r = "concat (map WriteBytes args) @ rest"
  have inp: "WriteArrayBytes args @ rest = (CHR ''*'' # utoa (length args)) @ CRLF @ ?r"
    by (simp add: WriteArrayBytes_eq Itoa_def)
  have line: "readShortLine (WriteArrayBytes args @ rest) = Inr (CHR ''*'' # utoa (length args), ?r)"
    unfolding inp by (rule header_line) (use n in simp_all)
  have "readBulks lim (length args) 0 [] ?r = Inr (args, rest)"
    using readBulks_roundtrip [of args lim 0 "[]" rest] assms by (simp add: cmd_ok_def)
  moreover have "utoa (length args) \<noteq> []" by simp
  moreover have "WriteArrayBytes args @ rest = CHR ''*'' # utoa (length args) @ CRLF @ ?r" using inp by simp
  ultimately show ?thesis
    using line ParseInt32_utoa [OF n] assms
    unfolding next_cmd_def by (simp add: cmd_ok_def)
qed

lemma nextLoop_roundtrip: "cmd_ok lim args \<Longrightarrow> nextLoop lim (WriteArrayBytes args @ rest) = Inr (args, rest)"
  by (subst nextLoop.simps) (simp add: next_roundtrip cmd_ok_def)

text \<open>Every call of \<^verbatim>\<open>Next\<close> in turn, as many as there are commands.\<close>

fun readAll :: "nat \<Rightarrow> respServer \<Rightarrow> (rdError + string list) list" where
  "readAll 0 s = []"
| "readAll (Suc n) s = (let (s', r) = Next s in r # readAll n s')"

lemma readAll_roundtrip:
  "\<forall>c \<in> set cmds. cmd_ok (lims s) c \<Longrightarrow> rerr s = None \<Longrightarrow> rd s = concat (map WriteArrayBytes cmds) @ rest \<Longrightarrow>
     readAll (length cmds) s = map Inr cmds"
proof (induction cmds arbitrary: s)
  case (Cons c cmds)
  have "nextLoop (lims s) (rd s) = Inr (c, concat (map WriteArrayBytes cmds) @ rest)"
    using Cons.prems nextLoop_roundtrip [of "lims s" c "concat (map WriteArrayBytes cmds) @ rest"] by simp
  then have "Next s = (s\<lparr>rd := concat (map WriteArrayBytes cmds) @ rest\<rparr>, Inr c)"
    using Cons.prems(2) by (simp add: Next_def)
  then show ?case using Cons.prems Cons.IH [of "s\<lparr>rd := concat (map WriteArrayBytes cmds) @ rest\<rparr>"] by simp
qed simp

text \<open>The limits hold for everything that is accepted.\<close>

lemma readBulks_limits:
  assumes "readBulks lim n p args inp = Inr (as, rest)" "\<forall>a \<in> set args. int (length a) \<le> maxBulkLength lim"
  shows "length as = length args + n \<and> (\<forall>a \<in> set as. int (length a) \<le> maxBulkLength lim)"
  using assms
proof (induction n arbitrary: p args inp)
  case (Suc n)
  obtain line r where l: "readShortLine inp = Inr (line, r)"
    using Suc.prems by (auto split: sum.splits)
  obtain k where k: "readBulks lim n (p + k) (args @ [take k r]) (drop (k + 2) r) = Inr (as, rest)" "int k \<le> maxBulkLength lim"
    using Suc.prems(1) l by (auto simp: Let_def not_less split: sum.splits if_splits)
  have "\<forall>a \<in> set (args @ [take k r]). int (length a) \<le> maxBulkLength lim"
    using Suc.prems(2) k(2) by auto
  from Suc.IH [OF k(1) this] show ?case by simp
qed simp

lemma readArgs_limits:
  assumes "readArgs lim inp dq sq bounds buf barrier = Inr (args, rest)"
    and "\<forall>(p, l) \<in> set bounds. int l \<le> maxBulkLength lim" "bounds \<noteq> [] \<longrightarrow> int (length bounds) \<le> maxMultiBulkLength lim"
  shows "(args \<noteq> [] \<longrightarrow> int (length args) \<le> maxMultiBulkLength lim) \<and> (\<forall>a \<in> set args. int (length a) \<le> maxBulkLength lim)"
  using assms
proof (induction lim inp dq sq bounds buf barrier rule: readArgs.induct)
  case (1 lim inp dq sq bounds buf barrier)
  show ?case
  proof (cases "skipSpaces inp")
    case Nil
    then show ?thesis using "1.prems"(1) by (simp add: readArgs.simps)
  next
    case (Cons c cs)
    show ?thesis
    proof (cases "spaceClass c = 2")
      case True
      then have "args = map (\<lambda>(p, l). take l (drop p buf)) bounds"
        using "1.prems"(1) Cons by (simp add: readArgs.simps split: if_splits)
      then show ?thesis using "1.prems"(2,3) by (auto simp: min_def)
    next
      case False
      obtain r d s b where i: "innerLoop lim (c # cs) dq sq buf = Inr (r, d, s, b)"
        using "1.prems"(1) Cons False by (auto simp: readArgs.simps split: sum.splits)
      have rec: "readArgs lim r d s (bounds @ [(barrier, length b - barrier)]) b (length b) = Inr (args, rest)"
        and lim: "\<not> int (length b - barrier) > maxBulkLength lim" "\<not> int (length bounds) + 1 > maxMultiBulkLength lim"
        using "1.prems"(1) Cons False i by (subst (asm) readArgs.simps, simp add: Let_def split: if_splits)+
      have "\<forall>(p, l) \<in> set (bounds @ [(barrier, length b - barrier)]). int l \<le> maxBulkLength lim"
        "int (length (bounds @ [(barrier, length b - barrier)])) \<le> maxMultiBulkLength lim"
        using "1.prems"(2) lim by auto
      then show ?thesis
        using "1.IH" [OF Cons False i refl refl refl refl lim rec] by blast
    qed
  qed
qed

lemma next_limits:
  assumes "next_cmd lim inp = Inr (args, rest)"
  shows "(args \<noteq> [] \<longrightarrow> int (length args) \<le> maxMultiBulkLength lim) \<and> (\<forall>a \<in> set args. int (length a) \<le> maxBulkLength lim)"
proof -
  consider "args = []" | "readArgs lim inp False False [] [] 0 = Inr (args, rest)"
    | n r where "readBulks lim (nat n) 0 [] r = Inr (args, rest)" "0 < n" "n \<le> maxMultiBulkLength lim"
    using assms by (auto simp: next_cmd_def not_less not_le split: list.splits sum.splits if_splits)
  then show ?thesis
  proof cases
    case 2
    then show ?thesis using readArgs_limits [OF 2] by simp
  next
    case 3
    then show ?thesis using readBulks_limits [OF 3(1)] by simp
  qed simp
qed

section \<open>Inline words\<close>

definition plain :: "string \<Rightarrow> bool" where
  "plain w \<longleftrightarrow> w \<noteq> [] \<and> (\<forall>c \<in> set w. spaceClass c = 0 \<and> c \<noteq> CHR 0x22 \<and> c \<noteq> CHR 0x27)"

lemma innerLoop_word:
  assumes "\<forall>c \<in> set w. spaceClass c = 0 \<and> c \<noteq> CHR 0x22 \<and> c \<noteq> CHR 0x27" "spaceClass sep = 1"
    and "int (length buf + length w) \<le> maxBufferSize lim"
  shows "innerLoop lim (w @ sep # rest) False False buf = Inr (sep # rest, False, False, buf @ w)"
  using assms
proof (induction w arbitrary: buf)
  case Nil
  then show ?case by (auto simp: innerStep_def spaceClass_def split: if_splits)
next
  case (Cons c w)
  then have "innerStep lim c (w @ sep # rest) False False buf = Continue (w @ sep # rest, False, False, buf @ [c])"
    by (simp add: innerStep_def push_def)
  with Cons.IH [of "buf @ [c]"] Cons.prems show ?case by simp
qed

lemma skipSpaces_seps: "\<forall>c \<in> set seps. spaceClass c = 1 \<Longrightarrow> spaceClass c = 0 \<or> spaceClass c = 2 \<Longrightarrow>
    skipSpaces (seps @ c # cs) = c # cs"
  by (induction seps) (auto simp: skipSpaces_def)

lemma slice_append: "p + l \<le> length buf \<Longrightarrow> take l (drop p (buf @ w)) = take l (drop p buf)"
  by simp

lemma readArgs_words:
  assumes "\<forall>c \<in> set seps. spaceClass c = 1"
    and "\<forall>(w, sep) \<in> set ws. plain w \<and> spaceClass sep = 1 \<and> int (length w) \<le> maxBulkLength lim"
    and "int (length bounds + length ws) \<le> maxMultiBulkLength lim"
    and "int (length buf + arg_total (map fst ws)) \<le> maxBufferSize lim"
    and "\<forall>(p, l) \<in> set bounds. p + l \<le> length buf"
  shows "readArgs lim (seps @ concat (map (\<lambda>(w, sep). w @ [sep]) ws) @ CHR 0x0A # rest) False False bounds buf (length buf)
     = Inr (map (\<lambda>(p, l). take l (drop p buf)) bounds @ map fst ws, rest)"
  using assms
proof (induction ws arbitrary: seps bounds buf)
  case Nil
  have "skipSpaces (seps @ CHR 0x0A # rest) = CHR 0x0A # rest"
    by (rule skipSpaces_seps) (use Nil.prems(1) in \<open>auto simp: spaceClass_def\<close>)
  then show ?case by (simp add: readArgs.simps spaceClass_def)
next
  case (Cons x ws)
  obtain w sep where x: "x = (w, sep)" by force
  let ?tl = "concat (map (\<lambda>(w, sep). w @ [sep]) ws) @ CHR 0x0A # rest"
  have w: "plain w" "spaceClass sep = 1" "int (length w) \<le> maxBulkLength lim" using Cons.prems(2) x by auto
  then obtain c cs where c: "w = c # cs" "spaceClass c = 0" by (cases w) (auto simp: plain_def)
  have skip: "skipSpaces (seps @ w @ sep # ?tl) = c # cs @ sep # ?tl"
    using skipSpaces_seps [OF Cons.prems(1), of c "cs @ sep # ?tl"] c by simp
  have inner: "innerLoop lim (c # cs @ sep # ?tl) False False buf = Inr (sep # ?tl, False, False, buf @ w)"
    using innerLoop_word [of w sep buf lim ?tl] w Cons.prems(4) x c(1) by (simp add: plain_def arg_total_def)
  have "readArgs lim ([sep] @ ?tl) False False (bounds @ [(length buf, length w)]) (buf @ w) (length (buf @ w))
      = Inr (map (\<lambda>(p, l). take l (drop p (buf @ w))) (bounds @ [(length buf, length w)]) @ map fst ws, rest)"
    by (rule Cons.IH) (use Cons.prems w x in \<open>auto simp: arg_total_def\<close>)
  moreover have "map (\<lambda>(p, l). take l (drop p (buf @ w))) bounds = map (\<lambda>(p, l). take l (drop p buf)) bounds"
    using Cons.prems(5) by auto
  ultimately show ?case
    using skip inner c w(3) Cons.prems(3) x
    by (subst readArgs.simps) (simp add: Let_def)
qed

lemma nextLoop_facts:
  "nextLoop lim inp = Inr (args, rest) \<Longrightarrow> args \<noteq> [] \<and> int (length args) \<le> maxMultiBulkLength lim
      \<and> (\<forall>a \<in> set args. int (length a) \<le> maxBulkLength lim) \<and> length rest < length inp"
proof (induction lim inp rule: nextLoop.induct)
  case (1 lim inp)
  obtain as r where n: "next_cmd lim inp = Inr (as, r)"
    using "1.prems" by (subst (asm) nextLoop.simps) (auto split: sum.splits)
  show ?case
  proof (cases "as = []")
    case True
    then have "nextLoop lim r = Inr (args, rest)" using "1.prems" n by (subst (asm) nextLoop.simps) simp
    with "1.IH" [OF n refl] True next_shrinks [OF n] show ?thesis by auto
  next
    case False
    then have "args = as" "rest = r" using "1.prems" n by (subst (asm) nextLoop.simps, simp)+
    with False next_limits [OF n] next_shrinks [OF n] show ?thesis by auto
  qed
qed

lemma Next_facts:
  assumes "Next s = (s', Inr args)"
  shows "args \<noteq> []" "length (rd s') < length (rd s)" "lims s' = lims s"
  using assms nextLoop_facts [of "lims s" "rd s"] by (auto simp: Next_def split: option.splits sum.splits)

section \<open>Properties\<close>

text \<open>C12: the reader undoes the writer: any sequence of commands within the limits, written one after the
  other as arrays of bulk strings (by the server's own writer or by the cluster's), is read back command
  by command with every byte of every argument, however the arguments look.\<close>

theorem commands_roundtrip:
  assumes "\<forall>c \<in> set cmds. cmd_ok (lims s) c" "rerr s = None"
    and "rd s = concat (map WriteArrayString cmds) @ rest \<or> rd s = concat (map writeClusterCommand cmds) @ rest"
  shows "readAll (length cmds) s = map Inr cmds"
proof -
  have "WriteArrayString = WriteArrayBytes"
    by (simp add: fun_eq_iff WriteArrayString_def WriteArrayBytes_def WriteString_def [abs_def])
  moreover have "writeClusterCommand = WriteArrayBytes"
    by (simp add: fun_eq_iff writeClusterCommand_eq)
  ultimately have "rd s = concat (map WriteArrayBytes cmds) @ rest" using assms(3) by auto
  from readAll_roundtrip [OF assms(1,2) this] show ?thesis .
qed

theorem commands_roundtrip_witness:
  "readAll (length [[''SET'', ''k'', [CHR 0x0D, CHR 0x0A]], [''GET'', ''k'']])
     \<lparr>rd = concat (map WriteArrayString [[''SET'', ''k'', [CHR 0x0D, CHR 0x0A]], [''GET'', ''k'']]) @ [], rerr = None,
      lims = \<lparr>maxMultiBulkLength = 1024, maxBulkLength = 65536, maxBufferSize = 1048576\<rparr>\<rparr>
    = map Inr [[''SET'', ''k'', [CHR 0x0D, CHR 0x0A]], [''GET'', ''k'']]"
  by (rule commands_roundtrip [OF _ _ disjI1 [OF respServer.select_convs(1)]])
    (simp_all add: cmd_ok_def arg_total_def)

text \<open>C13: whatever bytes arrive, Next returns: an error that every later call repeats, or a command with at
  least one argument that respects the configured limits on the number and the length of its arguments;
  and a command always uses up input, so a connection is finished after finitely many.\<close>

theorem Next_total_and_limited:
  "case Next s of
     (s', Inl e) \<Rightarrow> Next s' = (s', Inl e)
   | (s', Inr args) \<Rightarrow> args \<noteq> [] \<and> int (length args) \<le> maxMultiBulkLength (lims s)
       \<and> (\<forall>a \<in> set args. int (length a) \<le> maxBulkLength (lims s)) \<and> length (rd s') < length (rd s)"
  using nextLoop_facts [of "lims s" "rd s"] by (auto simp: Next_def split: option.splits sum.splits)

text \<open>an inline line of plain words, each followed by one blank, tab or carriage return, up to the line
  feed, is read as exactly these words.\<close>

theorem inline_words:
  assumes "ws \<noteq> []" "\<forall>(w, sep) \<in> set ws. plain w \<and> spaceClass sep = 1 \<and> int (length w) \<le> maxBulkLength lim"
    and "int (length ws) \<le> maxMultiBulkLength lim" "int (arg_total (map fst ws)) \<le> maxBufferSize lim"
    and "hd (fst (hd ws)) \<noteq> CHR ''*''"
  shows "next_cmd lim (concat (map (\<lambda>(w, sep). w @ [sep]) ws) @ CHR 0x0A # rest) = Inr (map fst ws, rest)"
proof -
  obtain w sep ws' where ws: "ws = (w, sep) # ws'" using assms(1) by (metis list.exhaust surj_pair)
  then obtain c cs where w: "w = c # cs" using assms(2) by (cases w) (auto simp: plain_def)
  have "readArgs lim ([] @ concat (map (\<lambda>(w, sep). w @ [sep]) ws) @ CHR 0x0A # rest) False False [] [] (length ([] :: string))
      = Inr (map (\<lambda>(p, l). take l (drop p [])) [] @ map fst ws, rest)"
    by (rule readArgs_words) (use assms in simp_all)
  then show ?thesis using assms(5) by (simp add: next_cmd_def ws w)
qed

theorem inline_words_witness:
  "next_cmd \<lparr>maxMultiBulkLength = 1024, maxBulkLength = 65536, maxBufferSize = 1048576\<rparr>
      (''GET'' @ '' '' @ ''key'' @ [CHR 0x0D] @ CHR 0x0A # []) = Inr ([''GET'', ''key''], [])"
  using inline_words [of "[(''GET'', CHR '' ''), (''key'', CHR 0x0D)]"
      "\<lparr>maxMultiBulkLength = 1024, maxBulkLength = 65536, maxBufferSize = 1048576\<rparr>" "[]"]
  by (simp add: plain_def spaceClass_def arg_total_def)

theorem Next_total_and_limited_witness:
  "\<exists>s' args. Next \<lparr>rd = WriteArrayString [''GET'', ''k''], rerr = None,
       lims = \<lparr>maxMultiBulkLength = 8, maxBulkLength = 8, maxBufferSize = 64\<rparr>\<rparr> = (s', Inr args)
     \<and> args \<noteq> [] \<and> int (length args) \<le> 8 \<and> (\<forall>a \<in> set args. int (length a) \<le> 8)"
proof -
  let ?s = "\<lparr>rd = WriteArrayString [''GET'', ''k''], rerr = None,
       lims = \<lparr>maxMultiBulkLength = 8, maxBulkLength = 8, maxBufferSize = 64\<rparr>\<rparr>"
  have "readAll (length [[''GET'', ''k'']]) ?s = map Inr [[''GET'', ''k'']]"
    by (rule readAll_roundtrip [where rest = "[]"])
      (simp_all add: cmd_ok_def arg_total_def WriteArrayString_def WriteArrayBytes_def WriteString_def)
  then have "\<exists>s' args. Next ?s = (s', Inr args)" by (auto split: prod.splits)
  then show ?thesis using Next_total_and_limited [of ?s] by auto
qed

end
