(* ===== verification/Server_Dispatch.thy ===== *)
theory Server_Dispatch
  imports Server_Commands PubSub Resp_Reader
begin

text \<open>
  The rest of \<^verbatim>\<open>cmd/ember-server\<close>: \<^verbatim>\<open>commands.go\<close>, \<^verbatim>\<open>commands_cluster.go\<close>, \<^verbatim>\<open>commands_pubsub.go\<close>, and the connection loop of
  \<^verbatim>\<open>main.go\<close>. The state of the process is the record \<open>server\<close>: the store, the view of the cluster (nil without
  cluster mode) and the hub; a connection owns the channels it subscribed to. Commands of different connections
  interleave one whole command at a time, each handler holding the locks of what it touches; the goroutine that forwards
  messages to a subscriber is the step \<^const>\<open>recv\<close> of the hub.
\<close>

record server =
  svKV :: KVStore
  svCluster :: "ClusterState option"
  svPS :: PubSub

type_synonym subs = "(string, nat list) gomap"

definition lf :: string where "lf = [CHR 0x0A]"

section \<open>\<^verbatim>\<open>commands.go\<close>\<close>

definition handlePing :: "ClusterState option \<Rightarrow> bool \<Rightarrow> reply list option" where
  "handlePing cs cluster =
     (if cluster then
        do { s \<leftarrow> cs; n \<leftarrow> deref s (Self s);
             let self = Snapshot n
             in Some [WriteStatusString (''PONG from '' @ snapName self @ lf),
                      WriteStatusString (''PONG from '' @ Itoa (snapClientPort self) @ lf),
                      WriteStatusString (''PONG from '' @ Itoa (snapClusterBusPort self) @ lf)] }
      else Some [WriteStatusString ''PONG''])"

definition handleEcho :: "string list \<Rightarrow> reply list" where
  "handleEcho args =
     (case args of
        [] \<Rightarrow> [WriteError ''wrong number of arguments for 'ECHO' command'']
      | [a] \<Rightarrow> [WriteBytes a]
      | _ \<Rightarrow> [WriteArrayBytes args])"

definition deleteError :: reply where "deleteError = WriteError (''ERROR deleting key'' @ lf)"

text \<open>The loop over several keys writes an error for each key that was not there and goes on.\<close>

fun deleteLoop :: "crc16 \<Rightarrow> string list \<Rightarrow> KVStore \<Rightarrow> reply list \<Rightarrow> KVStore \<times> reply list" where
  "deleteLoop crc [] kv out = (kv, out)"
| "deleteLoop crc (key # rest) kv out =
     (let (kv', n) = Delete crc kv key in deleteLoop crc rest kv' (if n \<noteq> 1 then out @ [deleteError] else out))"

definition handleDelete :: "crc16 \<Rightarrow> KVStore \<Rightarrow> string list \<Rightarrow> KVStore \<times> reply list" where
  "handleDelete crc kv args =
     (case args of
        [key] \<Rightarrow> (let (kv', n) = Delete crc kv key in if n \<noteq> 1 then (kv', [deleteError]) else (kv', [WriteOK]))
      | _ \<Rightarrow> (let (kv', out) = deleteLoop crc args kv [] in (kv', out @ [WriteOK])))"

section \<open>\<^verbatim>\<open>commands_cluster.go\<close>\<close>

text \<open>The text of a \<^verbatim>\<open>strconv.NumError\<close>.\<close>

definition numErrText :: "ctx \<Rightarrow> string \<Rightarrow> numErr \<Rightarrow> string" where
  "numErrText cx s e = ''strconv.Atoi: parsing '' @ cx_quote cx s @
     (case e of ErrSyntax \<Rightarrow> '': invalid syntax'' | ErrRange \<Rightarrow> '': value out of range'')"

definition handleGetKeysInSlot :: "ctx \<Rightarrow> KVStore \<Rightarrow> string list \<Rightarrow> reply list" where
  "handleGetKeysInSlot cx kv args =
     (case args of
        [s, b] \<Rightarrow>
          (case Atoi s of
             Inl e \<Rightarrow> [WriteError (''Error converting slot to int '' @ numErrText cx s e)]
           | Inr slot \<Rightarrow>
               (case Atoi b of
                  Inl e \<Rightarrow> [WriteError (''Error converting batchSize to int '' @ numErrText cx b e)]
                | Inr batchSize \<Rightarrow> [WriteArrayString (GetKeysInSlot (cx_keys cx) kv (of_int slot) batchSize)]))
      | _ \<Rightarrow> [WriteError ''Wrong number of arguments for 'GETKEYSINSLOT' command''])"

text \<open>\<^verbatim>\<open>args[i]\<close>: an index out of range panics.\<close>

definition argAt :: "string list \<Rightarrow> nat \<Rightarrow> string option" where
  "argAt args i = (if i < length args then Some (args ! i) else None)"

fun dumpError_text :: "dumpError \<Rightarrow> string" where
  "dumpError_text DumpInvalid = ''invalid dump''"
| "dumpError_text DumpType = ''unsupported dump type''"
| "dumpError_text DumpLength = ''invalid dump length''"

definition handleRestoreAsking :: "ctx \<Rightarrow> KVStore \<Rightarrow> string list \<Rightarrow> outcome" where
  "handleRestoreAsking cx kv args =
     (if length args \<noteq> 3 then Some (kv, [WriteError ''Wrong number of arguments for 'RESTORE-ASKING' command''])
      else do { key \<leftarrow> argAt args 0;
                dump \<leftarrow> argAt args 3;
                case RestoreDataFromBinaryDump dump of
                  Inl err \<Rightarrow> Some (kv, [WriteError (''RESTORE ASKING ERROR: '' @ dumpError_text err)])
                | Inr v \<Rightarrow> do { (kv', _) \<leftarrow> SetKV (cx_crc cx) kv key v; Some (kv', [WriteOK]) } })"

definition handleSetSlot :: "ctx \<Rightarrow> ClusterState option \<Rightarrow> string list \<Rightarrow> (ClusterState option \<times> reply list) option" where
  "handleSetSlot cx cs args =
     (let errReply = (\<lambda>e. [WriteError (''SETSLOT ERROR: '' @ setSlotError_text e)])
      in case cs of
           None \<Rightarrow> do { e \<leftarrow> setSlotChecks (cx_lower cx) args; Some (None, errReply e) }
         | Some s \<Rightarrow>
             do { (s', err) \<leftarrow> ClusterSetSlot (cx_lower cx) args s;
                  Some (Some s', case err of None \<Rightarrow> [WriteOK] | Some e \<Rightarrow> errReply e) })"

text \<open>The loop of \<^verbatim>\<open>MIGRATE\<close> over its keys: each is dumped, sent to the target and deleted here once the target has it.\<close>

fun migrateLoop :: "ctx \<Rightarrow> string \<Rightarrow> string list \<Rightarrow> KVStore \<Rightarrow> reply list \<Rightarrow> KVStore \<times> reply list" where
  "migrateLoop cx addr [] kv out = (kv, out)"
| "migrateLoop cx addr (key # rest) kv out =
     (let dump = EncodeBinaryDump (Get (cx_crc cx) kv key)
      in case cx_ask cx addr [''RESTORE-ASKING'', key, ''5000'', dump] of
           Some err \<Rightarrow> migrateLoop cx addr rest kv (out @ [WriteError (''ERROR: '' @ err)])
         | None \<Rightarrow>
             (let (kv', n) = Delete (cx_crc cx) kv key
              in migrateLoop cx addr rest kv' (if n \<noteq> 1 then out @ [WriteError ''ERR DELETING KEY''] else out)))"

definition handleMigrate :: "ctx \<Rightarrow> KVStore \<Rightarrow> string list \<Rightarrow> KVStore \<times> reply list" where
  "handleMigrate cx kv args =
     (if length args \<noteq> 6 then (kv, [WriteError ''Wrong number of arguments for 'MIGRATE' command''])
      else if args ! 5 \<noteq> ''KEYS'' then (kv, [WriteError ''INVALID MIGRATE COMMAND SYNTAX''])
      else let (kv', out) = migrateLoop cx (JoinHostPort (args ! 0) (args ! 1)) (drop 6 args) kv []
           in (kv', out @ [WriteOK]))"

text \<open>The loop of \<^verbatim>\<open>CLUSTER NODES\<close>, which stops at a nil node.\<close>

fun snapshotLoop :: "ClusterState \<Rightarrow> (string \<times> nodeRef option) list \<Rightarrow> (string, NodeSnapshot) gomap
    \<Rightarrow> (string + (string, NodeSnapshot) gomap) option" where
  "snapshotLoop s [] m = Some (Inr m)"
| "snapshotLoop s ((name, p) # rest) m =
     (case p of
        None \<Rightarrow> Some (Inl name)
      | Some r \<Rightarrow> do { m' \<leftarrow> assign m name (Snapshot (store s r)); snapshotLoop s rest m' })"

text \<open>The result of a subcommand of \<^verbatim>\<open>CLUSTER\<close> says also whether the connection goes on: it is closed when writing an
  array failed.\<close>

type_synonym clusterStep = "(ClusterState option \<times> reply list \<times> bool) option"

definition refuse :: "ClusterState option \<Rightarrow> string \<Rightarrow> clusterStep" where
  "refuse cs e = Some (cs, [WriteError e], True)"

definition clusterNodesCmd :: "ctx \<Rightarrow> ClusterState option \<Rightarrow> clusterStep" where
  "clusterNodesCmd cx cs =
     (case cs of
        None \<Rightarrow> refuse cs ''cluster state is not initialized''
      | Some s \<Rightarrow>
          do { snaps \<leftarrow> snapshotLoop s (map (\<lambda>k. (k, fst (comma_ok (Nodes s) k None))) (cx_nodes cx (Nodes s))) (GoMap []);
               case snaps of
                 Inl nilNode \<Rightarrow> refuse cs (''cluster node '' @ cx_quote cx nilNode @ '' is nil'')
               | Inr m \<Rightarrow>
                   (case cx_json cx m of
                      Inl err \<Rightarrow> refuse cs (''encode cluster nodes: '' @ err)
                    | Inr payload \<Rightarrow> Some (cs, [WriteString payload], True)) })"

definition addSlotsRange :: "nat \<Rightarrow> nat \<Rightarrow> ClusterState \<Rightarrow> ClusterState option" where
  "addSlotsRange slotStart slotEnd s =
     do { r \<leftarrow> Self s;
          n \<leftarrow> AddSlotRange slotStart slotEnd (store s r);
          Some (updNode r (\<lambda>_. n) (s\<lparr>Slots := (\<lambda>i. if slotStart \<le> i \<and> i \<le> slotEnd then Some r else Slots s i)\<rparr>)) }"

definition clusterAddSlotsRangeCmd :: "ctx \<Rightarrow> ClusterState option \<Rightarrow> string list \<Rightarrow> clusterStep" where
  "clusterAddSlotsRangeCmd cx cs rest =
     (case rest of
        [a, b] \<Rightarrow>
          (case Atoi a of
             Inl e \<Rightarrow> refuse cs (''ERR invalid start slot: '' @ numErrText cx a e)
           | Inr slotStart \<Rightarrow>
               (case Atoi b of
                  Inl e \<Rightarrow> refuse cs (''ERR invalid end slot: '' @ numErrText cx b e)
                | Inr slotEnd \<Rightarrow>
                    if slotStart < 0 \<or> slotEnd < slotStart \<or> slotEnd \<ge> int CLUSTER_SLOTS
                    then refuse cs (''ERR invalid slot range '' @ Itoa slotStart @ ''-'' @ Itoa slotEnd)
                    else do { s \<leftarrow> cs; s' \<leftarrow> addSlotsRange (nat slotStart) (nat slotEnd) s; Some (Some s', [WriteOK], True) }))
      | _ \<Rightarrow> refuse cs ''Wrong number of arguments for 'CLUSTER ADDSLOTSRANGE' command'')"

definition clusterMeetCmd :: "ctx \<Rightarrow> ClusterState option \<Rightarrow> string list \<Rightarrow> clusterStep" where
  "clusterMeetCmd cx cs rest =
     (case rest of
        [senderHost, p] \<Rightarrow>
          (case Atoi p of
             Inl e \<Rightarrow> refuse cs (''ERR invalid cluster port: '' @ numErrText cx p e)
           | Inr senderPort \<Rightarrow>
               do { s \<leftarrow> cs;
                    (s', err) \<leftarrow> ClusterStartHandshake (cx_dial cx) (cx_rt cx) senderHost senderPort s;
                    case err of
                      None \<Rightarrow> Some (Some s', [WriteOK], True)
                    | Some e \<Rightarrow> refuse (Some s') (''ERR cluster meet: '' @ e) })
      | _ \<Rightarrow> refuse cs ''Wrong number of arguments for 'CLUSTER MEET' command'')"

definition handleCluster :: "ctx \<Rightarrow> bool \<Rightarrow> ClusterState option \<Rightarrow> string list \<Rightarrow> clusterStep" where
  "handleCluster cx cluster cs args =
     (if \<not> cluster then refuse cs ''Clustering is not enabled''
      else case args of
        [] \<Rightarrow> refuse cs ''Wrong number of arguments for 'CLUSTER' command''
      | what # rest \<Rightarrow>
          if what = ''SLOTS'' then
            (if rest \<noteq> [] then refuse cs ''Wrong number of arguments for 'CLUSTER SLOTS' command''
             else do { s \<leftarrow> cs;
                       let (out, ok) = WriteArray (cx_fmt cx) resp2compat (clusterSlots cx s)
                       in Some (cs, [out], ok) })
          else if what = ''NODES'' then clusterNodesCmd cx cs
          else if what = ''ADDSLOTSRANGE'' then clusterAddSlotsRangeCmd cx cs rest
          else if what = ''MYADDR'' then
            do { s \<leftarrow> cs; n \<leftarrow> deref s (Self s);
                 Some (cs, [WriteArrayString [snapHost (Snapshot n), Itoa (snapClientPort (Snapshot n))]], True) }
          else if what = ''MEET'' then clusterMeetCmd cx cs rest
          else refuse cs ''NO SUCH COMMAND'')"

section \<open>\<^verbatim>\<open>commands_pubsub.go\<close>\<close>

definition handlePublish :: "PubSub \<Rightarrow> string list \<Rightarrow> (PubSub \<times> reply list) option" where
  "handlePublish ps args =
     (case args of
        [c, message] \<Rightarrow> do { (ps', n) \<leftarrow> Publish c message ps; Some (ps', [WriteInt n]) }
      | _ \<Rightarrow> Some (ps, [WriteError ''Wrong number of arguments for 'PUBLISH' command'']))"

fun subscribeLoop :: "string list \<Rightarrow> PubSub \<Rightarrow> subs \<Rightarrow> reply list \<Rightarrow> (PubSub \<times> subs \<times> reply list) option" where
  "subscribeLoop [] ps sb out = Some (ps, sb, out)"
| "subscribeLoop (c # cs) ps sb out =
     do { (ps', ch) \<leftarrow> Subscribe c ps;
          sb' \<leftarrow> assign sb c (fst (comma_ok sb c []) @ [ch]);
          subscribeLoop cs ps' sb' (out @ [WriteOK]) }"

definition handleSubscribe :: "PubSub \<Rightarrow> subs \<Rightarrow> string list \<Rightarrow> (PubSub \<times> subs \<times> reply list) option" where
  "handleSubscribe ps sb args =
     (if args = [] then Some (ps, sb, [WriteError ''Wrong number of arguments for 'SUBSCRIBE' command''])
      else subscribeLoop args ps sb [])"

fun dropSubscribers :: "string \<Rightarrow> nat list \<Rightarrow> PubSub \<Rightarrow> PubSub option" where
  "dropSubscribers c [] ps = Some ps"
| "dropSubscribers c (ch # chs) ps = do { ps' \<leftarrow> Unsubscribe c ch ps; dropSubscribers c chs ps' }"

fun unsubscribeLoop :: "string list \<Rightarrow> PubSub \<Rightarrow> subs \<Rightarrow> (PubSub \<times> subs) option" where
  "unsubscribeLoop [] ps sb = Some (ps, sb)"
| "unsubscribeLoop (c # cs) ps sb =
     do { ps' \<leftarrow> dropSubscribers c (fst (comma_ok sb c [])) ps; unsubscribeLoop cs ps' (remove sb c) }"

definition handleUnsubscribe :: "ctx \<Rightarrow> PubSub \<Rightarrow> subs \<Rightarrow> string list \<Rightarrow> (PubSub \<times> subs \<times> reply list) option" where
  "handleUnsubscribe cx ps sb args =
     do { (ps', sb') \<leftarrow> unsubscribeLoop (if args = [] then cx_chans cx sb else args) ps sb;
          Some (ps', sb', [WriteOK]) }"

section \<open>\<^verbatim>\<open>main.go\<close>\<close>

definition BytesToLower :: "string \<Rightarrow> string" where
  "BytesToLower b = map (\<lambda>c. if CHR ''A'' \<le> c \<and> c \<le> CHR ''Z'' then char_of (of_char c + 32 :: nat) else c) b"

text \<open>What a command leaves: the process, the channels of the connection, the replies, and whether to read on.\<close>

type_synonym step = "(server \<times> subs \<times> reply list \<times> bool) option"

definition kvStep :: "server \<Rightarrow> subs \<Rightarrow> outcome \<Rightarrow> step" where
  "kvStep sv sb out = do { (kv, rs) \<leftarrow> out; Some (sv\<lparr>svKV := kv\<rparr>, sb, rs, True) }"

text \<open>The \<^verbatim>\<open>switch\<close> of \<^verbatim>\<open>handleConnection\<close>.\<close>

definition dispatch :: "ctx \<Rightarrow> bool \<Rightarrow> server \<Rightarrow> subs \<Rightarrow> string \<Rightarrow> string list \<Rightarrow> step" where
  "dispatch cx cluster sv sb cmd args =
     (case map_of keyedCommands cmd of
        Some h \<Rightarrow> kvStep sv sb (h cx (svCluster sv) cluster (svKV sv) args)
      | None \<Rightarrow>
          if cmd = ''flushall'' then kvStep sv sb (Some (FlushAll (svKV sv), [WriteOK]))
          else if cmd = ''ping'' then do { rs \<leftarrow> handlePing (svCluster sv) cluster; Some (sv, sb, rs, True) }
          else if cmd = ''echo'' then Some (sv, sb, handleEcho args, True)
          else if cmd = ''publish'' then
            do { (ps, rs) \<leftarrow> handlePublish (svPS sv) args; Some (sv\<lparr>svPS := ps\<rparr>, sb, rs, True) }
          else if cmd = ''subscribe'' then
            do { (ps, sb', rs) \<leftarrow> handleSubscribe (svPS sv) sb args; Some (sv\<lparr>svPS := ps\<rparr>, sb', rs, True) }
          else if cmd = ''unsubscribe'' then
            do { (ps, sb', rs) \<leftarrow> handleUnsubscribe cx (svPS sv) sb args; Some (sv\<lparr>svPS := ps\<rparr>, sb', rs, True) }
          else if cmd = ''del'' \<or> cmd = ''delete'' then kvStep sv sb (Some (handleDelete (cx_crc cx) (svKV sv) args))
          else if cmd = ''getkeysinslot'' then Some (sv, sb, handleGetKeysInSlot cx (svKV sv) args, True)
          else if cmd = ''restore-asking'' then kvStep sv sb (handleRestoreAsking cx (svKV sv) args)
          else if cmd = ''setslot'' then
            do { (cs, rs) \<leftarrow> handleSetSlot cx (svCluster sv) args; Some (sv\<lparr>svCluster := cs\<rparr>, sb, rs, True) }
          else if cmd = ''migrate'' then kvStep sv sb (Some (handleMigrate cx (svKV sv) args))
          else if cmd = ''cluster'' then
            do { (cs, rs, go) \<leftarrow> handleCluster cx cluster (svCluster sv) args; Some (sv\<lparr>svCluster := cs\<rparr>, sb, rs, go) }
          else Some (sv, sb, [WriteError (''unknown command '' @ [CHR 0x27] @ cmd @ [CHR 0x27])], True))"

text \<open>One turn of the loop: the first word in lower case is the command. \<^const>\<open>Next\<close> never returns an empty command.\<close>

definition runCommand :: "ctx \<Rightarrow> bool \<Rightarrow> string list \<Rightarrow> server \<Rightarrow> subs \<Rightarrow> step" where
  "runCommand cx cluster words sv sb =
     (case words of [] \<Rightarrow> None | w # args \<Rightarrow> dispatch cx cluster sv sb (BytesToLower w) args)"

fun rdError_text :: "rdError \<Rightarrow> string" where
  "rdError_text EOF = ''EOF''"
| "rdError_text UnexpectedEOF = ''unexpected EOF''"
| "rdError_text ErrBufferFull = ''bufio: buffer full''"
| "rdError_text ErrProtoUnbalancedQuotes = ''Protocol error: unbalanced quotes in request''"
| "rdError_text ErrProtoInvalidMultiBulkLength = ''Protocol error: invalid multibulk length''"
| "rdError_text ErrProtoInvalidBulkLength = ''Protocol error: invalid bulk length''"
| "rdError_text ErrProtoExpectedString = ''Protocol error: expected '' @ [CHR 0x27] @ ''$'' @ [CHR 0x27]"

definition connLimits :: limits where
  "connLimits = \<lparr>maxMultiBulkLength = 1024, maxBulkLength = 65536, maxBufferSize = 1048576\<rparr>"

text \<open>The loop; it ends with the first read error, which is written as a reply (\<^verbatim>\<open>CloseWithError\<close>).\<close>

function connLoop :: "ctx \<Rightarrow> bool \<Rightarrow> respServer \<Rightarrow> server \<Rightarrow> subs \<Rightarrow> (server \<times> subs \<times> reply list) option" where
  "connLoop cx cluster rc sv sb =
     (case Next rc of
        (_, Inl e) \<Rightarrow> Some (sv, sb, [WriteError (rdError_text e)])
      | (rc', Inr words) \<Rightarrow>
          (case runCommand cx cluster words sv sb of
             None \<Rightarrow> None
           | Some (sv', sb', rs, go) \<Rightarrow>
               if go then map_option (\<lambda>(sv'', sb'', rs'). (sv'', sb'', rs @ rs')) (connLoop cx cluster rc' sv' sb')
               else Some (sv', sb', rs)))"
  by pat_completeness auto
termination
  by (relation "measure (\<lambda>(cx, cluster, rc, sv, sb). length (rd rc))") (auto dest: Next_facts(2) [OF sym])

declare connLoop.simps [simp del]

text \<open>The deferred function of \<^verbatim>\<open>handleConnection\<close>: what is left of the subscriptions is dropped.\<close>

fun closeSubscriptions :: "string list \<Rightarrow> subs \<Rightarrow> PubSub \<Rightarrow> PubSub option" where
  "closeSubscriptions [] sb ps = Some ps"
| "closeSubscriptions (c # cs) sb ps = do { ps' \<leftarrow> dropSubscribers c (fst (comma_ok sb c [])) ps; closeSubscriptions cs sb ps' }"

definition handleConnection :: "ctx \<Rightarrow> bool \<Rightarrow> string \<Rightarrow> server \<Rightarrow> (server \<times> reply list) option" where
  "handleConnection cx cluster input sv =
     do { (sv', sb, rs) \<leftarrow> connLoop cx cluster \<lparr>rd = input, rerr = None, lims = connLimits\<rparr> sv (GoMap []);
          ps \<leftarrow> closeSubscriptions (cx_chans cx sb) sb (svPS sv');
          Some (sv'\<lparr>svPS := ps\<rparr>, rs) }"

text \<open>The state \<^verbatim>\<open>Run\<close> sets up before it accepts connections. \<open>uuid\<close> is the name of this node.\<close>

definition Run :: "string \<Rightarrow> string \<Rightarrow> string \<Rightarrow> bool \<Rightarrow> numErr + server" where
  "Run uuid prt clusterHost cluster =
     (if cluster then
        (case Atoi prt of
           Inl e \<Rightarrow> Inl e
         | Inr clientPort \<Rightarrow>
             Inr \<lparr>svKV = NewKVStore [cluster], svCluster = Some (initState (NewNode uuid clientPort clusterHost 0 False)),
                  svPS = NewPubSub\<rparr>)
      else Inr \<lparr>svKV = NewKVStore [cluster], svCluster = None, svPS = NewPubSub\<rparr>)"

section \<open>The handlers keep the process well formed\<close>

definition sv_inv :: "ctx \<Rightarrow> bool \<Rightarrow> server \<Rightarrow> bool" where
  "sv_inv cx cluster sv \<longleftrightarrow> srv_ok cx (svCluster sv) cluster (svKV sv) \<and> ps_inv (svPS sv)
     \<and> (\<forall>s. svCluster sv = Some s \<longrightarrow> bus_wf s) \<and> (\<not> cluster \<longrightarrow> svCluster sv = None)"

definition ctx_ok :: "ctx \<Rightarrow> bool" where
  "ctx_ok cx \<longleftrightarrow> env_ok (rtEnv (cx_rt cx)) \<and> is_iteration (cx_chans cx) \<and> is_iteration (cx_nodes cx) \<and> is_iteration (cx_keys cx)"

definition subs_wf :: "subs \<Rightarrow> bool" where
  "subs_wf sb \<longleftrightarrow> sb \<noteq> NilMap \<and> gm_wf sb"

lemma Delete_safe: "kv_wf crc kv \<Longrightarrow> kv_safe crc kv (Some (Delete crc kv k))"
  by (rule kv_result_safe [OF Delete_result])

lemma deleteLoop_safe: "kv_wf crc kv \<Longrightarrow> kv_safe crc kv (Some (deleteLoop crc ks kv out))"
proof (induction ks arbitrary: kv out)
  case (Cons k ks)
  obtain kv' n where d: "Delete crc kv k = (kv', n)" by force
  then have "kv_wf crc kv'" "clusterEnabled kv' = clusterEnabled kv"
    using Delete_safe [OF Cons.prems, of k] by (auto simp: kv_safe_def)
  with Cons.IH [of kv'] d show ?case by (simp add: kv_safe_def)
qed (simp add: kv_safe_def)

lemma handleDelete_safe:
  assumes "kv_wf (cx_crc cx) kv"
  shows "body_ok cx kv (Some (handleDelete (cx_crc cx) kv args))"
proof -
  have "body_ok cx kv (Some (case deleteLoop (cx_crc cx) args kv [] of (kv', out) \<Rightarrow> (kv', out @ [WriteOK])))"
    using deleteLoop_safe [OF assms, of args "[]"] by (auto simp: body_ok_def kv_safe_def split: prod.split)
  moreover have "body_ok cx kv (Some (case Delete (cx_crc cx) kv k of (kv', n) \<Rightarrow>
      if n \<noteq> 1 then (kv', [deleteError]) else (kv', [WriteOK])))" for k
    using Delete_safe [OF assms, of k] by (auto simp: body_ok_def kv_safe_def split: prod.split)
  ultimately show ?thesis using assms by (auto simp: handleDelete_def split: list.split)
qed

lemma FlushAll_safe: "kv_wf (cx_crc cx) kv \<Longrightarrow> body_ok cx kv (Some (FlushAll kv, [WriteOK]))"
  using kv_result_safe [OF FlushAll_result] by (fastforce simp: body_ok_def kv_safe_def)

text \<open>\<^verbatim>\<open>MIGRATE\<close> asks for exactly six arguments and then looks for keys behind the sixth: there are none.\<close>

lemma handleMigrate_inert: "fst (handleMigrate cx kv args) = kv" "\<exists>r. snd (handleMigrate cx kv args) = [r]"
  by (auto simp: handleMigrate_def)

lemma handleMigrate_safe: "kv_wf (cx_crc cx) kv \<Longrightarrow> body_ok cx kv (Some (handleMigrate cx kv args))"
  using handleMigrate_inert [of cx kv args] by (cases "handleMigrate cx kv args") auto

lemma handleRestoreAsking_cases:
  assumes "kv_wf (cx_crc cx) kv"
  shows "if length args = 3 then handleRestoreAsking cx kv args = None else body_ok cx kv (handleRestoreAsking cx kv args)"
  using assms by (auto simp: handleRestoreAsking_def argAt_def)

lemma SetSlot_safe:
  assumes "bus_wf s"
  shows "\<exists>s' e. ClusterSetSlot ul args s = Some (s', e) \<and> bus_wf s'"
proof -
  have wf: "cs_wf s" using assms by (simp add: bus_wf_def)
  have bus: "bus_wf s'" if "cs_wf s'" "links s' = links s" "nextRef s' = nextRef s" for s'
    using assms that by (simp add: bus_wf_def)
  have stable: "bus_wf (SetSlotStable slot s)" for slot
    by (rule bus) (use wf in \<open>auto simp: SetSlotStable_def cs_wf_def\<close>)
  have mark: "bus_wf (s\<lparr>Importing := m\<rparr>)" "bus_wf (s\<lparr>Migrating := m\<rparr>)" if "m \<noteq> NilMap" for m
    by (rule bus; use wf that in \<open>auto simp: cs_wf_def\<close>)+
  show ?thesis
  proof (cases "length args = 3 \<longrightarrow> ToLower ul (args ! 1) \<noteq> ''node''")
    case True
    then show ?thesis
    proof (cases rule: SetSlot_cases [where s = s])
      case (importing slot name p)
      then show ?thesis using assign_total [OF cs_wfD(5) [OF wf], of slot p] mark(1) by (auto simp: ImportingSlotsFrom_def)
    next
      case (migrating slot name p)
      then show ?thesis using assign_total [OF cs_wfD(6) [OF wf], of slot p] mark(2) by (auto simp: MigratingSlotsTo_def)
    qed (use assms stable in auto)
  next
    case False
    then obtain a0 a1 nodeID where args: "args = [a0, a1, nodeID]" "ToLower ul a1 = ''node''"
      by (auto simp: length_Suc_conv numeral_3_eq_3)
    show ?thesis
    proof (cases "setSlotChecks ul args = None \<and> lookup (Nodes s) nodeID \<noteq> None")
      case True
      then obtain slot p where slot: "Atoi a0 = Inr slot" "0 \<le> slot" "slot \<le> 16383" "lookup (Nodes s) nodeID = Some p"
        by (auto simp: setSlotChecks_def args split: sum.splits if_splits)
      obtain r where p: "p = Some r" using cs_wfD(7) [OF wf slot(4)] by blast
      have "nat slot < 16384" using slot(2,3) by simp
      then obtain n' where n': "setSlotNode (nat slot) (Some r) s = Some (finishSlot (nat slot) r n' s)" "cs_wf (finishSlot (nat slot) r n' s)"
        using setSlotNode_spec [OF wf] by blast
      have "bus_wf (finishSlot (nat slot) r n' s)"
        by (rule bus [OF n'(2)]) (simp_all add: finishSlot_def updNode_def)
      moreover have "ClusterSetSlot ul args s = Some (finishSlot (nat slot) r n' s, None)"
        using slot p n'(1) args by (simp add: ClusterSetSlot_def GetNode_def comma_ok_def)
      ultimately show ?thesis by blast
    next
      case no: False
      then have "\<exists>e. ClusterSetSlot ul args s = Some (s, Some e)"
      proof (cases "setSlotChecks ul args")
        case None
        with no show ?thesis
          by (auto simp: setSlotChecks_def args ClusterSetSlot_def GetNode_def comma_ok_def split: sum.splits if_splits)
      qed (use setSlotChecks_refuse in blast)
      then show ?thesis using assms by blast
    qed
  qed
qed

section \<open>\<^verbatim>\<open>CLUSTER\<close>\<close>

lemma slotsArray_ok: "snd (WriteArray ff r2 (clusterSlots cx s))"
proof -
  have "snd (WriteElems ff r2 (map (\<lambda>(start, end, owner). let node = Snapshot (store s owner)
        in GArray [GInt (int start), GInt (int end),
                   GArray [GString (snapHost node), GInt (snapClientPort node), GString (snapName node)]]) rs))" for rs
    by (induction rs) (auto simp: Let_def split: prod.split)
  from this [of "slotRuns cx s 0"] show ?thesis by (simp add: WriteArray_def clusterSlots_def case_prod_unfold)
qed

lemma snapshotLoop_total:
  assumes "\<forall>(name, p) \<in> set ps. p \<noteq> None" "m \<noteq> NilMap"
  shows "\<exists>m'. snapshotLoop s ps m = Some (Inr m')"
  using assms
proof (induction ps arbitrary: m)
  case (Cons a ps)
  obtain name r where a: "a = (name, Some r)" using Cons.prems(1) by (cases a) auto
  show ?case using Cons.IH Cons.prems assign_total [OF Cons.prems(2), of name "Snapshot (store s r)"] unfolding a by auto
qed simp

lemma handshake_safe:
  assumes "bus_wf s" "env_ok (rtEnv rt)"
  shows "\<exists>s' e. ClusterStartHandshake dial rt h p s = Some (s', e) \<and> bus_wf s' \<and> Self s' = Self s \<and> (\<forall>r < nextRef s. store s' r = store s r)"
proof -
  let ?n = "NewNode (rtUuid rt) p h (CLUSTER_HANDSHAKE_NODE OR CLUSTER_MEET_NODE) True"
  have wf: "cs_wf s" using assms(1) by (simp add: bus_wf_def)
  obtain s1 r where a: "allocNode ?n s = (s1, r)" by force
  note a' = allocNode_wf [OF wf NewNode_wf(1) a]
  obtain s2 where s2: "SetNode (Some r) s1 = Some s2" "cs_wf s2" "nextRef s2 = nextRef s + 1" "links s2 = links s"
    using SetNode_wf [OF a'(1), of r] a'(2,4,7) by auto
  then have bus2: "bus_wf s2" using assms(1) by (auto simp: bus_wf_def intro: less_SucI)
  have k2: "Self s2 = Self s" "store s2 = (store s)(r := ?n)" "r = nextRef s"
    using a s2(1) by (auto simp: allocNode_def SetNode_def bind_eq_Some_conv)
  show ?thesis
  proof (cases "dial (JoinHostPort h (Itoa (wrap64 (p + CLUSTER_BUS_PORT_INCR))))")
    case (Inl e)
    then show ?thesis using a s2(1) bus2 k2 by (simp add: ClusterStartHandshake_def)
  next
    case (Inr peer)
    obtain s3 l where c: "CreateClusterLink (Some peer) (Some r) False s2 = (s3, l)" by force
    have s3: "bus_wf s3" "\<not> lInbound (links s3 l)"
      using CreateClusterLink_bus [OF bus2 _ c] s2(3) a'(2) by auto
    have k3: "Self s3 = Self s" "\<forall>r' < nextRef s. store s3 r' = store s r'"
      using c k2 by (auto simp: CreateClusterLink_def Let_def updNode_def)
    obtain s4 where "clusterSendPing (rtEnv rt) (rtNow rt) l CLUSTERMSG_TYPE_PING s3 = Some s4" "bus_wf s4"
      "store s4 = store s3" "Self s4 = Self s3"
      using ping_safe [OF s3(1) assms(2) s3(2)] by blast
    then show ?thesis using a s2(1) c Inr k3 by (simp add: ClusterStartHandshake_def)
  qed
qed

text \<open>What every subcommand keeps.\<close>

definition cluster_ok :: "clusterStep \<Rightarrow> bool" where
  "cluster_ok out \<longleftrightarrow> (\<exists>s rs. out = Some (Some s, rs, True) \<and> bus_wf s \<and> rs \<noteq> [])"

lemma refuse_ok [intro!]: "bus_wf s \<Longrightarrow> cluster_ok (refuse (Some s) e)"
  by (simp add: cluster_ok_def refuse_def)

lemma reply_ok [intro!]: "bus_wf s \<Longrightarrow> cluster_ok (Some (Some s, [r], True))"
  by (simp add: cluster_ok_def)

lemma addSlotsRange_spec:
  assumes "bus_wf s" "b < 16384"
  shows "\<exists>s'. addSlotsRange a b s = Some s' \<and> bus_wf s' \<and> self_ref s' = self_ref s
     \<and> slots_of (store s' (self_ref s)) = slots_of (store s (self_ref s)) \<union> {a..b}
     \<and> (\<forall>r. r \<noteq> self_ref s \<longrightarrow> store s' r = store s r)
     \<and> (\<forall>i. Slots s' i = (if a \<le> i \<and> i \<le> b then Self s else Slots s i))"
proof -
  have wf: "cs_wf s" using assms(1) by (simp add: bus_wf_def)
  note self = cs_wfD(1) [OF wf]
  let ?r = "self_ref s"
  obtain n where n: "AddSlotRange a b (store s ?r) = Some n" "node_wf n" "slots_of n = slots_of (store s ?r) \<union> {a..b}"
    "Name n = Name (store s ?r)"
    using AddSlotRange_spec [OF cs_wfD(8) [OF wf cs_wfD(2) [OF wf]] assms(2)] by blast
  let ?s1 = "s\<lparr>Slots := (\<lambda>i. if a \<le> i \<and> i \<le> b then Some ?r else Slots s i)\<rparr>"
  have "cs_wf ?s1" using wf by (simp add: cs_wf_def)
  then have "cs_wf (updNode ?r (\<lambda>_. n) ?s1)" by (rule cs_wf_updNode) (simp_all add: n)
  then have "bus_wf (updNode ?r (\<lambda>_. n) ?s1)" using assms(1) by (simp add: bus_wf_def updNode_def)
  moreover have "addSlotsRange a b s = Some (updNode ?r (\<lambda>_. n) ?s1)" using self n(1) by (simp add: addSlotsRange_def)
  moreover have "self_ref (updNode ?r (\<lambda>_. n) ?s1) = ?r" by (simp add: updNode_def self_ref_def)
  ultimately show ?thesis
    by (intro exI [of _ "updNode ?r (\<lambda>_. n) ?s1"]) (simp add: n(3) updNode_def self [symmetric])
qed

lemma clusterNodesCmd_ok:
  assumes "bus_wf s" "is_iteration (cx_nodes cx)"
  shows "cluster_ok (clusterNodesCmd cx (Some s))"
proof -
  have wf: "cs_wf s" using assms(1) by (simp add: bus_wf_def)
  have "\<forall>k \<in> set (cx_nodes cx (Nodes s)). fst (comma_ok (Nodes s) k None) \<noteq> None"
    using iteration_facts(2) [OF assms(2) cs_wfD(4) [OF wf]] cs_wfD(7) [OF wf] by (force simp: comma_ok_def)
  then have "\<forall>(k, p) \<in> set (map (\<lambda>k. (k, fst (comma_ok (Nodes s) k None))) (cx_nodes cx (Nodes s))). p \<noteq> None" by auto
  from snapshotLoop_total [OF this, of "GoMap []" s] assms(1) show ?thesis
    by (auto simp: clusterNodesCmd_def split: sum.split)
qed

lemma clusterAddSlotsRangeCmd_ok:
  assumes "bus_wf s"
  shows "cluster_ok (clusterAddSlotsRangeCmd cx (Some s) rest)"
proof -
  have "cluster_ok (do { s' \<leftarrow> addSlotsRange (nat a) (nat b) s; Some (Some s', [WriteOK], True) })" if "b < int CLUSTER_SLOTS" for a b
  proof -
    have "nat b < 16384" using that by (simp add: CLUSTER_SLOTS_def)
    from addSlotsRange_spec [OF assms this, of "nat a"] show ?thesis by auto
  qed
  then show ?thesis using assms by (auto simp: clusterAddSlotsRangeCmd_def split: list.split sum.split)
qed

lemma clusterMeetCmd_ok:
  assumes "bus_wf s" "env_ok (rtEnv (cx_rt cx))"
  shows "cluster_ok (clusterMeetCmd cx (Some s) rest)"
proof -
  have "cluster_ok (do { (s', err) \<leftarrow> ClusterStartHandshake (cx_dial cx) (cx_rt cx) h p s;
      case err of None \<Rightarrow> Some (Some s', [WriteOK], True) | Some e \<Rightarrow> refuse (Some s') (''ERR cluster meet: '' @ e) })" for h p
    using handshake_safe [OF assms, of "cx_dial cx" h p] by (auto split: option.split)
  then show ?thesis using assms(1) by (auto simp: clusterMeetCmd_def split: list.split sum.split)
qed

lemma handleCluster_safe:
  assumes "bus_wf s" "ctx_ok cx"
  shows "cluster_ok (handleCluster cx cluster (Some s) args)"
proof -
  note self = cs_wfD(1) [of s]
  have "cluster_ok (do { n \<leftarrow> deref s (Self s);
      Some (Some s, [WriteArrayString [snapHost (Snapshot n), Itoa (snapClientPort (Snapshot n))]], True) })"
    using assms(1) self by (auto simp: bus_wf_def cluster_ok_def deref_def)
  moreover have "cluster_ok (case WriteArray (cx_fmt cx) resp2compat (clusterSlots cx s) of (out, ok) \<Rightarrow> Some (Some s, [out], ok))"
    using assms(1) slotsArray_ok [of "cx_fmt cx" resp2compat cx s] by (auto split: prod.split)
  ultimately show ?thesis
    using clusterNodesCmd_ok [OF assms(1), of cx] clusterAddSlotsRangeCmd_ok [OF assms(1), of cx]
      clusterMeetCmd_ok [OF assms(1), of cx] assms
    by (simp add: handleCluster_def ctx_ok_def refuse_ok split: list.split)
qed

section \<open>Publish and subscribe\<close>

lemma subscribeLoop_safe:
  assumes "ps_inv ps" "subs_wf sb"
  shows "\<exists>ps' sb'. subscribeLoop cs ps sb out = Some (ps', sb', out @ replicate (length cs) WriteOK) \<and> ps_inv ps' \<and> subs_wf sb'"
  using assms
proof (induction cs arbitrary: ps sb out)
  case (Cons c cs)
  obtain ps1 where ps1: "Subscribe c ps = Some (ps1, nextChan ps)" "ps_inv ps1" using Subscribe_spec [OF Cons.prems(1)] by blast
  obtain sb1 where sb1: "assign sb c (fst (comma_ok sb c []) @ [nextChan ps]) = Some sb1" "gm_wf sb1" "sb1 \<noteq> NilMap"
    using gm.putE [of sb] Cons.prems(2) unfolding subs_wf_def by metis
  from Cons.IH [of ps1 sb1 "out @ [WriteOK]"] ps1 sb1 show ?case by (auto simp: subs_wf_def)
qed simp

text \<open>Dropping a list of subscribers takes each of them out of its channel and touches no other channel.\<close>

lemma dropSubscribers_spec:
  assumes "ps_inv ps"
  shows "\<exists>ps'. dropSubscribers c chs ps = Some ps' \<and> ps_inv ps' \<and> (\<forall>c'. c' \<noteq> c \<longrightarrow> subs_of ps' c' = subs_of ps c')
     \<and> set (subs_of ps' c) = set (subs_of ps c) - set chs"
  using assms
proof (induction chs arbitrary: ps)
  case (Cons ch chs)
  obtain ps1 where ps1: "Unsubscribe c ch ps = Some ps1" "ps_inv ps1" "subs_of ps1 = (subs_of ps)(c := remove1 ch (subs_of ps c))"
    using Unsubscribe_spec [OF Cons.prems] by blast
  then have "set (subs_of ps1 c) = set (subs_of ps c) - {ch}" using ps_invD(3) [OF Cons.prems] by simp
  with Cons.IH [OF ps1(2)] ps1 show ?case by auto
qed simp

lemma unsubscribeLoop_safe:
  assumes "ps_inv ps" "subs_wf sb"
  shows "\<exists>ps' sb'. unsubscribeLoop cs ps sb = Some (ps', sb') \<and> ps_inv ps' \<and> subs_wf sb'"
  using assms
proof (induction cs arbitrary: ps sb)
  case (Cons c cs)
  obtain ps1 where "dropSubscribers c (fst (comma_ok sb c [])) ps = Some ps1" "ps_inv ps1"
    using dropSubscribers_spec [OF Cons.prems(1)] by blast
  moreover have "subs_wf (remove sb c)" using Cons.prems(2) by (auto simp: subs_wf_def intro: wf_intros)
  ultimately show ?case using Cons.IH by auto
qed simp

lemma handlePublish_safe:
  assumes "ps_inv ps"
  shows "\<exists>ps' r. handlePublish ps args = Some (ps', [r]) \<and> ps_inv ps'"
proof (cases "\<exists>c m. args = [c, m]")
  case True
  then obtain c m where args: "args = [c, m]" by blast
  obtain ps' n where "Publish c m ps = Some (ps', n)" "ps_inv ps'" using Publish_spec [OF assms] by blast
  then show ?thesis by (simp add: handlePublish_def args)
next
  case False
  then have "\<exists>e. handlePublish ps args = Some (ps, [WriteError e])"
    by (auto simp: handlePublish_def split: list.split)
  then show ?thesis using assms by blast
qed

section \<open>Every command\<close>

text \<open>The two ways to stop the process with a command.\<close>

definition crashes :: "ctx \<Rightarrow> bool \<Rightarrow> string \<Rightarrow> string list \<Rightarrow> bool" where
  "crashes cx cluster cmd args \<longleftrightarrow> cmd = ''restore-asking'' \<and> length args = 3
     \<or> cmd = ''setslot'' \<and> \<not> cluster \<and> setSlotChecks (cx_lower cx) args = None"

definition step_ok :: "ctx \<Rightarrow> bool \<Rightarrow> step \<Rightarrow> bool" where
  "step_ok cx cluster out \<longleftrightarrow> (\<exists>sv sb rs. out = Some (sv, sb, rs, True) \<and> sv_inv cx cluster sv \<and> subs_wf sb \<and> rs \<noteq> [])"

lemma step_okI: "out = Some (sv, sb, rs, True) \<Longrightarrow> sv_inv cx cluster sv \<Longrightarrow> subs_wf sb \<Longrightarrow> rs \<noteq> [] \<Longrightarrow> step_ok cx cluster out"
  by (auto simp: step_ok_def)

lemma sv_invD:
  assumes "sv_inv cx cluster sv"
  shows "srv_ok cx (svCluster sv) cluster (svKV sv)" "ps_inv (svPS sv)" "svCluster sv = Some s \<Longrightarrow> bus_wf s"
    "kv_wf (cx_crc cx) (svKV sv)" "cluster \<Longrightarrow> svCluster sv = None \<Longrightarrow> False" "\<not> cluster \<Longrightarrow> svCluster sv = None"
  using assms by (auto simp: sv_inv_def srv_ok_def)

lemma sv_inv_kv: "sv_inv cx cluster sv \<Longrightarrow> srv_ok cx (svCluster sv) cluster kv \<Longrightarrow> sv_inv cx cluster (sv\<lparr>svKV := kv\<rparr>)"
  by (simp add: sv_inv_def)

lemma sv_inv_ps: "sv_inv cx cluster sv \<Longrightarrow> ps_inv ps \<Longrightarrow> sv_inv cx cluster (sv\<lparr>svPS := ps\<rparr>)"
  by (simp add: sv_inv_def)

lemma sv_inv_cluster: "sv_inv cx True sv \<Longrightarrow> bus_wf s \<Longrightarrow> sv_inv cx True (sv\<lparr>svCluster := Some s\<rparr>)"
  by (auto simp: sv_inv_def srv_ok_def bus_wf_def)

lemma sv_inv_standalone: "sv_inv cx False sv \<Longrightarrow> sv_inv cx False (sv\<lparr>svCluster := None\<rparr>)"
  by (auto simp: sv_inv_def)

lemma kvStep_out:
  assumes "sv_inv cx cluster sv" "subs_wf sb" "out_ok cx (svCluster sv) cluster out"
  shows "step_ok cx cluster (kvStep sv sb out)"
  using assms sv_inv_kv [OF assms(1)] by (auto simp: out_ok_def kvStep_def step_ok_def)

lemma kvStep_body:
  assumes "sv_inv cx cluster sv" "subs_wf sb" "body_ok cx (svKV sv) out"
  shows "step_ok cx cluster (kvStep sv sb out)"
  by (rule kvStep_out [OF assms(1,2)]) (use assms sv_invD(1) [OF assms(1)] in \<open>auto simp: body_ok_def out_ok_def srv_ok_def\<close>)

lemma ping_cmd_ok:
  assumes "sv_inv cx cluster sv" "subs_wf sb"
  shows "step_ok cx cluster (do { rs \<leftarrow> handlePing (svCluster sv) cluster; Some (sv, sb, rs, True) })"
proof -
  have "\<exists>rs. handlePing (svCluster sv) cluster = Some rs \<and> rs \<noteq> []"
    using assms(1) by (auto simp: handlePing_def sv_inv_def srv_ok_def deref_def Let_def dest!: cs_wfD(1))
  then show ?thesis using assms by (auto simp: step_ok_def)
qed

lemma setslot_cmd_ok:
  assumes "sv_inv cx cluster sv" "subs_wf sb" "cluster \<or> setSlotChecks (cx_lower cx) args \<noteq> None"
  shows "step_ok cx cluster
     (do { (cs, rs) \<leftarrow> handleSetSlot cx (svCluster sv) args; Some (sv\<lparr>svCluster := cs\<rparr>, sb, rs, True) })"
proof (cases "svCluster sv")
  case None
  then have nc: "\<not> cluster" using sv_invD(5) [OF assms(1)] by blast
  then obtain e where "setSlotChecks (cx_lower cx) args = Some e" using assms(3) by auto
  then show ?thesis using None assms nc sv_inv_standalone [of cx sv] by (auto simp: handleSetSlot_def step_ok_def)
next
  case (Some s)
  then have c: "cluster" using sv_invD(6) [OF assms(1)] by fastforce
  obtain s' e where "ClusterSetSlot (cx_lower cx) args s = Some (s', e)" "bus_wf s'"
    using SetSlot_safe [OF sv_invD(3) [OF assms(1) Some]] by blast
  then show ?thesis using Some assms c sv_inv_cluster [of cx sv s'] by (auto simp: handleSetSlot_def step_ok_def split: option.split)
qed

lemma cluster_cmd_ok:
  assumes "sv_inv cx cluster sv" "subs_wf sb" "ctx_ok cx"
  shows "step_ok cx cluster
     (do { (cs, rs, go) \<leftarrow> handleCluster cx cluster (svCluster sv) args; Some (sv\<lparr>svCluster := cs\<rparr>, sb, rs, go) })"
proof (cases "svCluster sv")
  case None
  then have nc: "\<not> cluster" using sv_invD(5) [OF assms(1)] by blast
  then show ?thesis using None assms sv_inv_standalone [of cx sv] by (auto simp: handleCluster_def refuse_def step_ok_def)
next
  case (Some s)
  then have c: "cluster" using sv_invD(6) [OF assms(1)] by fastforce
  show ?thesis
    using Some assms c handleCluster_safe [OF sv_invD(3) [OF assms(1) Some] assms(3), of cluster args] sv_inv_cluster [of cx sv]
    by (auto simp: cluster_ok_def step_ok_def)
qed

lemma pubsub_cmds_ok:
  assumes "sv_inv cx cluster sv" "subs_wf sb"
  shows "step_ok cx cluster (do { (ps, rs) \<leftarrow> handlePublish (svPS sv) args; Some (sv\<lparr>svPS := ps\<rparr>, sb, rs, True) })"
    "step_ok cx cluster (do { (ps, sb', rs) \<leftarrow> handleSubscribe (svPS sv) sb args; Some (sv\<lparr>svPS := ps\<rparr>, sb', rs, True) })"
    "step_ok cx cluster (do { (ps, sb', rs) \<leftarrow> handleUnsubscribe cx (svPS sv) sb args; Some (sv\<lparr>svPS := ps\<rparr>, sb', rs, True) })"
proof -
  note ps = sv_invD(2) [OF assms(1)] and keep = sv_inv_ps [OF assms(1)]
  show "step_ok cx cluster (do { (ps, rs) \<leftarrow> handlePublish (svPS sv) args; Some (sv\<lparr>svPS := ps\<rparr>, sb, rs, True) })"
    using handlePublish_safe [OF ps, of args] keep assms(2) by (auto simp: step_ok_def)
  show "step_ok cx cluster (do { (ps, sb', rs) \<leftarrow> handleSubscribe (svPS sv) sb args; Some (sv\<lparr>svPS := ps\<rparr>, sb', rs, True) })"
    using subscribeLoop_safe [OF ps assms(2), of args "[]"] keep assms by (auto simp: handleSubscribe_def step_ok_def)
  show "step_ok cx cluster (do { (ps, sb', rs) \<leftarrow> handleUnsubscribe cx (svPS sv) sb args; Some (sv\<lparr>svPS := ps\<rparr>, sb', rs, True) })"
    using unsubscribeLoop_safe [OF ps assms(2), of "if args = [] then cx_chans cx sb else args"] keep
    by (auto simp: handleUnsubscribe_def step_ok_def)
qed

lemma step_if: "(b \<Longrightarrow> step_ok cx c x) \<Longrightarrow> (\<not> b \<Longrightarrow> step_ok cx c y) \<Longrightarrow> step_ok cx c (if b then x else y)"
  by simp

lemma dispatch_ok:
  assumes inv: "sv_inv cx cluster sv" and sb: "subs_wf sb" and cx: "ctx_ok cx" and ok: "\<not> crashes cx cluster cmd args"
  shows "step_ok cx cluster (dispatch cx cluster sv sb cmd args)"
proof (cases "map_of keyedCommands cmd")
  case (Some h)
  then show ?thesis
    using kvStep_out [OF inv sb keyed_total [OF keyed_commands [OF Some] sv_invD(1) [OF inv]]] by (simp add: dispatch_def)
next
  case None
  note wf = sv_invD(4) [OF inv] and kv = kvStep_body [OF inv sb]
  have echo: "step_ok cx cluster (Some (sv, sb, handleEcho args, True))"
    using inv sb by (auto simp: step_ok_def handleEcho_def split: list.split)
  have keys: "step_ok cx cluster (Some (sv, sb, handleGetKeysInSlot cx (svKV sv) args, True))"
    using inv sb by (auto simp: step_ok_def handleGetKeysInSlot_def split: list.split sum.split)
  have unknown: "step_ok cx cluster (Some (sv, sb, [r], True))" for r
    using inv sb by (simp add: step_ok_def)
  have restore: "cmd = ''restore-asking'' \<Longrightarrow> step_ok cx cluster (kvStep sv sb (handleRestoreAsking cx (svKV sv) args))"
    using kv handleRestoreAsking_cases [OF wf, of args] ok by (auto simp: crashes_def split: if_splits)
  have setslot: "cmd = ''setslot'' \<Longrightarrow> cluster \<or> setSlotChecks (cx_lower cx) args \<noteq> None"
    using ok by (auto simp: crashes_def)
  show ?thesis
    unfolding dispatch_def None option.case
    apply (rule step_if, rule kv [OF FlushAll_safe [OF wf]])
    apply (rule step_if, rule ping_cmd_ok [OF inv sb])
    apply (rule step_if, rule echo)
    apply (rule step_if, rule pubsub_cmds_ok(1) [OF inv sb])
    apply (rule step_if, rule pubsub_cmds_ok(2) [OF inv sb])
    apply (rule step_if, rule pubsub_cmds_ok(3) [OF inv sb])
    apply (rule step_if, rule kv [OF handleDelete_safe [OF wf]])
    apply (rule step_if, rule keys)
    apply (rule step_if, erule restore)
    apply (rule step_if, rule setslot_cmd_ok [OF inv sb setslot], assumption)
    apply (rule step_if, rule kv [OF handleMigrate_safe [OF wf]])
    apply (rule step_if, rule cluster_cmd_ok [OF inv sb cx])
    by (rule unknown)
qed

lemma dispatch_crash:
  assumes "sv_inv cx cluster sv" "crashes cx cluster cmd args"
  shows "dispatch cx cluster sv sb cmd args = None"
proof -
  have k: "map_of keyedCommands ''restore-asking'' = None" "map_of keyedCommands ''setslot'' = None"
    by (simp_all add: keyedCommands_def)
  from assms(2) [unfolded crashes_def] show ?thesis
  proof (elim disjE conjE)
    assume cmd: "cmd = ''restore-asking''" and "length args = 3"
    then have "handleRestoreAsking cx (svKV sv) args = None" by (simp add: handleRestoreAsking_def argAt_def)
    then show ?thesis by (simp add: dispatch_def cmd k(1) kvStep_def)
  next
    assume cmd: "cmd = ''setslot''" and "\<not> cluster" "setSlotChecks (cx_lower cx) args = None"
    then have "handleSetSlot cx (svCluster sv) args = None" using sv_invD(6) [OF assms(1)] by (simp add: handleSetSlot_def)
    then show ?thesis by (simp add: dispatch_def cmd k(2))
  qed
qed

end
