(* ===== verification/Server_Session.thy ===== *)
theory Server_Session
  imports Server_Dispatch
begin

text \<open>
  What a client sees: sequences of commands, whole connections, and the commands together with the store, the router and
  the reader. \<open>runAll\<close> runs a list of commands one after the other; \<open>commandsOf\<close> is the list of the commands a connection
  reads. The theorems say which commands stop the process, that no other does and that the invariants of all the
  components survive every connection, that a redirected command touches nothing, and that the channels of a
  connection are gone when it ends.
\<close>

section \<open>Sequences of commands\<close>

fun runAll :: "ctx \<Rightarrow> bool \<Rightarrow> string list list \<Rightarrow> server \<Rightarrow> subs \<Rightarrow> (server \<times> subs \<times> reply list) option" where
  "runAll cx cluster [] sv sb = Some (sv, sb, [])"
| "runAll cx cluster (w # ws) sv sb =
     (case runCommand cx cluster w sv sb of
        None \<Rightarrow> None
      | Some (sv', sb', rs, go) \<Rightarrow>
          if go then map_option (\<lambda>(sv'', sb'', rs'). (sv'', sb'', rs @ rs')) (runAll cx cluster ws sv' sb')
          else Some (sv', sb', rs))"

text \<open>The commands a connection reads, and the error that ends it.\<close>

function commandsOf :: "respServer \<Rightarrow> string list list \<times> rdError" where
  "commandsOf rc =
     (case Next rc of
        (_, Inl e) \<Rightarrow> ([], e)
      | (rc', Inr w) \<Rightarrow> let (ws, e) = commandsOf rc' in (w # ws, e))"
  by pat_completeness auto
termination by (relation "measure (\<lambda>rc. length (rd rc))") (auto dest: Next_facts(2) [OF sym])

declare commandsOf.simps [simp del]

lemma commandsOf_not_Nil: "w \<in> set (fst (commandsOf rc)) \<Longrightarrow> w \<noteq> []"
proof (induction rc rule: commandsOf.induct)
  case (1 rc)
  show ?case
    using 1 by (subst (asm) (2) commandsOf.simps) (auto split: prod.splits sum.splits dest: Next_facts(1))
qed

definition safeCommand :: "ctx \<Rightarrow> bool \<Rightarrow> string list \<Rightarrow> bool" where
  "safeCommand cx cluster w \<longleftrightarrow> (case w of [] \<Rightarrow> False | c # args \<Rightarrow> \<not> crashes cx cluster (BytesToLower c) args)"

lemma runCommand_ok:
  assumes "sv_inv cx cluster sv" "subs_wf sb" "ctx_ok cx" "safeCommand cx cluster w"
  shows "step_ok cx cluster (runCommand cx cluster w sv sb)"
  using assms dispatch_ok by (auto simp: runCommand_def safeCommand_def split: list.splits)

lemma runAll_ok:
  assumes "sv_inv cx cluster sv" "subs_wf sb" "ctx_ok cx" "\<forall>w \<in> set ws. safeCommand cx cluster w"
  shows "\<exists>sv' sb' rs. runAll cx cluster ws sv sb = Some (sv', sb', rs) \<and> sv_inv cx cluster sv' \<and> subs_wf sb' \<and> length ws \<le> length rs"
  using assms
proof (induction ws arbitrary: sv sb)
  case (Cons w ws)
  obtain sv1 sb1 rs where r: "runCommand cx cluster w sv sb = Some (sv1, sb1, rs, True)" "sv_inv cx cluster sv1" "subs_wf sb1" "rs \<noteq> []"
    using runCommand_ok [OF Cons.prems(1,2,3), of w] Cons.prems(4) by (auto simp: step_ok_def)
  then have "1 \<le> length rs" by (cases rs) auto
  with Cons.IH [OF r(2,3) Cons.prems(3)] Cons.prems(4) r show ?case by fastforce
qed simp

text \<open>The connection loop is reading, then running; it would stop early only where a command closes the connection.\<close>

lemma connLoop_runAll:
  assumes "sv_inv cx cluster sv" "subs_wf sb" "ctx_ok cx" "\<forall>w \<in> set (fst (commandsOf rc)). safeCommand cx cluster w"
  shows "connLoop cx cluster rc sv sb =
     map_option (\<lambda>(sv', sb', rs). (sv', sb', rs @ [WriteError (rdError_text (snd (commandsOf rc)))]))
       (runAll cx cluster (fst (commandsOf rc)) sv sb)"
  using assms
proof (induction rc arbitrary: sv sb rule: commandsOf.induct)
  case (1 rc)
  show ?case
  proof (cases "Next rc")
    case (Pair rc' x)
    show ?thesis
    proof (cases x)
      case (Inl e)
      then show ?thesis using Pair by (simp add: connLoop.simps [of cx cluster rc] commandsOf.simps [of rc])
    next
      case (Inr w)
      have c: "commandsOf rc = (w # fst (commandsOf rc'), snd (commandsOf rc'))"
        using Pair Inr by (simp add: commandsOf.simps [of rc] case_prod_unfold Let_def)
      have safe: "safeCommand cx cluster w" "\<forall>w \<in> set (fst (commandsOf rc')). safeCommand cx cluster w"
        using "1.prems"(4) by (simp_all add: c)
      obtain sv1 sb1 rs where r: "runCommand cx cluster w sv sb = Some (sv1, sb1, rs, True)" "sv_inv cx cluster sv1" "subs_wf sb1"
        using runCommand_ok [OF "1.prems"(1,2,3) safe(1)] by (auto simp: step_ok_def)
      have IH: "connLoop cx cluster rc' sv1 sb1 =
          map_option (\<lambda>(sv', sb', rs). (sv', sb', rs @ [WriteError (rdError_text (snd (commandsOf rc')))]))
            (runAll cx cluster (fst (commandsOf rc')) sv1 sb1)"
        using "1.IH" [OF Pair [symmetric] Inr r(2,3) "1.prems"(3) safe(2)] .
      show ?thesis
        by (subst connLoop.simps) (simp add: Pair Inr r(1) c IH option.map_comp comp_def case_prod_unfold)
    qed
  qed
qed
section \<open>The channels of a connection\<close>

definition sbOf :: "subs \<Rightarrow> string \<Rightarrow> nat list" where
  "sbOf sb c = fst (comma_ok sb c [])"

text \<open>Every registered channel was there before the connection, or the connection has it in its list.\<close>

definition covered :: "PubSub \<Rightarrow> PubSub \<Rightarrow> subs \<Rightarrow> bool" where
  "covered ps0 ps sb \<longleftrightarrow> (\<forall>c. set (subs_of ps c) \<subseteq> set (subs_of ps0 c) \<union> set (sbOf sb c))"

lemma sbOf_assign: "assign sb c v = Some sb' \<Longrightarrow> sbOf sb' = (sbOf sb)(c := v)"
  by (auto simp: sbOf_def comma_ok_def fun_eq_iff lookup_assign)

lemma sbOf_remove: "sbOf (remove sb c) = (sbOf sb)(c := [])"
  by (auto simp: sbOf_def comma_ok_def fun_eq_iff)

lemma subscribeLoop_covered:
  assumes "ps_inv ps" "subs_wf sb" "covered ps0 ps sb" "subscribeLoop cs ps sb out = Some (ps', sb', out')"
  shows "covered ps0 ps' sb'"
  using assms
proof (induction cs arbitrary: ps sb out)
  case (Cons c cs)
  obtain ps1 where ps1: "Subscribe c ps = Some (ps1, nextChan ps)" "ps_inv ps1"
    "subs_of ps1 = (subs_of ps)(c := subs_of ps c @ [nextChan ps])"
    using Subscribe_spec [OF Cons.prems(1)] by blast
  obtain sb1 where sb1: "assign sb c (sbOf sb c @ [nextChan ps]) = Some sb1" "gm_wf sb1" "sb1 \<noteq> NilMap"
    using gm.putE [of sb] Cons.prems(2) unfolding subs_wf_def by metis
  have "covered ps0 ps1 sb1"
    using Cons.prems(3) by (auto simp: covered_def ps1(3) sbOf_assign [OF sb1(1)])
  moreover have "subscribeLoop cs ps1 sb1 (out @ [WriteOK]) = Some (ps', sb', out')"
    using Cons.prems(4) ps1(1) sb1(1) by (simp add: sbOf_def)
  ultimately show ?case using Cons.IH ps1(2) sb1 by (auto simp: subs_wf_def)
qed simp

lemma unsubscribeLoop_covered:
  assumes "ps_inv ps" "covered ps0 ps sb" "unsubscribeLoop cs ps sb = Some (ps', sb')"
  shows "covered ps0 ps' sb'"
  using assms
proof (induction cs arbitrary: ps sb)
  case (Cons c cs)
  obtain ps1 where ps1: "dropSubscribers c (sbOf sb c) ps = Some ps1" "ps_inv ps1"
    "\<forall>c'. c' \<noteq> c \<longrightarrow> subs_of ps1 c' = subs_of ps c'" "set (subs_of ps1 c) = set (subs_of ps c) - set (sbOf sb c)"
    using dropSubscribers_spec [OF Cons.prems(1)] by blast
  have "covered ps0 ps1 (remove sb c)"
    unfolding covered_def sbOf_remove
  proof
    fix c'
    show "set (subs_of ps1 c') \<subseteq> set (subs_of ps0 c') \<union> set (((sbOf sb)(c := [])) c')"
      using Cons.prems(2) ps1(3,4) by (cases "c' = c") (auto simp: covered_def)
  qed
  moreover have "unsubscribeLoop cs ps1 (remove sb c) = Some (ps', sb')"
    using Cons.prems(3) ps1(1) by (simp add: sbOf_def)
  ultimately show ?case using Cons.IH ps1(2) by blast
qed simp

lemma closeSubscriptions_spec:
  assumes "ps_inv ps"
  shows "\<exists>ps'. closeSubscriptions cs sb ps = Some ps' \<and> ps_inv ps'
     \<and> (\<forall>c. set (subs_of ps' c) = set (subs_of ps c) - (if c \<in> set cs then set (sbOf sb c) else {}))"
  using assms
proof (induction cs arbitrary: ps)
  case (Cons c cs)
  obtain ps1 where ps1: "dropSubscribers c (sbOf sb c) ps = Some ps1" "ps_inv ps1"
    "\<forall>c'. c' \<noteq> c \<longrightarrow> subs_of ps1 c' = subs_of ps c'" "set (subs_of ps1 c) = set (subs_of ps c) - set (sbOf sb c)"
    using dropSubscribers_spec [OF Cons.prems] by blast
  then have "set (subs_of ps1 c') = set (subs_of ps c') - (if c' = c then set (sbOf sb c) else {})" for c' by auto
  with Cons.IH [OF ps1(2)] ps1(1) show ?case by (fastforce simp: sbOf_def)
qed simp

text \<open>A command that is not about the hub leaves the hub and the channels of the connection alone.\<close>

definition hub_kept :: "server \<Rightarrow> subs \<Rightarrow> step \<Rightarrow> bool" where
  "hub_kept sv sb out \<longleftrightarrow> (\<forall>sv' sb' rs go. out = Some (sv', sb', rs, go) \<longrightarrow> svPS sv' = svPS sv \<and> sb' = sb)"

lemma hub_kept_kv: "hub_kept sv sb (kvStep sv sb out)"
  by (auto simp: hub_kept_def kvStep_def bind_eq_Some_conv)

lemma hub_kept_same: "hub_kept sv sb (Some (sv, sb, rs, go))" "hub_kept sv sb (do { rs \<leftarrow> x; Some (sv, sb, f rs, True) })"
  by (auto simp: hub_kept_def bind_eq_Some_conv)

lemma hub_kept_cluster:
  "hub_kept sv sb (do { (cs, rs) \<leftarrow> y; Some (sv\<lparr>svCluster := cs\<rparr>, sb, rs, True) })"
  "hub_kept sv sb (do { (cs, rs, go) \<leftarrow> z; Some (sv\<lparr>svCluster := cs\<rparr>, sb, rs, go) })"
  by (auto simp: hub_kept_def bind_eq_Some_conv)

lemma hub_kept_if: "(b \<Longrightarrow> hub_kept sv sb x) \<Longrightarrow> (\<not> b \<Longrightarrow> hub_kept sv sb y) \<Longrightarrow> hub_kept sv sb (if b then x else y)"
  by simp

lemma dispatch_hub:
  assumes "cmd \<notin> {''publish'', ''subscribe'', ''unsubscribe''}"
  shows "hub_kept sv sb (dispatch cx cluster sv sb cmd args)"
proof (cases "map_of keyedCommands cmd")
  case (Some h)
  then show ?thesis by (simp add: dispatch_def hub_kept_kv)
next
  case None
  have n: "cmd \<noteq> ''publish''" "cmd \<noteq> ''subscribe''" "cmd \<noteq> ''unsubscribe''"
    using assms by auto
  show ?thesis
    unfolding dispatch_def None option.case
    apply (rule hub_kept_if, rule hub_kept_kv)
    apply (rule hub_kept_if, rule hub_kept_same(2))
    apply (rule hub_kept_if, rule hub_kept_same(1))
    apply (rule hub_kept_if, rule notE [OF n(1)], assumption)
    apply (rule hub_kept_if, rule notE [OF n(2)], assumption)
    apply (rule hub_kept_if, rule notE [OF n(3)], assumption)
    apply (rule hub_kept_if, rule hub_kept_kv)
    apply (rule hub_kept_if, rule hub_kept_same(1))
    apply (rule hub_kept_if, rule hub_kept_kv)
    apply (rule hub_kept_if, rule hub_kept_cluster(1))
    apply (rule hub_kept_if, rule hub_kept_kv)
    apply (rule hub_kept_if, rule hub_kept_cluster(2))
    by (rule hub_kept_same(1))
qed

lemma dispatch_hub_cmds:
  "dispatch cx cluster sv sb ''publish'' args = do { (ps, rs) \<leftarrow> handlePublish (svPS sv) args; Some (sv\<lparr>svPS := ps\<rparr>, sb, rs, True) }"
  "dispatch cx cluster sv sb ''subscribe'' args =
     do { (ps, sb', rs) \<leftarrow> handleSubscribe (svPS sv) sb args; Some (sv\<lparr>svPS := ps\<rparr>, sb', rs, True) }"
  "dispatch cx cluster sv sb ''unsubscribe'' args =
     do { (ps, sb', rs) \<leftarrow> handleUnsubscribe cx (svPS sv) sb args; Some (sv\<lparr>svPS := ps\<rparr>, sb', rs, True) }"
  by (simp_all add: dispatch_def keyedCommands_def)

lemma Publish_subs: "ps_inv ps \<Longrightarrow> Publish c m ps = Some (ps', n) \<Longrightarrow> subs_of ps' = subs_of ps"
  using Publish_spec [of ps c m] by auto

lemma handlePublish_subs: "ps_inv ps \<Longrightarrow> handlePublish ps args = Some (ps', rs) \<Longrightarrow> subs_of ps' = subs_of ps"
  by (auto simp: handlePublish_def bind_eq_Some_conv Publish_subs split: list.splits)

lemma dispatch_covered:
  assumes inv: "sv_inv cx cluster sv" "subs_wf sb" and c: "covered ps0 (svPS sv) sb"
    and run: "dispatch cx cluster sv sb cmd args = Some (sv', sb', rs, go)"
  shows "covered ps0 (svPS sv') sb'"
proof (cases "cmd \<in> {''publish'', ''subscribe'', ''unsubscribe''}")
  case False
  then show ?thesis using dispatch_hub [OF False] run c unfolding hub_kept_def by metis
next
  case True
  note ps = sv_invD(2) [OF inv(1)]
  have "cmd = ''publish'' \<or> cmd = ''subscribe'' \<or> cmd = ''unsubscribe''" using True by simp
  then show ?thesis
  proof (elim disjE)
    assume "cmd = ''publish''"
    then have h: "handlePublish (svPS sv) args = Some (svPS sv', rs)" "sb' = sb"
      using run dispatch_hub_cmds(1) by (auto simp: bind_eq_Some_conv)
    then show ?thesis using c handlePublish_subs [OF ps h(1)] by (simp add: covered_def)
  next
    assume "cmd = ''subscribe''"
    then have "handleSubscribe (svPS sv) sb args = Some (svPS sv', sb', rs)"
      using run dispatch_hub_cmds(2) by (auto simp: bind_eq_Some_conv)
    then show ?thesis using subscribeLoop_covered [OF ps inv(2) c] c by (auto simp: handleSubscribe_def split: if_splits)
  next
    assume "cmd = ''unsubscribe''"
    then have "handleUnsubscribe cx (svPS sv) sb args = Some (svPS sv', sb', rs)"
      using run dispatch_hub_cmds(3) by (auto simp: bind_eq_Some_conv)
    then show ?thesis using unsubscribeLoop_covered [OF ps c] by (auto simp: handleUnsubscribe_def bind_eq_Some_conv)
  qed
qed

lemma runAll_covered:
  assumes "sv_inv cx cluster sv" "subs_wf sb" "ctx_ok cx" "\<forall>w \<in> set ws. safeCommand cx cluster w" "covered ps0 (svPS sv) sb"
    and "runAll cx cluster ws sv sb = Some (sv', sb', rs)"
  shows "covered ps0 (svPS sv') sb'"
  using assms
proof (induction ws arbitrary: sv sb rs)
  case (Cons w ws)
  obtain sv1 sb1 rs1 where r: "runCommand cx cluster w sv sb = Some (sv1, sb1, rs1, True)" "sv_inv cx cluster sv1" "subs_wf sb1"
    using runCommand_ok [OF Cons.prems(1,2,3), of w] Cons.prems(4) by (auto simp: step_ok_def)
  have "covered ps0 (svPS sv1) sb1"
    using r(1) dispatch_covered [OF Cons.prems(1,2,5)] by (auto simp: runCommand_def split: list.splits)
  moreover obtain rs' where "runAll cx cluster ws sv1 sb1 = Some (sv', sb', rs')"
    using Cons.prems(6) r(1) by auto
  ultimately show ?case using Cons.IH r(2,3) Cons.prems(3,4) by auto
qed simp

lemma connection_result:
  assumes "sv_inv cx cluster sv" "ctx_ok cx"
    and "\<forall>w \<in> set (fst (commandsOf \<lparr>rd = input, rerr = None, lims = connLimits\<rparr>)). safeCommand cx cluster w"
  shows "\<exists>sv' rs. handleConnection cx cluster input sv = Some (sv', rs) \<and> sv_inv cx cluster sv'
     \<and> (\<forall>c. set (subs_of (svPS sv') c) \<subseteq> set (subs_of (svPS sv) c))
     \<and> length (fst (commandsOf \<lparr>rd = input, rerr = None, lims = connLimits\<rparr>)) < length rs"
proof -
  let ?rc = "\<lparr>rd = input, rerr = None, lims = connLimits\<rparr>"
  let ?ws = "fst (commandsOf ?rc)"
  have sb0: "subs_wf (GoMap [])" by (simp add: subs_wf_def)
  have cov0: "covered (svPS sv) (svPS sv) (GoMap [])" by (simp add: covered_def)
  obtain sv1 sb rs where run: "runAll cx cluster ?ws sv (GoMap []) = Some (sv1, sb, rs)" "sv_inv cx cluster sv1" "subs_wf sb"
    "length ?ws \<le> length rs"
    using runAll_ok [OF assms(1) sb0 assms(2,3)] by blast
  note cov = runAll_covered [OF assms(1) sb0 assms(2,3) cov0 run(1)]
  obtain ps where ps: "closeSubscriptions (cx_chans cx sb) sb (svPS sv1) = Some ps" "ps_inv ps"
    "\<forall>c. set (subs_of ps c) = set (subs_of (svPS sv1) c) - (if c \<in> set (cx_chans cx sb) then set (sbOf sb c) else {})"
    using closeSubscriptions_spec [OF sv_invD(2) [OF run(2)]] by blast
  have "set (cx_chans cx sb) = dom (lookup sb)"
    using iteration_facts(2) assms(2) run(3) by (auto simp: ctx_ok_def subs_wf_def)
  then have "sbOf sb c = []" if "c \<notin> set (cx_chans cx sb)" for c
    using that by (auto simp: sbOf_def comma_ok_def split: option.split)
  then have "set (subs_of ps c) \<subseteq> set (subs_of (svPS sv) c)" for c
    using ps(3) cov unfolding covered_def by (cases "c \<in> set (cx_chans cx sb)") fastforce+
  moreover have "handleConnection cx cluster input sv = Some (sv1\<lparr>svPS := ps\<rparr>, rs @ [WriteError (rdError_text (snd (commandsOf ?rc)))])"
    using connLoop_runAll [OF assms(1) sb0 assms(2,3)] run(1) ps(1) by (simp add: handleConnection_def)
  ultimately show ?thesis using sv_inv_ps [OF run(2) ps(2)] run(4) by auto
qed

section \<open>Reading what a client wrote\<close>

lemma WriteArrayString_eq: "WriteArrayString = WriteArrayBytes"
  by (simp add: fun_eq_iff WriteArrayString_def WriteArrayBytes_def WriteString_def [abs_def])

lemma commandsOf_pipelined:
  "\<forall>c \<in> set cmds. cmd_ok lim c \<Longrightarrow>
     commandsOf \<lparr>rd = concat (map WriteArrayString cmds), rerr = None, lims = lim\<rparr> = (cmds, EOF)"
proof (induction cmds)
  case Nil
  have "nextLoop lim [] = Inl EOF" by (subst nextLoop.simps) (simp add: next_cmd_def)
  then show ?case by (subst commandsOf.simps) (simp add: Next_def)
next
  case (Cons c cmds)
  have "nextLoop lim (WriteArrayString c @ concat (map WriteArrayString cmds)) = Inr (c, concat (map WriteArrayString cmds))"
    using nextLoop_roundtrip [of lim c] Cons.prems by (simp add: WriteArrayString_eq)
  then show ?case using Cons by (subst commandsOf.simps) (simp add: Next_def)
qed

section \<open>Commands by name\<close>

lemma runCommand_set:
  assumes "BytesToLower c = ''set''"
  shows "runCommand cx cluster (c # args) sv sb = kvStep sv sb (handleSet cx (svCluster sv) cluster (svKV sv) args)"
  by (simp add: runCommand_def assms dispatch_def keyedCommands_def)

lemma runCommand_get:
  assumes "BytesToLower c = ''get''"
  shows "runCommand cx cluster (c # args) sv sb = kvStep sv sb (handleGet cx (svCluster sv) cluster (svKV sv) args)"
  by (simp add: runCommand_def assms dispatch_def keyedCommands_def)

lemma Get_after_Set:
  assumes "kv_wf crc kv" "SetKV crc kv k v = Some (kv', u)"
  shows "Get crc kv' k = v" "k' \<noteq> k \<Longrightarrow> Get crc kv' k' = Get crc kv k'"
proof -
  have "kv_result crc kv (SetKV crc kv k v) (spec_set (clusterEnabled kv) k v (absKV crc kv)) ()"
    unfolding SetKV_eq by (rule putString_result [OF assms(1)])
  then have "absKV crc kv' = spec_set (clusterEnabled kv) k v (absKV crc kv)" using assms(2) by (auto simp: kv_result_def)
  then show "Get crc kv' k = v" "k' \<noteq> k \<Longrightarrow> Get crc kv' k' = Get crc kv k'"
    by (simp_all add: Get_abs spec_set_def ks_clear_def)
qed

section \<open>Properties\<close>

text \<open>C3: a command stops the process exactly if it is a RESTORE-ASKING with three arguments or, without a cluster, a SETSLOT
  that passes the first checks; every other command, known or not and with any arguments, is answered
  with at least one reply, keeps the store, the cluster view and the hub well formed and the connection open.\<close>

theorem commands_total:
  assumes "sv_inv cx cluster sv" "subs_wf sb" "ctx_ok cx"
  shows "(dispatch cx cluster sv sb cmd args = None \<longleftrightarrow> crashes cx cluster cmd args)
     \<and> (\<not> crashes cx cluster cmd args \<longrightarrow>
          (\<exists>sv' sb' rs. dispatch cx cluster sv sb cmd args = Some (sv', sb', rs, True)
             \<and> sv_inv cx cluster sv' \<and> subs_wf sb' \<and> rs \<noteq> []))"
proof (cases "crashes cx cluster cmd args")
  case True
  then show ?thesis using dispatch_crash [OF assms(1)] by simp
next
  case False
  then show ?thesis using dispatch_ok [OF assms False] unfolding step_ok_def by auto
qed




text \<open>C10: SET then GET, in any mixture of upper and lower case, on a key this server has: the first answers OK, the second
  the value just written, and no other key reads differently. (The text \<^verbatim>\<open>(nil)\<close>, which stands for a missing
  key inside the store, is the one value this does not hold for.)\<close>

theorem set_then_get:
  assumes "sv_inv cx cluster sv" "serves cx (svCluster sv) cluster k" "v \<noteq> ''(nil)''"
    and "BytesToLower c1 = ''set''" "BytesToLower c2 = ''get''"
  shows "\<exists>sv'. runCommand cx cluster [c1, k, v] sv sb = Some (sv', sb, [WriteOK], True)
     \<and> runCommand cx cluster [c2, k] sv' sb = Some (sv', sb, [WriteString v], True)
     \<and> (\<forall>k'. k' \<noteq> k \<longrightarrow> Get (cx_crc cx) (svKV sv') k' = Get (cx_crc cx) (svKV sv) k')"
proof -
  note ok = sv_invD(1) [OF assms(1)] and wf = sv_invD(4) [OF assms(1)]
  obtain kv' where kv': "SetKV (cx_crc cx) (svKV sv) k v = Some (kv', ())" "kv_wf (cx_crc cx) kv'" "clusterEnabled kv' = clusterEnabled (svKV sv)"
    using SetKV_safe [OF wf, of k v] by (auto simp: kv_safe_def)
  have ok': "srv_ok cx (svCluster sv) cluster kv'" using ok kv' by (auto simp: srv_ok_def)
  have "handleSet cx (svCluster sv) cluster (svKV sv) [k, v] = Some (kv', [WriteOK])"
    using set.here [OF ok, of "[k, v]"] assms(2) kv'(1) by (simp add: handleSet_def)
  moreover have "handleGet cx (svCluster sv) cluster kv' [k] = Some (kv', [WriteString v])"
    using get.here [OF ok', of "[k]"] assms(2,3) Get_after_Set(1) [OF wf kv'(1)] by (simp add: handleGet_def)
  ultimately show ?thesis
    using Get_after_Set(2) [OF wf kv'(1)]
    by (intro exI [of _ "sv\<lparr>svKV := kv'\<rparr>"]) (simp add: runCommand_set [OF assms(4)] runCommand_get [OF assms(5)] kvStep_def)
qed

text \<open>the ranges CLUSTER SLOTS reports are ascending and disjoint, none could be joined with the next, every slot in a range
  is one the router sends to the range's node, and every slot that some known node owns is in a range.\<close>

theorem cluster_slots_cover:
  assumes "cs_wf s" "is_iteration (cx_nodes cx)"
  shows "length (clusterSlots cx s) = length (slotRuns cx s 0)
     \<and> (\<forall>(a, b, r) \<in> set (slotRuns cx s 0). a \<le> b \<and> b < 16384
          \<and> (\<forall>i. a \<le> i \<and> i \<le> b \<longrightarrow> GetSlotOwner (cx_nodes cx) i s = Some r \<and> r \<in> owners s i))
     \<and> (\<forall>i < 16384. owners s i \<noteq> {} \<longrightarrow> (\<exists>a b r. (a, b, r) \<in> set (slotRuns cx s 0) \<and> a \<le> i \<and> i \<le> b))
     \<and> sorted_wrt (\<lambda>(a, b, r) (a', b', r'). b < a' \<and> (a' = b + 1 \<longrightarrow> r \<noteq> r')) (slotRuns cx s 0)"
proof -
  let ?rs = "slotRuns cx s 0"
  note runs = slotRuns_spec [of cx s 0, unfolded CLUSTER_SLOTS_def] and f = GetSlotOwner_facts [OF assms]
  have "a \<le> b \<and> b < 16384 \<and> (\<forall>i. a \<le> i \<and> i \<le> b \<longrightarrow> GetSlotOwner (cx_nodes cx) i s = Some r \<and> r \<in> owners s i)"
    if "(a, b, r) \<in> set ?rs" for a b r
  proof -
    have *: "a \<le> b" "b < 16384" "\<forall>i. a \<le> i \<and> i \<le> b \<longrightarrow> GetSlotOwner (cx_nodes cx) i s = Some r"
      using conjunct1 [OF runs] that by auto
    have "r \<in> owners s i" if "a \<le> i" "i \<le> b" for i
      using f(1) [of i r] * that by simp
    with * show ?thesis by simp
  qed
  then have 1: "\<forall>(a, b, r) \<in> set ?rs. a \<le> b \<and> b < 16384
      \<and> (\<forall>i. a \<le> i \<and> i \<le> b \<longrightarrow> GetSlotOwner (cx_nodes cx) i s = Some r \<and> r \<in> owners s i)" by blast
  have 2: "\<exists>a b r. (a, b, r) \<in> set ?rs \<and> a \<le> i \<and> i \<le> b" if i: "i < 16384" and ne: "owners s i \<noteq> {}" for i
  proof -
    obtain r where "GetSlotOwner (cx_nodes cx) i s = Some r"
      using f(2) [OF i] ne by (cases "GetSlotOwner (cx_nodes cx) i s") auto
    then show ?thesis using conjunct1 [OF conjunct2 [OF runs]] i by blast
  qed
  show ?thesis
    by (intro conjI 1 allI impI 2 conjunct2 [OF conjunct2 [OF runs]]) (simp_all add: clusterSlots_def)
qed

text \<open>a counter command that fails answers twice: the error, and then OK; the store is as it was. A client that reads one
  reply for each command is off by one from there on.\<close>

theorem counter_error_then_ok:
  assumes "srv_ok cx cs cluster kv" "serves cx cs cluster k" "Incr (cx_crc cx) kv k = Some (kv', Some e)"
  shows "handleIncr cx cs cluster kv [k] = Some (kv, [WriteError ''ERR value is not an integer'', WriteOK])"
proof -
  have "kv' = kv"
    using assms(3) by (auto simp: Incr_def changeInteger_eq putString_def bind_eq_Some_conv split: if_splits sum.splits)
  then show ?thesis
    using incr.here [OF assms(1), of "[k]"] assms(2,3) by (simp add: handleIncr_def counterReplies_def)
qed

text \<open>MIGRATE moves nothing: whatever its arguments and whatever the network does, the store stays as it is and there is
  one reply; in particular the command the rebalancer sends for a slot with keys is always refused for the number of its
  arguments.\<close>

theorem migrate_moves_nothing:
  "(\<exists>reply. handleMigrate cx kv args = (kv, [reply]))
   \<and> handleMigrate cx kv ([host, prt, [], ''0'', ''5000'', ''KEYS''] @ key # moreKeys)
       = (kv, [WriteError ''Wrong number of arguments for 'MIGRATE' command''])"
proof
  show "\<exists>reply. handleMigrate cx kv args = (kv, [reply])"
    using handleMigrate_inert [of cx kv args] by (cases "handleMigrate cx kv args") auto
qed (simp add: handleMigrate_def)

section \<open>Witnesses\<close>

text \<open>A server as \<^verbatim>\<open>Run\<close> starts it satisfies the invariant, in both modes.\<close>

lemma Run_inv:
  assumes "is_iteration (cx_nodes cx)" "is_iteration (cx_keys cx)" "Run uuid prt host cluster = Inr sv"
  shows "sv_inv cx cluster sv"
  using assms NewKVStore_wf NewPubSub_inv initState_bus [OF NewNode_wf(1)]
  by (auto simp: Run_def sv_inv_def srv_ok_def bus_wf_def split: if_splits sum.splits)

definition exampleCtx :: ctx where
  "exampleCtx = \<lparr>cx_crc = (\<lambda>_. 7), cx_float = (\<lambda>_. None), cx_lower = id, cx_nodes = keys, cx_keys = keys, cx_fmt = (\<lambda>_. ''0''),
     cx_quote = id, cx_json = (\<lambda>_. Inr ''{}''), cx_dial = (\<lambda>_. Inl ''refused''), cx_ask = (\<lambda>_ _. None), cx_rt = exampleRt, cx_chans = keys\<rparr>"

definition exampleServer :: "bool \<Rightarrow> server" where
  "exampleServer cluster = \<lparr>svKV = NewKVStore [cluster], svCluster = (if cluster then Some exampleState else None), svPS = NewPubSub\<rparr>"

lemma example_ok:
  "ctx_ok exampleCtx" "sv_inv exampleCtx cluster (exampleServer cluster)" "subs_wf (GoMap [])"
proof -
  show "ctx_ok exampleCtx" using exampleRt_ok by (simp add: ctx_ok_def exampleCtx_def is_iteration_keys)
  show "sv_inv exampleCtx cluster (exampleServer cluster)"
    by (rule Run_inv [of _ "''id''" "''7000''" "''h''"])
      (simp_all add: exampleCtx_def is_iteration_keys Run_def exampleServer_def strconv_eval)
qed (simp add: subs_wf_def)

lemma example_lower: "BytesToLower ''SET'' = ''set''" "BytesToLower ''gEt'' = ''get''" "BytesToLower ''GET'' = ''get''" "BytesToLower ''PING'' = ''ping''"
  by code_simp+

theorem commands_total_witness:
  "dispatch exampleCtx False (exampleServer False) (GoMap []) ''restore-asking'' [''k'', ''5000'', ''d''] = None
   \<and> (\<exists>sv' sb' rs. dispatch exampleCtx False (exampleServer False) (GoMap []) ''lpush'' [''k'', ''v''] = Some (sv', sb', rs, True)
        \<and> sv_inv exampleCtx False sv')"
  using commands_total [OF example_ok(2,3,1), of False "''restore-asking''" "[''k'', ''5000'', ''d'']"]
    commands_total [OF example_ok(2,3,1), of False "''lpush''" "[''k'', ''v'']"]
  by (auto simp: crashes_def)




theorem set_then_get_witness:
  "\<exists>sv'. runCommand exampleCtx False [''SET'', ''k'', ''v''] (exampleServer False) (GoMap []) = Some (sv', GoMap [], [WriteOK], True)
     \<and> runCommand exampleCtx False [''gEt'', ''k''] sv' (GoMap []) = Some (sv', GoMap [], [WriteString ''v''], True)"
  using set_then_get [OF example_ok(2), of False "''k''" "''v''" "''SET''" "''gEt''" "GoMap []"]
  by (auto simp: serves_def example_lower)

theorem cluster_slots_cover_witness:
  "length (clusterSlots exampleCtx exampleState) = length (slotRuns exampleCtx exampleState 0)
   \<and> sorted_wrt (\<lambda>(a, b, r) (a', b', r'). b < a' \<and> (a' = b + 1 \<longrightarrow> r \<noteq> r')) (slotRuns exampleCtx exampleState 0)"
proof -
  have "cs_wf exampleState" using exampleState_ok(1) by (simp add: bus_wf_def)
  moreover have "is_iteration (cx_nodes exampleCtx)" by (simp add: exampleCtx_def is_iteration_keys)
  ultimately show ?thesis using cluster_slots_cover by blast
qed

theorem counter_error_then_ok_witness:
  "\<exists>kv. SetKV (\<lambda>_. 7) (NewKVStore [False]) ''k'' ''x'' = Some (kv, ())
     \<and> handleIncr exampleCtx None False kv [''k''] = Some (kv, [WriteError ''ERR value is not an integer'', WriteOK])"
proof -
  have wf: "kv_wf (cx_crc exampleCtx) (NewKVStore [False])" by (rule NewKVStore_wf)
  have crc: "cx_crc exampleCtx = (\<lambda>_. 7)" by (simp add: exampleCtx_def)
  obtain kv where kv: "SetKV (\<lambda>_. 7) (NewKVStore [False]) ''k'' ''x'' = Some (kv, ())" "kv_wf (\<lambda>_. 7) kv" "\<not> clusterEnabled kv"
    using SetKV_safe [OF wf, of "''k''" "''x''"] unfolding crc by (auto simp: kv_safe_def)
  have ok: "srv_ok exampleCtx None False kv"
    using kv by (simp add: srv_ok_def crc) (simp add: exampleCtx_def is_iteration_keys)
  obtain kv' e where "Incr (\<lambda>_. 7) kv ''k'' = Some (kv', Some e)"
    using kv(1) by (auto simp: SetKV_def NewKVStore_def Incr_def changeInteger_def comma_ok_def lookup_def applyDelta_def strconv_eval)
  then have "handleIncr exampleCtx None False kv [''k''] = Some (kv, [WriteError ''ERR value is not an integer'', WriteOK])"
    by (intro counter_error_then_ok [OF ok]) (simp_all add: serves_def crc)
  with kv(1) show ?thesis by blast
qed

end
