(* ===== verification/Resp_Client.thy ===== *)
theory Resp_Client
  imports Resp_Wire
begin

text \<open>
  A reference decoder of RESP replies, against which the writers of \<^verbatim>\<open>utils/go-resp/server.go\<close> are checked. It is written from the
  description of the protocol that the comments of \<^verbatim>\<open>server.go\<close> and \<^verbatim>\<open>types/types.go\<close> refer to and stands for what a client does;
  the client programs of the repository use a third-party reader. The theorem is that the writers are
  self-delimiting: what any sequence of calls wrote is read back as exactly that sequence of values, and
  whatever follows is left untouched.
\<close>

section \<open>The decoder\<close>

text \<open>The Go values a reply stands for; a map or an attribute is the flat list of its keys and values.\<close>

datatype respValue = RStr string | RErr string | RInt int | RFloat string | RBool bool | RNil | RArr "respValue list"
  | RSet "respValue list" | RPush "respValue list" | RMap "respValue list" | RAttr "respValue list"

fun splitLine :: "string \<Rightarrow> (string \<times> string) option" where
  "splitLine [] = None"
| "splitLine (c # cs) =
     (if c = CHR 0x0D \<and> cs \<noteq> [] \<and> hd cs = CHR 0x0A then Some ([], tl cs)
      else map_option (\<lambda>(l, rest). (c # l, rest)) (splitLine cs))"

definition decInt :: "string \<Rightarrow> int" where
  "decInt s = (if s \<noteq> [] \<and> hd s = CHR ''-'' then - int (dec_val 0 (tl s)) else int (dec_val 0 s))"

fun readMany :: "(string \<Rightarrow> (respValue \<times> string) option) \<Rightarrow> nat \<Rightarrow> string \<Rightarrow> (respValue list \<times> string) option" where
  "readMany rv 0 s = Some ([], s)"
| "readMany rv (Suc n) s =
     (case rv s of None \<Rightarrow> None | Some (v, s') \<Rightarrow> map_option (\<lambda>(vs, s''). (v # vs, s'')) (readMany rv n s'))"

definition blob :: "char \<Rightarrow> string \<Rightarrow> respValue" where
  "blob t v = (if t = CHR ''!'' then RErr v else if t = CHR ''='' then RStr (drop 4 v) else RStr v)"

definition aggregate :: "char \<Rightarrow> respValue list \<Rightarrow> respValue" where
  "aggregate t vs =
     (if t = CHR ''~'' then RSet vs else if t = CHR ''>'' then RPush vs else if t = CHR ''%'' then RMap vs
      else if t = CHR ''|'' then RAttr vs else RArr vs)"

text \<open>\<open>d\<close> bounds the nesting of aggregates.\<close>

fun readValue :: "nat \<Rightarrow> string \<Rightarrow> (respValue \<times> string) option" where
  "readValue 0 = (\<lambda>s. None)"
| "readValue (Suc d) = (\<lambda>s.
     case s of
       [] \<Rightarrow> None
     | t # body \<Rightarrow>
         (case splitLine body of
            None \<Rightarrow> None
          | Some (line, rest) \<Rightarrow>
              if t = CHR ''+'' then Some (RStr line, rest)
              else if t = CHR ''-'' then Some (RErr line, rest)
              else if t = CHR '':'' \<or> t = CHR ''('' then Some (RInt (decInt line), rest)
              else if t = CHR '','' then Some (RFloat line, rest)
              else if t = CHR ''_'' then Some (RNil, rest)
              else if t = CHR ''#'' then Some (RBool (line = ''t''), rest)
              else if decInt line < 0 then Some (RNil, rest)
              else let n = nat (decInt line)
                   in if t = CHR ''$'' \<or> t = CHR ''!'' \<or> t = CHR ''='' then
                        (if length rest < n + 2 then None else Some (blob t (take n rest), drop (n + 2) rest))
                      else if t = CHR ''*'' \<or> t = CHR ''~'' \<or> t = CHR ''>'' then
                        map_option (\<lambda>(vs, rest'). (aggregate t vs, rest')) (readMany (readValue d) n rest)
                      else if t = CHR ''%'' \<or> t = CHR ''|'' then
                        map_option (\<lambda>(vs, rest'). (aggregate t vs, rest')) (readMany (readValue d) (2 * n) rest)
                      else None))"

section \<open>What is meant by a Go value\<close>

fun valueOf :: "(u64 \<Rightarrow> string) \<Rightarrow> bool \<Rightarrow> goany \<Rightarrow> respValue"
  and valuesOf :: "(u64 \<Rightarrow> string) \<Rightarrow> bool \<Rightarrow> goany list \<Rightarrow> respValue list"
  and entriesOf :: "(u64 \<Rightarrow> string) \<Rightarrow> bool \<Rightarrow> (string \<times> goany) list \<Rightarrow> respValue list" where
  "valueOf ff r2 (GBytes v) = RStr v"
| "valueOf ff r2 (GString v) = RStr v"
| "valueOf ff r2 (GInt v) = RInt v"
| "valueOf ff r2 (GFloat v) = (if r2 then RStr (ff v) else RFloat (SanitizeSimpleString (ff v)))"
| "valueOf ff r2 (GBool v) = (if r2 then RInt (if v then 1 else 0) else RBool v)"
| "valueOf ff r2 (GError e) = RErr (''ERR '' @ SanitizeSimpleString e)"
| "valueOf ff r2 GNil = RNil"
| "valueOf ff r2 (GBig v) = RInt (if r2 then wrap64 v else v)"
| "valueOf ff r2 (GArray vs) = RArr (valuesOf ff r2 vs)"
| "valueOf ff r2 (GMap kvs) = (if r2 then RArr else RMap) (entriesOf ff r2 kvs)"
| "valueOf ff r2 GOther = RNil"
| "valuesOf ff r2 [] = []"
| "valuesOf ff r2 (v # vs) = valueOf ff r2 v # valuesOf ff r2 vs"
| "entriesOf ff r2 [] = []"
| "entriesOf ff r2 ((k, v) # kvs) = RStr k # valueOf ff r2 v # entriesOf ff r2 kvs"

fun depth :: "goany \<Rightarrow> nat" and depthElems :: "goany list \<Rightarrow> nat" and depthEntries :: "(string \<times> goany) list \<Rightarrow> nat" where
  "depth (GArray vs) = Suc (depthElems vs)"
| "depth (GMap kvs) = Suc (depthEntries kvs)"
| "depth _ = 1"
| "depthElems [] = 0"
| "depthElems (v # vs) = max (depth v) (depthElems vs)"
| "depthEntries [] = 0"
| "depthEntries ((k, v) # kvs) = max (depth v) (depthEntries kvs)"

section \<open>Reading back\<close>

lemma splitLine_ok [simp]: "CHR 0x0D \<notin> set l \<Longrightarrow> splitLine (l @ CHR 0x0D # CHR 0x0A # rest) = Some (l, rest)"
  by (induction l) auto

lemma sanitize_no_cr [simp]: "CHR 0x0D \<notin> set (SanitizeSimpleString s)"
  using sanitize_clean by blast

lemma decInt_Itoa [simp]: "decInt (Itoa x) = x"
proof (cases "x < 0")
  case False
  have "hd (utoa (nat x)) \<noteq> CHR ''-''"
    using utoa_digits [of "hd (utoa (nat x))" "nat x"] utoa_not_Nil [of "nat x"] by (auto simp: is_digit_def)
  with False show ?thesis by (simp add: decInt_def Itoa_def dec_val_utoa)
qed (simp add: decInt_def Itoa_def dec_val_utoa)

lemmas write_defs = writeWithType_def writeWithPrefix_def WriteString_def WriteInt_def WriteInt64_def WriteError_def
  WriteExplicitNullString_def WriteNullString_def WriteBool_def WriteFloat_def WriteArrayHeader_def WriteMapHeader_def
  WriteBigInt_def WriteBytes_def

declare readValue.simps(2) [simp del]

text \<open>One reply is its type byte, one line and what the type asks for.\<close>

lemma readValue_line:
  assumes "CHR 0x0D \<notin> set l"
  shows "readValue (Suc d) (t # l @ CHR 0x0D # CHR 0x0A # rest) =
     (if t = CHR ''+'' then Some (RStr l, rest)
      else if t = CHR ''-'' then Some (RErr l, rest)
      else if t = CHR '':'' \<or> t = CHR ''('' then Some (RInt (decInt l), rest)
      else if t = CHR '','' then Some (RFloat l, rest)
      else if t = CHR ''_'' then Some (RNil, rest)
      else if t = CHR ''#'' then Some (RBool (l = ''t''), rest)
      else if decInt l < 0 then Some (RNil, rest)
      else let n = nat (decInt l)
           in if t = CHR ''$'' \<or> t = CHR ''!'' \<or> t = CHR ''='' then
                (if length rest < n + 2 then None else Some (blob t (take n rest), drop (n + 2) rest))
              else if t = CHR ''*'' \<or> t = CHR ''~'' \<or> t = CHR ''>'' then
                map_option (\<lambda>(vs, rest'). (aggregate t vs, rest')) (readMany (readValue d) n rest)
              else if t = CHR ''%'' \<or> t = CHR ''|'' then
                map_option (\<lambda>(vs, rest'). (aggregate t vs, rest')) (readMany (readValue d) (2 * n) rest)
              else None)"
  using splitLine_ok [OF assms] by (simp add: readValue.simps(2) cong: if_cong)

lemma read_blob: "readValue (Suc d) (WriteBytes v @ rest) = Some (RStr v, rest)"
  using readValue_line [OF Itoa_no_crlf(1), of d "CHR ''$''" "int (length v)" "v @ CRLF @ rest"]
  by (simp add: WriteBytes_eq blob_def)

text \<open>The scalars. The empty line of a null is the decoder's \<open>l = []\<close>.\<close>

lemma read_int: "readValue (Suc d) (WriteInt v @ rest) = Some (RInt v, rest)"
  using readValue_line [OF Itoa_no_crlf(1), of d "CHR '':''" v rest] by (simp add: write_defs)

lemma read_error: "readValue (Suc d) (WriteError v @ rest) = Some (RErr (''ERR '' @ SanitizeSimpleString v), rest)"
  using readValue_line [of "''ERR '' @ SanitizeSimpleString v" d "CHR ''-''" rest] by (simp add: write_defs)

lemma read_null: "readValue (Suc d) (WriteNullString r2 @ rest) = Some (RNil, rest)"
  using readValue_line [of "[]" d "CHR ''_''" rest] readValue_line [of "''-1''" d "CHR ''$''" rest]
  by (simp add: write_defs SanitizeSimpleString_def decInt_def dec_val_def digit_val_def)

lemma read_bool: "readValue (Suc d) (WriteBool r2 v @ rest) = Some (if r2 then RInt (if v then 1 else 0) else RBool v, rest)"
  using readValue_line [of "''t''" d "CHR ''#''" rest] readValue_line [of "''f''" d "CHR ''#''" rest] read_int
  by (simp add: WriteBool_def writeWithPrefix_def SanitizeSimpleString_def)

lemma read_float: "readValue (Suc d) (WriteFloat ff r2 v @ rest) =
    Some (if r2 then RStr (ff v) else RFloat (SanitizeSimpleString (ff v)), rest)"
  using readValue_line [of "SanitizeSimpleString (ff v)" d "CHR '',''" rest] read_blob
  by (simp add: WriteFloat_def writeWithType_def writeWithPrefix_def)

lemma read_big: "readValue (Suc d) (WriteBigInt r2 v @ rest) = Some (RInt (if r2 then wrap64 v else v), rest)"
  using readValue_line [OF Itoa_no_crlf(1), of d "CHR ''(''" v rest] read_int [of d "wrap64 v" rest]
  by (simp add: WriteBigInt_def WriteInt_def writeWithType_def writeWithPrefix_def)

text \<open>The aggregates, given that their elements are read back.\<close>

lemma read_array_header: "readValue (Suc d) (WriteArrayHeader (int n) @ rest) =
    map_option (\<lambda>(vs, rest'). (RArr vs, rest')) (readMany (readValue d) n rest)"
  using readValue_line [OF Itoa_no_crlf(1), of d "CHR ''*''" "int n" rest]
  by (simp add: WriteArrayHeader_def writeWithType_def writeWithPrefix_def aggregate_def)

lemma read_map_header: "readValue (Suc d) (WriteMapHeader r2 (int n) @ rest) =
    map_option (\<lambda>(vs, rest'). ((if r2 then RArr else RMap) vs, rest')) (readMany (readValue d) (2 * n) rest)"
  using readValue_line [OF Itoa_no_crlf(1), of d "CHR ''%''" "int n" rest] read_array_header [of d "n * 2" rest]
  by (simp add: WriteMapHeader_def writeWithType_def writeWithPrefix_def aggregate_def mult.commute)

lemmas read_scalars = read_blob read_int read_error read_null read_bool read_float read_big

lemma read_Write:
  "snd (Write ff r2 v) \<Longrightarrow> depth v \<le> d \<Longrightarrow> readValue d (fst (Write ff r2 v) @ rest) = Some (valueOf ff r2 v, rest)"
  "snd (WriteElems ff r2 vs) \<Longrightarrow> depthElems vs \<le> d \<Longrightarrow>
     readMany (readValue d) (length vs) (fst (WriteElems ff r2 vs) @ rest) = Some (valuesOf ff r2 vs, rest)"
  "snd (WriteEntries ff r2 kvs) \<Longrightarrow> depthEntries kvs \<le> d \<Longrightarrow>
     readMany (readValue d) (2 * length kvs) (fst (WriteEntries ff r2 kvs) @ rest) = Some (entriesOf ff r2 kvs, rest)"
proof (induction ff r2 v and ff r2 vs and ff r2 kvs arbitrary: d rest and d rest and d rest
    rule: Write_WriteElems_WriteEntries.induct)
  case (9 ff r2 vs)
  then show ?case by (cases d) (auto simp: read_array_header split: prod.splits)
next
  case (10 ff r2 kvs)
  then show ?case by (cases d) (auto simp: read_map_header split: prod.splits)
next
  case (13 ff r2 v vs)
  then show ?case by (cases "Write ff r2 v"; cases "WriteElems ff r2 vs") auto
next
  case (15 ff r2 k v kvs)
  obtain d' where "d = Suc d'" using "15.prems" by (cases d; cases v) auto
  with 15 show ?case
    by (cases "Write ff r2 v"; cases "WriteEntries ff r2 kvs") (auto simp: read_blob WriteString_def)
qed (case_tac d; simp add: read_scalars WriteString_def)+

text \<open>Any count of strings behind a header.\<close>

lemma read_strings: "readMany (readValue (Suc d)) (length v) (concat (map WriteString v) @ rest) = Some (map RStr v, rest)"
  by (induction v) (simp_all add: read_blob WriteString_def)

lemma read_string_entries: "readMany (readValue (Suc d)) (2 * length kvs) (stringEntries kvs @ rest)
    = Some (concat (map (\<lambda>(k, v). [RStr k, RStr v]) kvs), rest)"
  by (induction kvs) (auto simp: stringEntries_def read_blob WriteString_def)

text \<open>The four headers of RESP3 aggregates that \<^verbatim>\<open>Write\<close> does not use.\<close>

lemma read_header:
  assumes "t \<in> {CHR ''~'', CHR ''>'', CHR ''|''}"
  shows "readValue (Suc d) (writeWithType t (Itoa (int n)) None @ rest) =
    map_option (\<lambda>(vs, rest'). (aggregate t vs, rest')) (readMany (readValue d) (if t = CHR ''|'' then 2 * n else n) rest)"
  using readValue_line [OF Itoa_no_crlf(1), of d t "int n" rest] assms
  by (auto simp: writeWithType_def writeWithPrefix_def)

lemma read_null_array: "readValue (Suc d) (WriteNullArray r2 @ rest) = Some (RNil, rest)"
  using readValue_line [of "[]" d "CHR ''_''" rest] readValue_line [of "''-1''" d "CHR ''*''" rest]
  by (simp add: WriteNullArray_def WriteExplicitNullArray_def write_defs SanitizeSimpleString_def decInt_def dec_val_def digit_val_def)

lemma read_counted:
  "readValue (Suc d) (writeWithType (CHR ''!'') (Itoa (int (length v))) (Some v) @ rest) = Some (RErr v, rest)"
  "readValue (Suc d) (writeWithType (CHR ''='') (Itoa (int (length v))) (Some v) @ rest) = Some (RStr (drop 4 v), rest)"
  using readValue_line [OF Itoa_no_crlf(1), of d "CHR ''!''" "int (length v)" "v @ CRLF @ rest"]
    readValue_line [OF Itoa_no_crlf(1), of d "CHR ''=''" "int (length v)" "v @ CRLF @ rest"]
  by (simp_all add: writeWithType_def writeWithPrefix_def blob_def)

section \<open>Properties\<close>

text \<open>C21: what the server writes is self-delimiting: the bytes of any sequence of Write calls that succeeded, with
  any strings, numbers, nested arrays and maps in them and in either protocol version, are read back as exactly
  those values in that order, and what follows is left where it was. No text a client stored can be
  taken for a reply.\<close>

theorem replies_self_delimiting:
  assumes "\<forall>v \<in> set vs. snd (Write ff r2 v) \<and> depth v \<le> d"
  shows "readMany (readValue d) (length vs) (concat (map (\<lambda>v. fst (Write ff r2 v)) vs) @ rest) = Some (map (valueOf ff r2) vs, rest)"
  using assms
proof (induction vs)
  case (Cons v vs)
  then show ?case using read_Write(1) [of ff r2 v d "concat (map (\<lambda>v. fst (Write ff r2 v)) vs) @ rest"] by simp
qed simp

theorem replies_self_delimiting_witness:
  "readMany (readValue 3) 2 (concat (map (\<lambda>v. fst (Write (\<lambda>_. ''1.5'') False v))
       [GArray [GString (''a'' @ CRLF @ ''+OK'' @ CRLF), GNil, GMap [(''k'', GInt (- 7))]], GFloat 0]) @ ''next'')
   = Some ([RArr [RStr (''a'' @ CRLF @ ''+OK'' @ CRLF), RNil, RMap [RStr ''k'', RInt (- 7)]], RFloat ''1.5''], ''next'')"
  using replies_self_delimiting [of "[GArray [GString (''a'' @ CRLF @ ''+OK'' @ CRLF), GNil, GMap [(''k'', GInt (- 7))]], GFloat 0]"
      "\<lambda>_. ''1.5''" False 3 "''next''"]
  by (simp add: numeral_2_eq_2 SanitizeSimpleString_def)

text \<open>the writers for collections of strings, for blob errors and for verbatim strings are read back too. For RESP2 sets
  and maps become arrays, and attributes and push messages vanish without a byte.\<close>

theorem string_collections_read_back:
  assumes "4 \<le> length t"
  shows "readValue (Suc (Suc d)) (WriteArrayString v @ rest) = Some (RArr (map RStr v), rest)
   \<and> readValue (Suc (Suc d)) (WriteSetString r2 v @ rest) = Some ((if r2 then RArr else RSet) (map RStr v), rest)
   \<and> readValue (Suc (Suc d)) (WriteMapString r2 kvs @ rest)
       = Some ((if r2 then RArr else RMap) (concat (map (\<lambda>(k, v). [RStr k, RStr v]) kvs)), rest)
   \<and> readValue (Suc (Suc d)) (WritePushString False v @ rest) = Some (RPush (map RStr v), rest) \<and> WritePushString True v = []
   \<and> readValue (Suc (Suc d)) (WriteAttrString False kvs @ rest)
       = Some (RAttr (concat (map (\<lambda>(k, v). [RStr k, RStr v]) kvs)), rest) \<and> WriteAttrString True kvs = []
   \<and> readValue (Suc d) (WriteVerbatimBytes r2 t @ rest) = Some (RStr (drop 4 t), rest)
   \<and> readValue (Suc d) (WriteBlobError False e @ rest) = Some (RErr e, rest)
   \<and> readValue (Suc d) (WriteNullArray r2 @ rest) = Some (RNil, rest)"
  using assms
  by (auto simp: WriteArrayString_def WriteSetString_def WriteSetHeader_def WriteMapString_def WritePushString_def WriteAttrString_def
      WriteVerbatimBytes_def WriteBlobError_def read_array_header read_map_header read_header read_strings read_string_entries
      read_counted read_blob read_null_array aggregate_def)

theorem string_collections_read_back_witness:
  "readValue 2 (WriteMapString False [(''a'', ''b'')] @ ''x'') = Some (RMap [RStr ''a'', RStr ''b''], ''x'')
   \<and> readValue 1 (WriteVerbatimBytes False ''txt:hello'' @ []) = Some (RStr ''hello'', [])"
  using string_collections_read_back [of "''txt:hello''" 0 "[]" "''x''" False "[(''a'', ''b'')]"]
    string_collections_read_back [of "''txt:hello''" 0 "[]" "[]" False "[]"]
  by (simp add: numeral_2_eq_2)

end
