(* ===== verification/Server_Replies.thy ===== *)
theory Server_Replies
  imports Server_Session Resp_Client
begin

text \<open>
  The handlers of \<^verbatim>\<open>cmd/ember-server\<close> seen from the wire: every byte string a command answers with is one whole RESP
  value for the reference decoder, and all but a few commands answer with exactly one. Redirections are
  written to the connection as they are, without the sanitising of \<^verbatim>\<open>WriteError\<close>, so this asks of the hosts in the view of the
  cluster that they hold no carriage return.
\<close>

section \<open>Whole replies\<close>

text \<open>Arrays of arrays of arrays, in the answer to \<^verbatim>\<open>CLUSTER SLOTS\<close>, are the deepest nesting.\<close>

definition is_reply :: "reply \<Rightarrow> bool" where
  "is_reply r \<longleftrightarrow> (\<exists>v. \<forall>rest. readValue 4 (r @ rest) = Some (v, rest))"

named_theorems wire

lemma is_replyI: "(\<And>d rest. readValue (Suc (Suc d)) (r @ rest) = Some (v, rest)) \<Longrightarrow> is_reply r"
  using numeral_eq_Suc by (auto simp: is_reply_def eval_nat_numeral)

lemma read_simple:
  assumes "CHR 0x0D \<notin> set l"
  shows "is_reply (CHR ''+'' # l @ CRLF)" "is_reply (CHR ''-'' # l @ CRLF)"
  by (rule is_replyI [of _ "RStr l"], simp add: readValue_line [OF assms])
    (rule is_replyI [of _ "RErr l"], simp add: readValue_line [OF assms])

lemma reply_scalars [wire]:
  "is_reply (WriteError e)" "is_reply (WriteString v)" "is_reply (WriteBytes v)" "is_reply (WriteInt n)"
  "is_reply (WriteNullString r2)" "is_reply (WriteStatusString t)" "is_reply WriteOK"
proof -
  show "is_reply (WriteStatusString t)"
    using read_simple(1) [OF sanitize_no_cr, of t] by (simp add: WriteStatusString_def writeWithType_def writeWithPrefix_def)
  show "is_reply WriteOK"
    using read_simple(1) [of "''OK''"] by (simp add: WriteOK_def writeWithPrefix_def SanitizeSimpleString_def)
qed (rule is_replyI, (unfold WriteString_def)?, rule read_scalars)+

lemma reply_strings [wire]: "is_reply (WriteArrayString v)" "is_reply (WriteArrayBytes v)"
proof -
  show "is_reply (WriteArrayString v)"
    by (rule is_replyI [of _ "RArr (map RStr v)"]) (simp add: WriteArrayString_def read_array_header read_strings)
  then show "is_reply (WriteArrayBytes v)" by (simp add: WriteArrayString_eq)
qed

lemma reply_array [wire]: "snd (WriteArray ff r2 vs) \<Longrightarrow> depthElems vs \<le> 3 \<Longrightarrow> is_reply (fst (WriteArray ff r2 vs))"
  using read_Write(1) [of ff r2 "GArray vs" 4] by (auto simp: is_reply_def WriteArray_def)

lemma reply_moved [wire]: "CHR 0x0D \<notin> set (snapHost n) \<Longrightarrow> is_reply (movedReply slot n)"
  using read_simple(2) [of "''MOVED '' @ Itoa (uint slot) @ '' '' @ JoinHostPort (snapHost n) (Itoa (snapClientPort n))"]
  by (auto simp: movedReply_def JoinHostPort_def Itoa_no_crlf)

text \<open>A batch of whole replies is read one by one.\<close>

lemma read_replies:
  assumes "\<forall>r \<in> set rs. is_reply r"
  shows "\<exists>vs. length vs = length rs \<and> readMany (readValue 4) (length rs) (concat rs @ rest) = Some (vs, rest)"
  using assms
proof (induction rs)
  case (Cons r rs)
  then obtain v vs where "\<forall>rest. readValue 4 (r @ rest) = Some (v, rest)"
    "length vs = length rs" "readMany (readValue 4) (length rs) (concat rs @ rest) = Some (vs, rest)" by (auto simp: is_reply_def)
  then show ?case by (intro exI [of _ "v # vs"]) simp
qed simp

section \<open>Handlers on keys\<close>

definition clean_hosts :: "ClusterState option \<Rightarrow> bool" where
  "clean_hosts cs \<longleftrightarrow> (\<forall>s r. cs = Some s \<longrightarrow> CHR 0x0D \<notin> set (Host (store s r)))"

text \<open>A result all of whose replies are whole, and which has just one reply if it is to be \<open>single\<close>.\<close>

definition answers :: "bool \<Rightarrow> ('a \<times> reply list) option \<Rightarrow> bool" where
  "answers single out \<longleftrightarrow> (\<forall>x rs. out = Some (x, rs) \<longrightarrow> (\<forall>r \<in> set rs. is_reply r) \<and> (single \<longrightarrow> length rs = 1))"

lemma answers_one [wire]: "is_reply r \<Longrightarrow> answers single (Some (x, [r]))"
  by (simp add: answers_def)

lemma answers_op [wire]: "(\<And>x r. out = Some (x, r) \<Longrightarrow> answers single (f x r)) \<Longrightarrow> answers single (do { (x, r) \<leftarrow> out; f x r })"
  by (cases out) (auto simp: answers_def)

lemma answers_bind [wire]: "(\<And>x. out = Some x \<Longrightarrow> answers single (f x)) \<Longrightarrow> answers single (Option.bind out f)"
  by (cases out) (auto simp: answers_def)

lemma answers_counter [wire]: "answers False (Some (kv, counterReplies e))"
  by (auto simp: answers_def counterReplies_def wire)

lemma answers_routed [wire]:
  assumes "clean_hosts cs" "answers single body"
  shows "answers single (routed cx cs cluster kv key body)"
proof -
  have "answers single (toMoveorNotToMove cx cs key) \<or> (\<exists>out. toMoveorNotToMove cx cs key = Some (RouteOK, out))"
    using assms(1)
    by (cases cs) (auto simp: toMoveorNotToMove_def Let_def answers_def clean_hosts_def Snapshot_def wire split: option.split)
  then show ?thesis using assms(2) by (auto simp: routed_def answers_def bind_eq_Some_conv split: if_splits)
qed

lemma hmget_array: "snd (WriteArray ff r2 (map (\<lambda>v. case v of None \<Rightarrow> GNil | Some t \<Rightarrow> GString t) vs))"
  "depthElems (map (\<lambda>v. case v of None \<Rightarrow> GNil | Some t \<Rightarrow> GString t) vs) \<le> 3"
proof -
  let ?f = "\<lambda>v. case v of None \<Rightarrow> GNil | Some t \<Rightarrow> GString t"
  have "snd (WriteElems ff r2 (map ?f vs))" by (induction vs) (auto simp: case_prod_unfold split: option.split)
  then show "snd (WriteArray ff r2 (map ?f vs))" by (auto simp: WriteArray_def split: prod.splits)
  show "depthElems (map ?f vs) \<le> 3" by (induction vs) (auto split: option.split)
qed

lemmas answer_rules = wire hmget_array

definition counters :: "string list" where
  "counters = [''incr'', ''incrby'', ''decr'', ''decrby'']"

lemmas answer_splits = if_split list.split sum.split prod.split

lemma strings_answer:
  assumes "clean_hosts cs"
  shows "answers True (handleSet cx cs cluster kv args)" "answers True (handleGet cx cs cluster kv args)"
    "answers True (handleAppend cx cs cluster kv args)" "answers True (handleMSet cx cs cluster kv args)"
    "answers True (handleMGet cx cs cluster kv args)" "answers False (handleIncr cx cs cluster kv args)"
    "answers False (handleIncrBy cx cs cluster kv args)" "answers False (handleDecr cx cs cluster kv args)"
    "answers False (handleDecrBy cx cs cluster kv args)"
  using assms
  by (auto simp: handleSet_def handleGet_def handleAppend_def handleMSet_def handleMGet_def handleIncr_def handleIncrBy_def
      handleDecr_def handleDecrBy_def Let_def split: answer_splits intro!: answer_rules)

lemma lists_answer:
  assumes "clean_hosts cs"
  shows "answers True (handlePush c cx cs cluster kv args)" "answers True (handlePop c cx cs cluster kv args)"
    "answers True (handleLRange cx cs cluster kv args)" "answers True (handleLLen cx cs cluster kv args)"
  using assms
  by (auto simp: handlePush_def handlePop_def handleLRange_def handleLLen_def split: answer_splits intro!: answer_rules)

lemma hashes_answer:
  assumes "clean_hosts cs"
  shows "answers True (handleHSet cx cs cluster kv args)" "answers True (handleHGet cx cs cluster kv args)"
    "answers True (handleHMSet cx cs cluster kv args)" "answers True (handleHMGet cx cs cluster kv args)"
    "answers True (handleHGetAll cx cs cluster kv args)" "answers True (handleHDel cx cs cluster kv args)"
  using assms
  by (auto simp: handleHSet_def handleHGet_def handleHMSet_def handleHMGet_def handleHGetAll_def handleHDel_def Let_def
      split: answer_splits intro!: answer_rules)

lemma sets_answer:
  assumes "clean_hosts cs"
  shows "answers True (handleSetMembers c cx cs cluster kv args)" "answers True (handleSMembers cx cs cluster kv args)"
    "answers True (handleSIsMember cx cs cluster kv args)" "answers True (handleZAdd cx cs cluster kv args)"
    "answers True (handleZRange cx cs cluster kv args)" "answers True (handleZRem cx cs cluster kv args)"
  using assms
  by (auto simp: handleSetMembers_def handleSMembers_def handleSIsMember_def handleZAdd_def handleZRange_def handleZRem_def
      split: answer_splits intro!: answer_rules)


lemma keyed_answers:
  assumes "map_of keyedCommands cmd = Some h" "clean_hosts cs"
  shows "answers (cmd \<notin> set counters) (h cx cs cluster kv args)"
proof -
  have "\<forall>(c, h) \<in> set keyedCommands. answers (c \<notin> set counters) (h cx cs cluster kv args)"
    unfolding keyedCommands_def counters_def
    by (simp add: strings_answer lists_answer hashes_answer sets_answer assms(2))
  then show ?thesis using map_of_SomeD [OF assms(1)] by auto
qed

section \<open>The other handlers\<close>

lemma deleteLoop_replies: "deleteLoop crc ks kv out = (kv', out') \<Longrightarrow> \<forall>r \<in> set out. is_reply r \<Longrightarrow> \<forall>r \<in> set out'. is_reply r"
proof (induction ks arbitrary: kv out)
  case (Cons k ks)
  obtain kv1 n where d: "Delete crc kv k = (kv1, n)" by force
  have "\<forall>r \<in> set (if n \<noteq> 1 then out @ [deleteError] else out). is_reply r" using Cons.prems(2) by (simp add: deleteError_def wire)
  then show ?case by (rule Cons.IH [rotated]) (use Cons.prems(1) d in simp)
qed simp

lemma delete_answers [wire]: "answers False (Some (handleDelete crc kv args))"
proof -
  have "answers False (Some (case deleteLoop crc args kv [] of (kv', out) \<Rightarrow> (kv', out @ [WriteOK])))"
    using deleteLoop_replies [of crc args kv "[]"] by (auto simp: answers_def wire split: prod.split)
  moreover have "answers False (Some (case Delete crc kv k of (kv', n) \<Rightarrow> if n \<noteq> 1 then (kv', [deleteError]) else (kv', [WriteOK])))" for k
    by (auto simp: answers_def deleteError_def wire split: prod.split)
  ultimately show ?thesis by (auto simp: handleDelete_def split: list.split)
qed

lemma migrate_answers [wire]: "answers True (Some (handleMigrate cx kv args))"
  by (auto simp: handleMigrate_def answers_def wire)

lemma restore_answers [wire]: "answers True (handleRestoreAsking cx kv args)"
  by (auto simp: handleRestoreAsking_def split: sum.split intro!: wire)

lemma setslot_answers [wire]: "answers True (handleSetSlot cx cs args)"
  by (auto simp: handleSetSlot_def Let_def split: option.split intro!: wire)

lemma slots_depth: "depthElems (clusterSlots cx s) \<le> 3"
proof -
  have "depthElems (map f xs) \<le> 3" if "\<And>x. depth (f x) \<le> 3" for f and xs :: "(nat \<times> nat \<times> nodeRef) list"
    using that by (induction xs) simp_all
  then show ?thesis by (simp add: clusterSlots_def Let_def split: prod.split)
qed

definition one_answer :: "clusterStep \<Rightarrow> bool" where
  "one_answer out \<longleftrightarrow> (\<forall>cs rs go. out = Some (cs, rs, go) \<longrightarrow> length rs = 1 \<and> (\<forall>r \<in> set rs. is_reply r))"

lemma one_answerI [intro!]:
  "is_reply r \<Longrightarrow> one_answer (Some (cs, [r], go))" "one_answer (refuse cs e)"
  "(\<And>x. out = Some x \<Longrightarrow> one_answer (f x)) \<Longrightarrow> one_answer (Option.bind out f)"
  by (auto simp: one_answer_def refuse_def wire bind_eq_Some_conv)

lemma nodes_answer: "one_answer (clusterNodesCmd cx cs)"
  unfolding clusterNodesCmd_def by (auto simp: reply_scalars split: option.split sum.split)

lemma addslots_answer: "one_answer (clusterAddSlotsRangeCmd cx cs rest)"
  unfolding clusterAddSlotsRangeCmd_def by (simp add: reply_scalars one_answerI split: list.split sum.split)

lemma meet_answer: "one_answer (clusterMeetCmd cx cs rest)"
  unfolding clusterMeetCmd_def by (auto simp: reply_scalars split: list.split sum.split option.split prod.split)

lemma slots_answer: "one_answer (do { s \<leftarrow> cs; let (out, ok) = WriteArray ff r2 (clusterSlots cx s) in Some (cs, [out], ok) })"
  unfolding Let_def case_prod_unfold by (intro one_answerI reply_array [OF slotsArray_ok slots_depth])

lemma myaddr_answer: "one_answer (do { s \<leftarrow> cs; n \<leftarrow> deref s (Self s); Some (cs, [WriteArrayString (f n)], True) })"
  by (intro one_answerI reply_strings)

lemma cluster_answers: "one_answer (handleCluster cx cluster cs args)"
  unfolding handleCluster_def using nodes_answer addslots_answer meet_answer slots_answer myaddr_answer
  by (simp add: one_answerI(2) split: list.split)

lemma subscribeLoop_replies:
  "subscribeLoop cs ps sb out = Some (ps', sb', out') \<Longrightarrow> \<forall>r \<in> set out. is_reply r \<Longrightarrow> \<forall>r \<in> set out'. is_reply r"
  by (induction cs ps sb out rule: subscribeLoop.induct) (auto simp: wire bind_eq_Some_conv)

section \<open>Every command\<close>

definition severalReplies :: "string list" where
  "severalReplies = counters @ [''ping'', ''del'', ''delete'', ''subscribe'']"

definition step_answers :: "bool \<Rightarrow> step \<Rightarrow> bool" where
  "step_answers single out \<longleftrightarrow>
     (\<forall>sv sb rs go. out = Some (sv, sb, rs, go) \<longrightarrow> (\<forall>r \<in> set rs. is_reply r) \<and> (single \<longrightarrow> length rs = 1))"

lemma step_answers_kv: "answers single out \<Longrightarrow> step_answers single (kvStep sv sb out)"
  by (auto simp: step_answers_def answers_def kvStep_def bind_eq_Some_conv)

lemma step_answers_pubsub:
  "step_answers True (do { (ps, rs) \<leftarrow> handlePublish (svPS sv) args; Some (sv\<lparr>svPS := ps\<rparr>, sb, rs, True) })"
  "step_answers False (do { (ps, sb', rs) \<leftarrow> handleSubscribe (svPS sv) sb args; Some (sv\<lparr>svPS := ps\<rparr>, sb', rs, True) })"
  "step_answers True (do { (ps, sb', rs) \<leftarrow> handleUnsubscribe cx (svPS sv) sb args; Some (sv\<lparr>svPS := ps\<rparr>, sb', rs, True) })"
  using subscribeLoop_replies [of args "svPS sv" sb "[]"]
  by (auto simp: step_answers_def handlePublish_def handleSubscribe_def handleUnsubscribe_def wire bind_eq_Some_conv split: list.splits if_splits)

lemma step_answers_if: "(b \<Longrightarrow> step_answers s x) \<Longrightarrow> (\<not> b \<Longrightarrow> step_answers s y) \<Longrightarrow> step_answers s (if b then x else y)"
  by simp

lemma step_answers_local:
  "step_answers False (do { rs \<leftarrow> handlePing cs cluster; Some (sv, sb, rs, True) })"
  "step_answers True (Some (sv, sb, handleEcho args, True))"
  "step_answers True (Some (sv, sb, handleGetKeysInSlot cx kv args, True))"
  "step_answers True (do { (cs, rs, go) \<leftarrow> handleCluster cx cluster (svCluster sv) args; Some (sv\<lparr>svCluster := cs\<rparr>, sb, rs, go) })"
  "step_answers True (do { (cs, rs) \<leftarrow> handleSetSlot cx (svCluster sv) args; Some (sv\<lparr>svCluster := cs\<rparr>, sb, rs, True) })"
  "step_answers True (Some (sv, sb, [WriteError e], True))"
  using cluster_answers [of cx cluster "svCluster sv" args, unfolded one_answer_def] setslot_answers [of cx "svCluster sv" args]
  by (auto simp: step_answers_def handlePing_def handleEcho_def handleGetKeysInSlot_def answers_def wire bind_eq_Some_conv Let_def
      split: if_splits list.splits sum.splits)

lemma step_answers_weaken: "step_answers True out \<Longrightarrow> step_answers s out"
  by (auto simp: step_answers_def)

lemma dispatch_answers:
  assumes "clean_hosts (svCluster sv)"
  shows "step_answers (cmd \<notin> set severalReplies) (dispatch cx cluster sv sb cmd args)"
proof (cases "map_of keyedCommands cmd")
  case (Some h)
  have "step_answers (cmd \<notin> set counters) (dispatch cx cluster sv sb cmd args)"
    unfolding dispatch_def Some option.case by (rule step_answers_kv [OF keyed_answers [OF Some assms]])
  then show ?thesis by (auto simp: step_answers_def severalReplies_def)
next
  case None
  note multi = step_answers_local(1) step_answers_pubsub(2) step_answers_kv [OF delete_answers]
  note single = step_answers_local(2-6) step_answers_pubsub(1,3) step_answers_kv [OF restore_answers]
    step_answers_kv [OF migrate_answers] step_answers_kv [OF answers_one [OF reply_scalars(7)]]
  show ?thesis
    unfolding dispatch_def None option.case
    by (intro step_answers_if single [THEN step_answers_weaken]) (use multi in \<open>simp_all add: severalReplies_def counters_def\<close>)
qed


text \<open>Whole connections of a server without a cluster, where there are no redirections.\<close>

lemma runAll_answers:
  assumes "sv_inv cx False sv" "subs_wf sb" "ctx_ok cx" "\<forall>w \<in> set ws. safeCommand cx False w" "runAll cx False ws sv sb = Some (sv', sb', rs)"
  shows "(\<forall>r \<in> set rs. is_reply r) \<and> ((\<forall>w \<in> set ws. BytesToLower (hd w) \<notin> set severalReplies) \<longrightarrow> length rs = length ws)"
  using assms
proof (induction ws arbitrary: sv sb rs)
  case (Cons w ws)
  obtain c args where w: "w = c # args" using Cons.prems(4) by (cases w) (auto simp: safeCommand_def)
  obtain sv1 sb1 rs1 where r: "runCommand cx False w sv sb = Some (sv1, sb1, rs1, True)" "sv_inv cx False sv1" "subs_wf sb1"
    using runCommand_ok [OF Cons.prems(1,2,3), of w] Cons.prems(4) by (auto simp: step_ok_def)
  then obtain rs2 where rs2: "runAll cx False ws sv1 sb1 = Some (sv', sb', rs2)" "rs = rs1 @ rs2" using Cons.prems(5) by auto
  have "clean_hosts (svCluster sv)" using Cons.prems(1) by (simp add: sv_inv_def clean_hosts_def)
  from dispatch_answers [OF this, of "BytesToLower c" cx False sb args] r(1) w
  have "(\<forall>r \<in> set rs1. is_reply r) \<and> (BytesToLower c \<notin> set severalReplies \<longrightarrow> length rs1 = 1)"
    by (auto simp: runCommand_def step_answers_def)
  moreover note Cons.IH [OF r(2,3) Cons.prems(3) _ rs2(1)]
  ultimately show ?case using Cons.prems(4) rs2(2) w by auto
qed simp

section \<open>Properties\<close>

text \<open>C20: whatever a command answers, it answers in whole RESP values: a client that reads values one by one finds
  exactly as many as the handler wrote, and nothing of the next answer is lost. Only the counters, PING, DEL and SUBSCRIBE may answer
  with several; every other command, known or not, answers with exactly one. Asked for is that no host in the view of the cluster holds
  a carriage return.\<close>

theorem answers_are_whole_values:
  assumes "clean_hosts (svCluster sv)" "dispatch cx cluster sv sb cmd args = Some (sv', sb', rs, go)"
  shows "(\<exists>vs. length vs = length rs \<and> readMany (readValue 4) (length rs) (concat rs @ rest) = Some (vs, rest))
     \<and> (cmd \<notin> set severalReplies \<longrightarrow> length rs = 1)"
  using dispatch_answers [OF assms(1), of cmd cx cluster sb args] assms(2) read_replies by (auto simp: step_answers_def)

theorem answers_are_whole_values_witness:
  "\<exists>v. readMany (readValue 4) 1 (concat [WriteBytes (''x'' @ CRLF)] @ ''rest'') = Some ([v], ''rest'')"
proof -
  have "dispatch exampleCtx False (exampleServer False) (GoMap []) ''echo'' [''x'' @ CRLF]
      = Some (exampleServer False, GoMap [], [WriteBytes (''x'' @ CRLF)], True)"
    by (simp add: dispatch_def keyedCommands_def handleEcho_def)
  moreover have "clean_hosts (svCluster (exampleServer False))" by (simp add: clean_hosts_def exampleServer_def)
  ultimately show ?thesis
    using answers_are_whole_values [where rest = "''rest''"] by (fastforce simp: length_Suc_conv)
qed



end
