(* ===== verification/Cluster_Rebalance.thy ===== *)
theory Cluster_Rebalance
  imports Cluster_Bus "HOL-Library.Char_ord" "HOL-Library.List_Lexorder" "HOL-Library.Multiset"
begin

text \<open>
  \<^verbatim>\<open>ClusterRebalanceNodes\<close> and \<^verbatim>\<open>clusterMoveSlots\<close> of \<^verbatim>\<open>utils/clusters/cluster.go\<close>, with \<^verbatim>\<open>utils/response.go\<close> and \<^verbatim>\<open>utils/progress.go\<close>: the
  client side of moving slots between servers. The network is a parameter: the record \<open>net\<close> says what dialling,
  sending a command and reading an answer do to a world of any type; reading gives the error of the third-party
  RESP reader or the Go value its \<^verbatim>\<open>SmartResult\<close> has. An operation maps the world to its error or result and the
  world it leaves; the loop that empties a slot has no bound of its own, so it, and what calls it, is an option, \<^const>\<open>None\<close>
  standing for a loop that does not end. Progress output has no part in the behaviour.
\<close>

section \<open>The network\<close>

datatype smart = SStr string | SErr string | SArr "smart list" | SOther string

datatype endpoint = ToSource | ToTarget | ToNode

record 'w net =
  net_dial :: "endpoint \<Rightarrow> string \<Rightarrow> 'w \<Rightarrow> string option \<times> 'w"
  net_write :: "endpoint \<Rightarrow> string list \<Rightarrow> 'w \<Rightarrow> string option \<times> 'w"
  net_read :: "endpoint \<Rightarrow> 'w \<Rightarrow> (string + smart) \<times> 'w"

datatype respErr = RespRead string | RespUnexpected string | RespError string | RespOther smart

definition ExpectStringResponse :: "string + smart \<Rightarrow> string \<Rightarrow> respErr option" where
  "ExpectStringResponse v expected =
     (case v of
        Inl err \<Rightarrow> Some (RespRead err)
      | Inr (SStr response) \<Rightarrow> if response \<noteq> expected then Some (RespUnexpected response) else None
      | Inr (SErr response) \<Rightarrow> Some (RespError response)
      | Inr result \<Rightarrow> Some (RespOther result))"

text \<open>Errors: what was tried, for which slot and node, and how it failed.\<close>

datatype moveError = TooFewSlots int nat | NoHost string | DialFailed string string | SendFailed string nat string
  | Refused string nat respErr | KeysUnread nat string | KeysNoArray nat smart | KeysNoString nat | NilNode string

text \<open>Sequencing with an early return on error.\<close>

definition andThen :: "('w \<Rightarrow> ('e + 'a) \<times> 'w) \<Rightarrow> ('a \<Rightarrow> 'w \<Rightarrow> ('e + 'b) \<times> 'w) \<Rightarrow> 'w \<Rightarrow> ('e + 'b) \<times> 'w" where
  "andThen m f w = (case m w of (Inl e, w') \<Rightarrow> (Inl e, w') | (Inr a, w') \<Rightarrow> f a w')"

text \<open>\<^verbatim>\<open>writeClusterCommand\<close> and then \<^verbatim>\<open>ExpectStringResponse(..., "OK")\<close>.\<close>

definition command :: "'w net \<Rightarrow> endpoint \<Rightarrow> string list \<Rightarrow> (string \<Rightarrow> moveError) \<Rightarrow> (respErr \<Rightarrow> moveError) \<Rightarrow> 'w \<Rightarrow> (moveError + unit) \<times> 'w" where
  "command net to args onSend onAnswer w =
     (case net_write net to args w of
        (Some e, w1) \<Rightarrow> (Inl (onSend e), w1)
      | (None, w1) \<Rightarrow>
          (case net_read net to w1 of
             (v, w2) \<Rightarrow> (case ExpectStringResponse v ''OK'' of Some e \<Rightarrow> (Inl (onAnswer e), w2) | None \<Rightarrow> (Inr (), w2))))"

definition dialNode :: "'w net \<Rightarrow> endpoint \<Rightarrow> NodeSnapshot \<Rightarrow> 'w \<Rightarrow> (moveError + unit) \<times> 'w" where
  "dialNode net to n w =
     (case net_dial net to (JoinHostPort (snapHost n) (Itoa (snapClientPort n))) w of
        (Some e, w1) \<Rightarrow> (Inl (DialFailed (snapName n) e), w1)
      | (None, w1) \<Rightarrow> (Inr (), w1))"

section \<open>\<^verbatim>\<open>clusterMoveSlots\<close>\<close>

definition setSlotCmd :: "'w net \<Rightarrow> endpoint \<Rightarrow> nat \<Rightarrow> string \<Rightarrow> string \<Rightarrow> 'w \<Rightarrow> (moveError + unit) \<times> 'w" where
  "setSlotCmd net to slot what nodeID =
     command net to [''SETSLOT'', Itoa (int slot), what, nodeID] (SendFailed what slot) (Refused what slot)"

fun stringElems :: "smart list \<Rightarrow> string list option" where
  "stringElems [] = Some []"
| "stringElems (SStr key # rest) = map_option (\<lambda>ks. key # ks) (stringElems rest)"
| "stringElems (_ # rest) = None"

definition CLUSTER_SETSLOT_BATCH_SIZE :: int where "CLUSTER_SETSLOT_BATCH_SIZE = 10"

definition MIGRATE_TIMEOUT :: int where "MIGRATE_TIMEOUT = 5000"

definition keysInSlot :: "'w net \<Rightarrow> nat \<Rightarrow> 'w \<Rightarrow> (moveError + string list) \<times> 'w" where
  "keysInSlot net slot w =
     (case net_write net ToSource [''GETKEYSINSLOT'', Itoa (int slot), Itoa CLUSTER_SETSLOT_BATCH_SIZE] w of
        (Some e, w1) \<Rightarrow> (Inl (SendFailed ''GETKEYSINSLOT'' slot e), w1)
      | (None, w1) \<Rightarrow>
          (case net_read net ToSource w1 of
             (Inl e, w2) \<Rightarrow> (Inl (KeysUnread slot e), w2)
           | (Inr (SArr rawKeys), w2) \<Rightarrow>
               (case stringElems rawKeys of None \<Rightarrow> (Inl (KeysNoString slot), w2) | Some ks \<Rightarrow> (Inr ks, w2))
           | (Inr result, w2) \<Rightarrow> (Inl (KeysNoArray slot result), w2)))"

definition migrateBatch :: "'w net \<Rightarrow> NodeSnapshot \<Rightarrow> nat \<Rightarrow> string list \<Rightarrow> 'w \<Rightarrow> (moveError + unit) \<times> 'w" where
  "migrateBatch net target slot ks =
     andThen
       (command net ToSource
          ([''MIGRATE'', snapHost target, Itoa (snapClientPort target), [], ''0'', Itoa MIGRATE_TIMEOUT, ''KEYS''] @ ks)
          (SendFailed ''MIGRATE'' slot) (Refused ''MIGRATE'' slot))
       (\<lambda>_. command net ToSource (''DELETE'' # ks) (SendFailed ''DELETE'' slot) (Refused ''DELETE'' slot))"

text \<open>The loop over batches of keys: it ends when the source reports no more of them.\<close>

partial_function (option) drainSlot :: "'w net \<Rightarrow> NodeSnapshot \<Rightarrow> nat \<Rightarrow> 'w \<Rightarrow> ((moveError + unit) \<times> 'w) option" where
  "drainSlot net target slot w =
     (case keysInSlot net slot w of
        (Inl e, w1) \<Rightarrow> Some (Inl e, w1)
      | (Inr ks, w1) \<Rightarrow>
          if ks = [] then Some (Inr (), w1)
          else (case migrateBatch net target slot ks w1 of
                  (Inl e, w2) \<Rightarrow> Some (Inl e, w2)
                | (Inr _, w2) \<Rightarrow> drainSlot net target slot w2))"

text \<open>The map of the nodes is iterated once for every slot, each time in an order of its own: an \<open>entryOrder\<close> gives the entries in
  the order used for a slot.\<close>

type_synonym entryOrder = "nat \<Rightarrow> (string \<times> ClusterNode option) list"

text \<open>The loop that tells every other node of the new owner.\<close>

fun announce :: "'w net \<Rightarrow> NodeSnapshot \<Rightarrow> NodeSnapshot \<Rightarrow> nat \<Rightarrow> (string \<times> ClusterNode option) list \<Rightarrow> 'w \<Rightarrow> (moveError + unit) \<times> 'w" where
  "announce net source target slot [] w = (Inr (), w)"
| "announce net source target slot ((name, None) # rest) w = (Inl (NilNode name), w)"
| "announce net source target slot ((name, Some n) # rest) w =
     (let node = Snapshot n
      in if snapName node = snapName target \<or> snapName node = snapName source then announce net source target slot rest w
         else if snapHost node = [] then (Inl (NoHost (snapName node)), w)
         else andThen (dialNode net ToNode node)
                (\<lambda>_. andThen (setSlotCmd net ToNode slot ''NODE'' (snapName target)) (\<lambda>_. announce net source target slot rest)) w)"

definition moveSlot :: "'w net \<Rightarrow> (string \<times> ClusterNode option) list \<Rightarrow> NodeSnapshot \<Rightarrow> NodeSnapshot \<Rightarrow> nat \<Rightarrow> 'w
    \<Rightarrow> ((moveError + unit) \<times> 'w) option" where
  "moveSlot net nodes source target slot w =
     (case andThen (setSlotCmd net ToTarget slot ''IMPORTING'' (snapName source))
             (\<lambda>_. setSlotCmd net ToSource slot ''MIGRATING'' (snapName target)) w of
        (Inl e, w1) \<Rightarrow> Some (Inl e, w1)
      | (Inr _, w1) \<Rightarrow>
          (case drainSlot net target slot w1 of
             None \<Rightarrow> None
           | Some (Inl e, w2) \<Rightarrow> Some (Inl e, w2)
           | Some (Inr _, w2) \<Rightarrow>
               Some (andThen (setSlotCmd net ToTarget slot ''NODE'' (snapName target))
                      (\<lambda>_. andThen (setSlotCmd net ToSource slot ''NODE'' (snapName target))
                        (\<lambda>_. announce net source target slot nodes)) w2)))"

fun moveSlotsLoop :: "'w net \<Rightarrow> entryOrder \<Rightarrow> NodeSnapshot \<Rightarrow> NodeSnapshot \<Rightarrow> nat list \<Rightarrow> 'w
    \<Rightarrow> ((moveError + unit) \<times> 'w) option" where
  "moveSlotsLoop net nodes source target [] w = Some (Inr (), w)"
| "moveSlotsLoop net nodes source target (slot # rest) w =
     (case moveSlot net (nodes slot) source target slot w of
        None \<Rightarrow> None
      | Some (Inl e, w1) \<Rightarrow> Some (Inl e, w1)
      | Some (Inr _, w1) \<Rightarrow> moveSlotsLoop net nodes source target rest w1)"

definition clusterMoveSlots :: "'w net \<Rightarrow> ClusterNode \<Rightarrow> ClusterNode \<Rightarrow> nat list \<Rightarrow> int \<Rightarrow> entryOrder \<Rightarrow> 'w
    \<Rightarrow> ((moveError + int) \<times> 'w) option" where
  "clusterMoveSlots net source target slots numslots nodes w =
     (if numslots \<le> 0 then Some (Inr 1, w)
      else if numslots > int (length slots) then Some (Inl (TooFewSlots numslots (length slots)), w)
      else let s = Snapshot source; t = Snapshot target
           in if snapHost s = [] then Some (Inl (NoHost (snapName s)), w)
              else if snapHost t = [] then Some (Inl (NoHost (snapName t)), w)
              else case andThen (dialNode net ToTarget t) (\<lambda>_. dialNode net ToSource s) w of
                     (Inl e, w1) \<Rightarrow> Some (Inl e, w1)
                   | (Inr _, w1) \<Rightarrow>
                       (case moveSlotsLoop net nodes s t (take (nat numslots) (sort slots)) w1 of
                          None \<Rightarrow> None
                        | Some (Inl e, w2) \<Rightarrow> Some (Inl e, w2)
                        | Some (Inr _, w2) \<Rightarrow> Some (Inr 1, w2)))"
section \<open>\<^verbatim>\<open>ClusterRebalanceNodes\<close>\<close>

datatype rebalanceError = NoNodes | NodeIsNil string | TooFewOwned string nat int | MoveFailed nat string string moveError
  | MoveResult string string int

text \<open>\<^verbatim>\<open>sort.Slice\<close> sorts by a strict order, in no particular order among equals: it is the parameter \<open>srt\<close>.\<close>

type_synonym sortSlice = "(ClusterNode \<Rightarrow> ClusterNode \<Rightarrow> bool) \<Rightarrow> ClusterNode list \<Rightarrow> ClusterNode list"

definition byName :: "ClusterNode \<Rightarrow> ClusterNode \<Rightarrow> bool" where
  "byName a b \<longleftrightarrow> Name a < Name b"

definition byBalance :: "ClusterNode \<Rightarrow> ClusterNode \<Rightarrow> bool" where
  "byBalance a b \<longleftrightarrow> sint (balance a) < sint (balance b)"

fun collectNodes :: "(string \<times> ClusterNode option) list \<Rightarrow> ClusterNode list \<Rightarrow> rebalanceError + ClusterNode list" where
  "collectNodes [] nodes = Inr nodes"
| "collectNodes ((name, None) # rest) nodes = Inl (NodeIsNil name)"
| "collectNodes ((name, Some n) # rest) nodes = collectNodes rest (nodes @ [n])"

definition target_of :: "nat \<Rightarrow> nat \<Rightarrow> nat" where
  "target_of n i = CLUSTER_SLOTS div n + (if i < CLUSTER_SLOTS mod n then 1 else 0)"

definition setBalances :: "ClusterNode list \<Rightarrow> ClusterNode list" where
  "setBalances nodes =
     map (\<lambda>(i, node). SetBalance (of_int (NumSlots node) - of_nat (target_of (length nodes) i)) node) (enumerate 0 nodes)"

definition bumpZero :: "32 word \<Rightarrow> ClusterNode \<Rightarrow> ClusterNode" where
  "bumpZero delta n = (if balance n = 0 then AdjustBalance delta n else n)"

text \<open>The loop over pairs of the emptiest and the fullest node; \<open>result\<close> says whether a transfer was made already.\<close>

function rebalanceLoop :: "'w net \<Rightarrow> entryOrder \<Rightarrow> nat \<Rightarrow> nat \<Rightarrow> ClusterNode list \<Rightarrow> int \<Rightarrow> 'w
    \<Rightarrow> ((rebalanceError + int) \<times> 'w) option" where
  "rebalanceLoop net stateNodes dstIdx srcIdx nodes result w =
     (if dstIdx < srcIdx then
        (let dstNode = nodes ! dstIdx; srcNode = nodes ! srcIdx;
             numslots = (if sint (balance dstNode) > sint (balance srcNode) then sint (balance dstNode) else sint (balance srcNode))
         in if numslots > 0 then
              (let moved = clusterComputeReshardTable numslots srcNode
               in if int (length moved) \<noteq> numslots \<and> result = 0
                  then Some (Inl (TooFewOwned (Name srcNode) (length moved) numslots), w)
                  else let nodes' = (if int (length moved) \<noteq> numslots
                                     then nodes[dstIdx := bumpZero 1 (AdjustBalance (of_int numslots) dstNode),
                                                srcIdx := bumpZero (- 1) (AdjustBalance (- of_int numslots) srcNode)]
                                     else nodes)
                       in case clusterMoveSlots net srcNode dstNode moved (int (length moved)) stateNodes w of
                            None \<Rightarrow> None
                          | Some (Inl e, w1) \<Rightarrow> Some (Inl (MoveFailed (length moved) (Name srcNode) (Name dstNode) e), w1)
                          | Some (Inr moveResult, w1) \<Rightarrow>
                              if moveResult \<noteq> 1 then Some (Inl (MoveResult (Name srcNode) (Name dstNode) moveResult), w1)
                              else rebalanceLoop net stateNodes (dstIdx + 1) (srcIdx - 1) nodes' moveResult w1)
            else rebalanceLoop net stateNodes (dstIdx + 1) (srcIdx - 1) nodes result w)
      else Some (Inr 1, w))"
  by pat_completeness auto
termination by (relation "measure (\<lambda>(net, stateNodes, dstIdx, srcIdx, nodes, result, w). srcIdx - dstIdx)") auto

declare rebalanceLoop.simps [simp del]

definition ClusterRebalanceNodes :: "'w net \<Rightarrow> sortSlice \<Rightarrow> (string \<times> ClusterNode option) list \<Rightarrow> entryOrder \<Rightarrow> 'w
    \<Rightarrow> ((rebalanceError + int) \<times> 'w) option" where
  "ClusterRebalanceNodes net srt stateNodes ord w =
     (if length stateNodes = 0 then Some (Inl NoNodes, w)
      else case collectNodes stateNodes [] of
             Inl e \<Rightarrow> Some (Inl e, w)
           | Inr nodes \<Rightarrow>
               (let sorted = srt byBalance (setBalances (srt byName nodes))
                in rebalanceLoop net ord 0 (length sorted - 1) sorted 0 w))"

section \<open>\<^verbatim>\<open>utils/progress.go\<close>\<close>

definition progressBar :: "int \<Rightarrow> int \<Rightarrow> nat \<Rightarrow> string" where
  "progressBar made all width =
     (let all' = (if all < 1 then 1 else all);
          made0 = (if made < 0 then 0 else made);
          made' = (if made0 > all' then all' else made0);
          filled = nat (made' * int width div all')
      in replicate filled (CHR ''#'') @ replicate (width - filled) (CHR ''-''))"

definition shortNodeName :: "string \<Rightarrow> string" where
  "shortNodeName name = (if length name > 8 then take 8 name else name)"

text \<open>\<^verbatim>\<open>strings.Repeat\<close> never sees a negative count: the bar is exactly as wide as asked for.\<close>

lemma progressBar_width: "length (progressBar made all width) = width"
proof -
  have "nat (d * int width div t) \<le> width" if "0 \<le> d" "d \<le> t" "1 \<le> t" for d t
    using that zdiv_mono1 [of "d * int width" "t * int width" t] by (simp add: mult_right_mono nat_le_iff)
  then have "nat ((if (if made < 0 then 0 else made) > (if all < 1 then 1 else all) then if all < 1 then 1 else all
      else if made < 0 then 0 else made) * int width div (if all < 1 then 1 else all)) \<le> width" by simp
  then show ?thesis unfolding progressBar_def Let_def length_append length_replicate by linarith
qed

section \<open>The plan of a rebalancing\<close>

text \<open>What is documented of \<^verbatim>\<open>sort.Slice\<close>.\<close>

definition is_sort :: "sortSlice \<Rightarrow> bool" where
  "is_sort srt \<longleftrightarrow> (\<forall>xs. mset (srt byName xs) = mset xs \<and> sorted_wrt (\<lambda>a b. \<not> byName b a) (srt byName xs)
     \<and> mset (srt byBalance xs) = mset xs \<and> sorted_wrt (\<lambda>a b. \<not> byBalance b a) (srt byBalance xs))"

text \<open>The transfers, read off the list of the nodes in the order of their balances: the \<open>i\<close>-th from the end gives its whole
  surplus to the \<open>i\<close>-th from the front.\<close>

definition rebalancePlan :: "ClusterNode list \<Rightarrow> (ClusterNode \<times> ClusterNode \<times> nat list) list" where
  "rebalancePlan nodes =
     (let n = length nodes
      in map (\<lambda>i. let src = nodes ! (n - 1 - i)
                  in (src, nodes ! i, take (nat (sint (balance src))) (sorted_list_of_set (slots_of src))))
           (filter (\<lambda>i. sint (balance (nodes ! (n - 1 - i))) > 0) [0..<n div 2]))"

fun runPlan :: "'w net \<Rightarrow> entryOrder \<Rightarrow> (ClusterNode \<times> ClusterNode \<times> nat list) list \<Rightarrow> 'w
    \<Rightarrow> ((rebalanceError + int) \<times> 'w) option" where
  "runPlan net stateNodes [] w = Some (Inr 1, w)"
| "runPlan net stateNodes ((src, dst, slots) # rest) w =
     (case clusterMoveSlots net src dst slots (int (length slots)) stateNodes w of
        None \<Rightarrow> None
      | Some (Inl e, w1) \<Rightarrow> Some (Inl (MoveFailed (length slots) (Name src) (Name dst) e), w1)
      | Some (Inr _, w1) \<Rightarrow> runPlan net stateNodes rest w1)"

lemma collectNodes_all: "collectNodes (map (\<lambda>n. (key n, Some n)) ns) acc = Inr (acc @ ns)"
  by (induction ns arbitrary: acc) simp_all

lemma balance_exact:
  assumes "0 \<le> k" "k \<le> 16384" "t \<le> 16384"
  shows "sint (of_int k - of_nat t :: 32 word) = k - int t"
proof -
  have "of_int k - of_nat t = (of_int (k - int t) :: 32 word)" by simp
  moreover have "signed_take_bit 31 (k - int t) = k - int t" using assms by (intro signed_take_bit_int_eq_self) simp_all
  ultimately show ?thesis by (simp only: signed_of_int) simp
qed

lemma target_bound: "0 < n \<Longrightarrow> target_of n i \<le> 16384"
proof -
  assume n: "0 < n"
  have "16384 div n \<le> 16384 div n * n" using n by simp
  moreover have "(if i < 16384 mod n then 1 else 0) \<le> 16384 mod n" by simp
  ultimately have "16384 div n + (if i < 16384 mod n then 1 else 0) \<le> 16384 div n * n + 16384 mod n" by (rule add_mono)
  then show ?thesis by (simp add: target_of_def CLUSTER_SLOTS_def)
qed

text \<open>The targets add up to all the slots.\<close>

lemma sum_targets: "0 < n \<Longrightarrow> (\<Sum>i<n. target_of n i) = 16384"
proof -
  assume n: "0 < n"
  have "(\<Sum>i<n. if i < 16384 mod n then 1 else (0 :: nat)) = card {i. i < n \<and> i < 16384 mod n}"
    by (simp add: sum.If_cases lessThan_def Int_def conj_commute)
  also have "{i. i < n \<and> i < 16384 mod n} = {..<16384 mod n}" using n mod_less_divisor [OF n, of 16384] by auto
  finally have "(\<Sum>i<n. target_of n i) = n * (16384 div n) + 16384 mod n"
    by (simp add: target_of_def CLUSTER_SLOTS_def sum.distrib)
  then show ?thesis by simp
qed

definition planFrom :: "ClusterNode list \<Rightarrow> nat \<Rightarrow> (ClusterNode \<times> ClusterNode \<times> nat list) list" where
  "planFrom nodes i0 =
     (let n = length nodes
      in map (\<lambda>i. let src = nodes ! (n - 1 - i)
                  in (src, nodes ! i, take (nat (sint (balance src))) (sorted_list_of_set (slots_of src))))
           (filter (\<lambda>i. sint (balance (nodes ! (n - 1 - i))) > 0) [i0..<n div 2]))"

lemma rebalancePlan_from: "rebalancePlan nodes = planFrom nodes 0"
  by (simp add: rebalancePlan_def planFrom_def)

lemma move_result: "clusterMoveSlots net s t slots k nodes w = Some (Inr r, w') \<Longrightarrow> r = 1"
  by (auto simp: clusterMoveSlots_def Let_def split: if_splits prod.splits sum.splits option.splits)

text \<open>On nodes with their balances in ascending order and none above what the node has, the loop is the plan.\<close>

lemma loop_is_plan:
  assumes wf: "\<forall>n \<in> set ns. node_wf n \<and> sint (balance n) \<le> NumSlots n"
    and srt: "sorted_wrt (\<lambda>a b. \<not> byBalance b a) ns"
    and i: "i \<le> length ns div 2"
  shows "rebalanceLoop net st i (length ns - 1 - i) ns result w = runPlan net st (planFrom ns i) w"
  using i
proof (induction "length ns div 2 - i" arbitrary: i result w)
  case 0
  then have "\<not> i < length ns - 1 - i" "[i..<length ns div 2] = []" by auto
  then show ?case by (simp add: rebalanceLoop.simps [of net st i] planFrom_def)
next
  case (Suc m)
  let ?n = "length ns"
  define j src dst slots where defs: "j = ?n - 1 - i" "src = ns ! j" "dst = ns ! i"
    "slots = take (nat (sint (balance src))) (sorted_list_of_set (slots_of src))"
  have lt: "i < ?n div 2" and ij: "i < j" "j < ?n" and j1: "j - Suc 0 = ?n - 1 - Suc i" using Suc.hyps(2) by (auto simp: defs(1))
  have IH: "rebalanceLoop net st (Suc i) (j - Suc 0) ns r w' = runPlan net st (planFrom ns (Suc i)) w'" for r w'
    using Suc.hyps(1) [of "Suc i" r w'] Suc.hyps(2) lt j1 by simp
  have le: "\<not> sint (balance dst) > sint (balance src)"
    using sorted_wrt_nth_less [OF srt ij] by (simp add: byBalance_def defs)
  have s: "node_wf src" "sint (balance src) \<le> NumSlots src" using wf ij(2) by (simp_all add: nth_mem defs(2))
  have table: "clusterComputeReshardTable (sint (balance src)) src = slots"
    unfolding defs(4) by (rule reshard_table_spec [OF s(1)])
  have len: "int (length slots) = sint (balance src)" if "0 < sint (balance src)"
    using that s(2) node_wf_NumSlots [OF s(1)] by (simp add: defs(4))
  have "[i..<?n div 2] = i # [i + 1..<?n div 2]" using lt by (simp add: upt_conv_Cons)
  then have plan: "planFrom ns i = (if 0 < sint (balance src) then [(src, dst, slots)] else []) @ planFrom ns (Suc i)"
    by (simp add: planFrom_def Let_def defs)
  have loop: "rebalanceLoop net st i j ns result w =
      (if 0 < sint (balance src) then
         (case clusterMoveSlots net src dst slots (int (length slots)) st w of
            None \<Rightarrow> None
          | Some (Inl e, w1) \<Rightarrow> Some (Inl (MoveFailed (length slots) (Name src) (Name dst) e), w1)
          | Some (Inr _, w1) \<Rightarrow> runPlan net st (planFrom ns (Suc i)) w1)
       else runPlan net st (planFrom ns (Suc i)) w)"
    using ij(1) le len
    by (subst rebalanceLoop.simps)
      (simp add: Let_def IH table defs(2,3) [symmetric] move_result split: option.split prod.split sum.split)
  show ?case unfolding defs(1) [symmetric] loop plan by simp
qed

lemma card_slots: "node_wf n \<Longrightarrow> card (slots_of n) \<le> 16384"
proof -
  assume "node_wf n"
  then have "slots_of n \<subseteq> {..<16384}" using owned_bound [of "OwnedSlots n"] by (auto simp: node_wf_def slots_of_def)
  then show ?thesis using card_mono [of "{..<16384 :: nat}"] by fastforce
qed

lemma SetBalance_simps [simp]:
  "node_wf (SetBalance b n) = node_wf n" "slots_of (SetBalance b n) = slots_of n" "balance (SetBalance b n) = b"
  "NumSlots (SetBalance b n) = NumSlots n" "Name (SetBalance b n) = Name n"
  by (simp_all add: SetBalance_def node_wf_def slots_of_def)

text \<open>The nodes with their balances, in any order: each is over or under the share of its place in the order of the names.\<close>

lemma balanced_nodes:
  assumes "is_sort srt" "\<forall>n \<in> set ns. node_wf n" "m \<in> set (srt byBalance (setBalances (srt byName ns)))"
  shows "\<exists>i < length ns. Name m = Name (srt byName ns ! i) \<and> node_wf m
     \<and> sint (balance m) = int (card (slots_of m)) - int (target_of (length ns) i)"
proof -
  let ?ns = "srt byName ns"
  have len: "length ?ns = length ns" and set: "set ?ns = set ns" "set (srt byBalance xs) = set xs" for xs
    using assms(1) unfolding is_sort_def by (metis mset_eq_length, metis mset_eq_setD, metis mset_eq_setD)
  obtain i where i: "i < length ns" "m = SetBalance (of_int (NumSlots (?ns ! i)) - of_nat (target_of (length ns) i)) (?ns ! i)"
    using assms(3) by (auto simp: set setBalances_def len in_set_enumerate_eq)
  have wf: "node_wf (?ns ! i)" using assms(2) i(1) len set(1) by (metis nth_mem)
  have "0 < length ns" using i(1) by linarith
  have "sint (balance m) = NumSlots (?ns ! i) - int (target_of (length ns) i)"
    unfolding i(2) SetBalance_simps
    by (rule balance_exact) (use card_slots [OF wf] target_bound [OF \<open>0 < length ns\<close>] node_wf_NumSlots [OF wf] in auto)
  then have "sint (balance m) = int (card (slots_of m)) - int (target_of (length ns) i)"
    using node_wf_NumSlots [OF wf] i(2) by simp
  with i wf show ?thesis by (intro exI [of _ i]) simp
qed

lemma sorted_nodes:
  assumes "is_sort srt" "\<forall>n \<in> set ns. node_wf n" "xs = srt byBalance (setBalances (srt byName ns))"
  shows "length xs = length ns" "sorted_wrt (\<lambda>a b. \<not> byBalance b a) xs" "\<forall>n \<in> set xs. node_wf n \<and> sint (balance n) \<le> NumSlots n"
proof -
  have "mset (srt byBalance ys) = mset ys" "mset (srt byName ys) = mset ys" for ys using assms(1) by (simp_all add: is_sort_def)
  then have "length (srt byBalance ys) = length ys" "length (srt byName ys) = length ys" for ys by (metis mset_eq_length)+
  then show "length xs = length ns" by (simp add: assms(3) setBalances_def)
  show "sorted_wrt (\<lambda>a b. \<not> byBalance b a) xs" using assms(1,3) by (simp add: is_sort_def)
  show "\<forall>n \<in> set xs. node_wf n \<and> sint (balance n) \<le> NumSlots n"
  proof
    fix n
    assume "n \<in> set xs"
    from balanced_nodes [OF assms(1,2)] this show "node_wf n \<and> sint (balance n) \<le> NumSlots n"
      unfolding assms(3) using node_wf_NumSlots by fastforce
  qed
qed

lemma plan_transfer:
  assumes "is_sort srt" "\<forall>n \<in> set ns. node_wf n" "xs = srt byBalance (setBalances (srt byName ns))"
    and plan: "(src, dst, slots) \<in> set (rebalancePlan xs)"
  shows "set slots \<subseteq> slots_of src \<and> sorted slots \<and> distinct slots \<and> slots \<noteq> []
     \<and> (\<exists>i < length ns. Name src = Name (srt byName ns ! i) \<and> card (slots_of src - set slots) = target_of (length ns) i)"
proof -
  obtain k where k: "k < length xs div 2" "src = xs ! (length xs - 1 - k)" "0 < sint (balance src)"
    and slots: "slots = take (nat (sint (balance src))) (sorted_list_of_set (slots_of src))"
    using plan unfolding rebalancePlan_def Let_def by auto
  have "length xs - 1 - k < length xs" using k(1) by linarith
  then have "src \<in> set xs" unfolding k(2) by (rule nth_mem)
  then obtain i where i: "i < length ns" "Name src = Name (srt byName ns ! i)" "node_wf src"
    "sint (balance src) = int (card (slots_of src)) - int (target_of (length ns) i)"
    using balanced_nodes [OF assms(1,2)] unfolding assms(3) by blast
  have sub: "set slots \<subseteq> slots_of src" "distinct slots" "sorted slots"
    using set_take_subset [of _ "sorted_list_of_set (slots_of src)"] by (simp_all add: slots sorted_wrt_take)
  have len: "length slots = nat (sint (balance src))" using i(4) by (simp add: slots)
  then have "slots \<noteq> []" using k(3) by auto
  moreover have "card (slots_of src - set slots) = card (slots_of src) - length slots"
    using sub by (simp add: card_Diff_subset distinct_card)
  then have "card (slots_of src - set slots) = target_of (length ns) i" using i(4) len k(3) by linarith
  ultimately show ?thesis using sub i by blast
qed

section \<open>Properties\<close>

text \<open>C33: rebalancing carries out a plan computed beforehand from the nodes, one transfer after the other, up to the first
  error. Every transfer takes the lowest slots of a node that has too many, exactly as many as leave it its
  share; the shares differ by at most one and add up to 16384. But there are at most half as many
  transfers as nodes, each to one node whatever that lacks: of three nodes at most one is ever relieved.\<close>

theorem rebalance_is_plan:
  assumes "is_sort srt" "ns \<noteq> []" "\<forall>n \<in> set ns. node_wf n"
  shows "let st = map (\<lambda>n. (Name n, Some n)) ns; plan = rebalancePlan (srt byBalance (setBalances (srt byName ns)))
     in ClusterRebalanceNodes net srt st ord w = runPlan net ord plan w
      \<and> (\<forall>(src, dst, slots) \<in> set plan. set slots \<subseteq> slots_of src \<and> sorted slots \<and> distinct slots \<and> slots \<noteq> []
           \<and> (\<exists>i < length ns. Name src = Name (srt byName ns ! i) \<and> card (slots_of src - set slots) = target_of (length ns) i))
      \<and> (\<Sum>i < length ns. target_of (length ns) i) = 16384 \<and> length plan \<le> length ns div 2"
proof -
  define xs where "xs = srt byBalance (setBalances (srt byName ns))"
  note sorted = sorted_nodes [OF assms(1,3) xs_def]
  have n: "0 < length ns" using assms(2) by simp
  have run: "ClusterRebalanceNodes net srt (map (\<lambda>n. (Name n, Some n)) ns) ord w
      = runPlan net ord (rebalancePlan xs) w"
    unfolding ClusterRebalanceNodes_def collectNodes_all rebalancePlan_from Let_def
    using loop_is_plan [OF sorted(3,2), of 0] n by (simp add: xs_def)
  have plan: "\<forall>(src, dst, slots) \<in> set (rebalancePlan xs). set slots \<subseteq> slots_of src \<and> sorted slots \<and> distinct slots \<and> slots \<noteq> []
      \<and> (\<exists>i < length ns. Name src = Name (srt byName ns ! i) \<and> card (slots_of src - set slots) = target_of (length ns) i)"
    using plan_transfer [OF assms(1,3) xs_def] by blast
  have "length (rebalancePlan xs) \<le> length ns div 2"
    unfolding rebalancePlan_def Let_def length_map sorted(1) by (rule order_trans [OF length_filter_le]) simp
  then show ?thesis
    unfolding Let_def xs_def [symmetric] using run plan sum_targets [OF n] by (intro conjI)
qed

text \<open>Insertion sort is a \<^verbatim>\<open>sort.Slice\<close>.\<close>

fun insertBy :: "('a \<Rightarrow> 'a \<Rightarrow> bool) \<Rightarrow> 'a \<Rightarrow> 'a list \<Rightarrow> 'a list" where
  "insertBy lt x [] = [x]"
| "insertBy lt x (y # ys) = (if lt y x then y # insertBy lt x ys else x # y # ys)"

definition exSort :: sortSlice where
  "exSort lt xs = foldr (insertBy lt) xs []"

lemma insertBy_mset: "mset (insertBy lt x ys) = add_mset x (mset ys)"
  by (induction ys) auto

lemma insertBy_sorted:
  fixes f :: "'a \<Rightarrow> 'b :: linorder"
  assumes "lt = (\<lambda>a b. f a < f b)" "sorted_wrt (\<lambda>a b. \<not> lt b a) ys"
  shows "sorted_wrt (\<lambda>a b. \<not> lt b a) (insertBy lt x ys)"
  using assms(2)
proof (induction ys)
  case (Cons y ys)
  have "set (insertBy lt x ys) = insert x (set ys)" using insertBy_mset [of lt x ys] by (metis set_mset_add_mset_insert set_mset_mset)
  with Cons show ?case unfolding assms(1) by (auto simp: not_less intro: order_trans)
qed simp

lemma exSort_sorts: "is_sort exSort"
proof -
  have "mset (exSort lt xs) = mset xs" for lt xs by (induction xs) (auto simp: exSort_def insertBy_mset)
  moreover have "sorted_wrt (\<lambda>a b. \<not> byName b a) (exSort byName xs)" for xs
  proof (induction xs)
    case (Cons x xs)
    then show ?case using insertBy_sorted [of byName Name] byName_def [abs_def] by (simp add: exSort_def)
  qed (simp add: exSort_def)
  moreover have "sorted_wrt (\<lambda>a b. \<not> byBalance b a) (exSort byBalance xs)" for xs
  proof (induction xs)
    case (Cons x xs)
    then show ?case using insertBy_sorted [of byBalance "\<lambda>n. sint (balance n)"] byBalance_def [abs_def] by (simp add: exSort_def)
  qed (simp add: exSort_def)
  ultimately show ?thesis by (simp add: is_sort_def)
qed

text \<open>A network in which nobody answers.\<close>

definition deadNet :: "unit net" where
  "deadNet = \<lparr>net_dial = (\<lambda>_ _ w. (Some ''connection refused'', w)), net_write = (\<lambda>_ _ w. (Some ''closed'', w)),
     net_read = (\<lambda>_ w. (Inl ''EOF'', w))\<rparr>"

text \<open>One node with every slot and a new one: the plan is to move the lower half.\<close>

theorem rebalance_is_plan_witness:
  "\<exists>a. AddSlotRange 0 16383 (NewNode ''a'' 7000 ''h'' 0 False) = Some a \<and>
     (let ns = [a, NewNode ''b'' 7001 ''h'' 0 False]; st = map (\<lambda>n. (Name n, Some n)) ns;
          plan = rebalancePlan (exSort byBalance (setBalances (exSort byName ns)))
      in ClusterRebalanceNodes deadNet exSort st (\<lambda>_. st) () = runPlan deadNet (\<lambda>_. st) plan () \<and> length plan \<le> 1
         \<and> target_of 2 0 + target_of 2 1 = 16384)"
proof -
  let ?b = "NewNode ''b'' 7001 ''h'' 0 False"
  obtain a where a: "AddSlotRange 0 16383 (NewNode ''a'' 7000 ''h'' 0 False) = Some a" "node_wf a"
    using AddSlotRange_spec [OF NewNode_wf(1), of 16383 0 "''a''" 7000 "''h''" 0 False] by auto
  have "[a, ?b] \<noteq> []" "\<forall>n \<in> set [a, ?b]. node_wf n" using a(2) NewNode_wf(1) by auto
  from rebalance_is_plan [OF exSort_sorts this, of deadNet "\<lambda>_. map (\<lambda>n. (Name n, Some n)) [a, ?b]" "()"] a(1) show ?thesis
    by (intro exI [of _ a]) (simp add: Let_def numeral_2_eq_2)
qed

end
