(* ===== verification/Server_World.thy ===== *)
theory Server_World
  imports Server_Replies Cluster_Rebalance
begin

text \<open>
  Several servers and a client: the network parameter of the client programs is put together from the model of the server. A
  \<open>world\<close> has a server process at some addresses and the connections a client holds, with the bytes it has not read yet; a
  command goes through the encoder, the request reader and the dispatcher of the server at the other end, and its replies through
  the reference decoder. On this world the theorems follow \<^verbatim>\<open>clusterMoveSlots\<close> from end to end.
\<close>

section \<open>The world\<close>

record 'c world =
  srv :: "string \<Rightarrow> server option"
  conn :: "'c \<Rightarrow> string option"
  connSubs :: "'c \<Rightarrow> subs"
  inbox :: "'c \<Rightarrow> string"

definition simDial :: "'c \<Rightarrow> string \<Rightarrow> 'c world \<Rightarrow> string option \<times> 'c world" where
  "simDial c addr w =
     (case srv w addr of
        None \<Rightarrow> (Some ''connection refused'', w)
      | Some _ \<Rightarrow> (None, w\<lparr>conn := (conn w)(c \<mapsto> addr), connSubs := (connSubs w)(c := GoMap []), inbox := (inbox w)(c := [])\<rparr>))"

text \<open>A command that stops the process takes its address away; one that cannot be read is answered with the error.\<close>

definition simWrite :: "ctx \<Rightarrow> 'c \<Rightarrow> string list \<Rightarrow> 'c world \<Rightarrow> string option \<times> 'c world" where
  "simWrite cx c args w =
     (case conn w c of
        None \<Rightarrow> (Some ''closed'', w)
      | Some addr \<Rightarrow>
          (case srv w addr of
             None \<Rightarrow> (Some ''connection reset'', w)
           | Some sv \<Rightarrow>
               (case Next \<lparr>rd = WriteArrayString args, rerr = None, lims = connLimits\<rparr> of
                  (_, Inl e) \<Rightarrow> (None, w\<lparr>inbox := (inbox w)(c := inbox w c @ WriteError (rdError_text e)), conn := (conn w)(c := None)\<rparr>)
                | (_, Inr words) \<Rightarrow>
                    (case runCommand cx True words sv (connSubs w c) of
                       None \<Rightarrow> (None, w\<lparr>srv := (srv w)(addr := None)\<rparr>)
                     | Some (sv', sb', rs, go) \<Rightarrow>
                         (None, w\<lparr>srv := (srv w)(addr \<mapsto> sv'), connSubs := (connSubs w)(c := sb'),
                                  inbox := (inbox w)(c := inbox w c @ concat rs)\<rparr>)))))"

definition simRead :: "'c \<Rightarrow> 'c world \<Rightarrow> (string + respValue) \<times> 'c world" where
  "simRead c w =
     (case readValue 4 (inbox w c) of
        None \<Rightarrow> (Inl ''EOF'', w)
      | Some (v, rest) \<Rightarrow> (Inr v, w\<lparr>inbox := (inbox w)(c := rest)\<rparr>))"

text \<open>What \<^verbatim>\<open>SmartResult\<close> makes of a value, as far as \<^verbatim>\<open>ExpectStringResponse\<close> and \<^verbatim>\<open>clusterMoveSlots\<close> look at it.\<close>

fun toSmart :: "respValue \<Rightarrow> smart" where
  "toSmart (RStr s) = SStr s"
| "toSmart (RErr e) = SErr e"
| "toSmart (RArr vs) = SArr (map toSmart vs)"
| "toSmart v = SOther ''value''"

definition simNet :: "ctx \<Rightarrow> endpoint world net" where
  "simNet cx = \<lparr>net_dial = simDial, net_write = simWrite cx,
     net_read = (\<lambda>c w. case simRead c w of (Inl e, w') \<Rightarrow> (Inl e, w') | (Inr v, w') \<Rightarrow> (Inr (toSmart v), w'))\<rparr>"

section \<open>One command\<close>

abbreviation setServer :: "'c \<Rightarrow> string \<Rightarrow> server \<Rightarrow> subs \<Rightarrow> 'c world \<Rightarrow> 'c world" where
  "setServer c addr sv sb w \<equiv> w\<lparr>srv := (srv w)(addr \<mapsto> sv), connSubs := (connSubs w)(c := sb)\<rparr>"

text \<open>The connection \<open>c\<close> leads to a live server and nothing is waiting on it.\<close>

definition talksTo :: "'c world \<Rightarrow> 'c \<Rightarrow> string \<Rightarrow> server \<Rightarrow> bool" where
  "talksTo w c addr sv \<longleftrightarrow> conn w c = Some addr \<and> srv w addr = Some sv \<and> inbox w c = []"

lemma Next_command: "cmd_ok connLimits args \<Longrightarrow>
    Next \<lparr>rd = WriteArrayString args, rerr = None, lims = connLimits\<rparr> = (\<lparr>rd = [], rerr = None, lims = connLimits\<rparr>, Inr args)"
  using nextLoop_roundtrip [of connLimits args "[]"] by (simp add: WriteArrayString_eq Next_def)

lemma sim_ask:
  assumes "talksTo w c addr sv" "cmd_ok connLimits args"
    and run: "runCommand cx True args sv (connSubs w c) = Some (sv', sb', [r], go)"
    and val: "readValue 4 (r @ []) = Some (v, [])"
  shows "\<exists>w1. simWrite cx c args w = (None, w1) \<and> simRead c w1 = (Inr v, setServer c addr sv' sb' w)"
proof -
  let ?w1 = "w\<lparr>srv := (srv w)(addr \<mapsto> sv'), connSubs := (connSubs w)(c := sb'), inbox := (inbox w)(c := r)\<rparr>"
  have "simWrite cx c args w = (None, ?w1)"
    using assms(1) run by (simp add: simWrite_def talksTo_def Next_command [OF assms(2)])
  moreover have "simRead c ?w1 = (Inr v, setServer c addr sv' sb' w)"
    using val assms(1) by (simp add: simRead_def talksTo_def fun_upd_idem)
  ultimately show ?thesis by blast
qed

lemma talksTo_setServer: "talksTo w c addr sv \<Longrightarrow> talksTo (setServer c addr sv' sb' w) c addr sv'"
  by (simp add: talksTo_def)

lemma talksTo_other: "talksTo w d addr2 sv2 \<Longrightarrow> addr \<noteq> addr2 \<Longrightarrow> talksTo (setServer c addr sv' sb' w) d addr2 sv2"
  by (simp add: talksTo_def)

text \<open>A command answered with \<^verbatim>\<open>OK\<close>, and one answered with an error.\<close>

lemma read_OK: "readValue 4 (WriteOK @ []) = Some (RStr ''OK'', [])"
  using readValue_line [of "''OK''" 3 "CHR ''+''" "[]"] by (simp add: WriteOK_def writeWithPrefix_def SanitizeSimpleString_def numeral_eq_Suc)

lemma read_Error: "readValue 4 (WriteError e @ []) = Some (RErr (''ERR '' @ SanitizeSimpleString e), [])"
  using read_error [of 3 e "[]"] by (simp add: numeral_eq_Suc)

lemma command_OK:
  assumes "talksTo w c addr sv" "cmd_ok connLimits args" "runCommand cx True args sv (connSubs w c) = Some (sv', sb', [WriteOK], go)"
  shows "command (simNet cx) c args f g w = (Inr (), setServer c addr sv' sb' w)"
  using sim_ask [OF assms read_OK] by (auto simp: command_def simNet_def ExpectStringResponse_def)

lemma command_error:
  assumes "talksTo w c addr sv" "cmd_ok connLimits args" "runCommand cx True args sv (connSubs w c) = Some (sv', sb', [WriteError e], go)"
  shows "command (simNet cx) c args f g w
    = (Inl (g (RespError (''ERR '' @ SanitizeSimpleString e))), setServer c addr sv' sb' w)"
  using sim_ask [OF assms read_Error] by (auto simp: command_def simNet_def ExpectStringResponse_def)

section \<open>\<^verbatim>\<open>SETSLOT\<close> over the network\<close>

definition ownSlots :: "server \<Rightarrow> nat set" where
  "ownSlots sv = (case svCluster sv of None \<Rightarrow> {} | Some s \<Rightarrow> slots_of (store s (self_ref s)))"

definition ownName :: "server \<Rightarrow> string" where
  "ownName sv = (case svCluster sv of None \<Rightarrow> [] | Some s \<Rightarrow> Name (store s (self_ref s)))"

definition knows :: "server \<Rightarrow> string \<Rightarrow> bool" where
  "knows sv name \<longleftrightarrow> (\<exists>s p. svCluster sv = Some s \<and> lookup (Nodes s) name = Some p)"

text \<open>Two states of one server between which only slots changed hands.\<close>

definition same_but_slots :: "server \<Rightarrow> server \<Rightarrow> bool" where
  "same_but_slots sv sv' \<longleftrightarrow> svKV sv' = svKV sv \<and> svPS sv' = svPS sv \<and> ownName sv' = ownName sv \<and> knows sv' = knows sv"

lemma same_but_slots_refl: "same_but_slots sv sv"
  by (simp add: same_but_slots_def)

lemma same_but_slots_trans: "same_but_slots a b \<Longrightarrow> same_but_slots b c \<Longrightarrow> same_but_slots a c"
  by (simp add: same_but_slots_def)

lemma set_slot_result:
  assumes "bus_wf s" "slot < 16384" "lookup (Nodes s) name = Some p" "ToLower ul what \<in> {''importing'', ''migrating'', ''node''}"
  shows "\<exists>s'. ClusterSetSlot ul [Itoa (int slot), what, name] s = Some (s', None) \<and> Nodes s' = Nodes s \<and> self_ref s' = self_ref s
     \<and> Name (store s' (self_ref s)) = Name (store s (self_ref s))
     \<and> slots_of (store s' (self_ref s)) =
         (if ToLower ul what = ''node''
          then if name = Name (store s (self_ref s)) then insert slot (slots_of (store s (self_ref s))) else slots_of (store s (self_ref s)) - {slot}
          else slots_of (store s (self_ref s)))"
proof -
  have wf: "cs_wf s" using assms(1) by (simp add: bus_wf_def)
  obtain r where r: "p = Some r" "Name (store s r) = name" using cs_wfD(7) [OF wf assms(3)] by blast
  have a: "Atoi (Itoa (int slot)) = Inr (int slot)"
    by (rule Atoi_Itoa) (use assms(2) in \<open>simp add: int64_ok_def MinInt64_def MaxInt64_def\<close>)
  obtain i m where im: "assign (Importing s) (int slot) p = Some i" "assign (Migrating s) (int slot) p = Some m"
    using assign_total [OF cs_wfD(5) [OF wf]] assign_total [OF cs_wfD(6) [OF wf]] by metis
  obtain n' where n': "ownEdit (name = Name (store s (self_ref s))) slot (store s (self_ref s)) = Some n'"
    "Name n' = Name (store s (self_ref s))"
    "slots_of n' = (if name = Name (store s (self_ref s)) then insert slot (slots_of (store s (self_ref s))) else slots_of (store s (self_ref s)) - {slot})"
    using ownEdit_spec [OF cs_wfD(8) [OF wf cs_wfD(2) [OF wf]] assms(2)] by blast
  then have n: "setSlotNode slot p s = Some (finishSlot slot r n' s)"
    unfolding r(1) by (intro setSlotNode_eq [OF cs_wfD(1) [OF wf]]) (simp add: r(2))
  have sr: "self_ref (s\<lparr>Importing := x\<rparr>) = self_ref s" "self_ref (s\<lparr>Migrating := x\<rparr>) = self_ref s" for x by (simp_all add: self_ref_def)
  show ?thesis
    using assms(2-4) a im n n'(2,3)
    by (auto simp: ClusterSetSlot_def GetNode_def comma_ok_def ImportingSlotsFrom_def MigratingSlotsTo_def sr)
qed

lemma lower_words [simp]:
  "ToLower ul ''IMPORTING'' = ''importing''" "ToLower ul ''MIGRATING'' = ''migrating''" "ToLower ul ''NODE'' = ''node''"
  "BytesToLower ''SETSLOT'' = ''setslot''" "BytesToLower ''GETKEYSINSLOT'' = ''getkeysinslot''" "BytesToLower ''MIGRATE'' = ''migrate''"
  "BytesToLower ''CLUSTER'' = ''cluster''"
  by (simp_all add: ToLower_def) code_simp+

text \<open>Names short enough for a bulk string of a request.\<close>

definition short :: "string \<Rightarrow> bool" where
  "short name \<longleftrightarrow> length name \<le> 1024"

lemma slot_text_short: "slot < 16384 \<Longrightarrow> length (Itoa (int slot)) \<le> 5"
  using utoa_length [of slot 5] by (simp add: Itoa_def)

lemma setslot_cmd:
  assumes "talksTo w c addr sv" "sv_inv cx True sv" "slot < 16384" "knows sv name" "short name"
    and "what \<in> {''IMPORTING'', ''MIGRATING'', ''NODE''}"
  shows "\<exists>sv'. setSlotCmd (simNet cx) c slot what name w = (Inr (), w\<lparr>srv := (srv w)(addr \<mapsto> sv')\<rparr>)
     \<and> sv_inv cx True sv' \<and> same_but_slots sv sv'
     \<and> ownSlots sv' = (if what = ''NODE'' then if name = ownName sv then insert slot (ownSlots sv) else ownSlots sv - {slot} else ownSlots sv)"
proof -
  obtain s p where s: "svCluster sv = Some s" "lookup (Nodes s) name = Some p" using assms(4) by (auto simp: knows_def)
  note bus = sv_invD(3) [OF assms(2) s(1)]
  have what: "ToLower (cx_lower cx) what \<in> {''importing'', ''migrating'', ''node''}" "ToLower (cx_lower cx) what = ''node'' \<longleftrightarrow> what = ''NODE''"
    using assms(6) by auto
  obtain s' where s': "ClusterSetSlot (cx_lower cx) [Itoa (int slot), what, name] s = Some (s', None)" "Nodes s' = Nodes s" "self_ref s' = self_ref s"
    "Name (store s' (self_ref s)) = Name (store s (self_ref s))"
    "slots_of (store s' (self_ref s)) = (if what = ''NODE''
       then if name = Name (store s (self_ref s)) then insert slot (slots_of (store s (self_ref s))) else slots_of (store s (self_ref s)) - {slot}
       else slots_of (store s (self_ref s)))"
    using set_slot_result [OF bus assms(3) s(2) what(1)] unfolding what(2) by blast
  have "bus_wf s'" using SetSlot_safe [OF bus] s'(1) by (metis option.inject prod.inject)
  then have inv: "sv_inv cx True (sv\<lparr>svCluster := Some s'\<rparr>)" by (rule sv_inv_cluster [OF assms(2)])
  have run: "runCommand cx True [''SETSLOT'', Itoa (int slot), what, name] sv (connSubs w c)
      = Some (sv\<lparr>svCluster := Some s'\<rparr>, connSubs w c, [WriteOK], True)"
    using s(1) s'(1) by (simp add: runCommand_def dispatch_def keyedCommands_def handleSetSlot_def)
  have "length what \<le> 9" using assms(6) by auto
  then have "cmd_ok connLimits [''SETSLOT'', Itoa (int slot), what, name]"
    using slot_text_short [OF assms(3)] assms(5) by (simp add: cmd_ok_def connLimits_def arg_total_def short_def)
  note cmd = command_OK [OF assms(1) this run]
  have "ownSlots (sv\<lparr>svCluster := Some s'\<rparr>) = (if what = ''NODE'' then if name = ownName sv then insert slot (ownSlots sv) else ownSlots sv - {slot} else ownSlots sv)"
    using s(1) s'(3-5) by (simp add: ownSlots_def ownName_def)
  moreover have "same_but_slots sv (sv\<lparr>svCluster := Some s'\<rparr>)"
    using s(1) s'(2-4) by (simp add: same_but_slots_def ownName_def knows_def fun_eq_iff)
  ultimately show ?thesis using inv cmd by (intro exI [of _ "sv\<lparr>svCluster := Some s'\<rparr>"]) (simp add: setSlotCmd_def)
qed

section \<open>The keys of a slot, and \<^verbatim>\<open>MIGRATE\<close>\<close>

definition keysAt :: "ctx \<Rightarrow> server \<Rightarrow> nat \<Rightarrow> string list" where
  "keysAt cx sv slot = GetKeysInSlot (cx_keys cx) (svKV sv) (of_nat slot) CLUSTER_SETSLOT_BATCH_SIZE"

lemma collectKeys_length: "int (length acc) \<le> cnt \<Longrightarrow> int (length (collectKeys cnt acc ks)) \<le> cnt"
  by (induction cnt acc ks rule: collectKeys.induct) auto

lemma keysAt_length: "length (keysAt cx sv slot) \<le> 10"
  using collectKeys_length [of "[]" 10] by (simp add: keysAt_def GetKeysInSlot_def CLUSTER_SETSLOT_BATCH_SIZE_def)

lemma stringElems_strings: "stringElems (map (toSmart \<circ> RStr) ks) = Some ks"
  by (induction ks) simp_all

lemma read_keys: "readValue 4 (WriteArrayString ks @ []) = Some (RArr (map RStr ks), [])"
  using read_array_header [of 3 "length ks" "concat (map WriteString ks) @ []"] read_strings [of 2 ks "[]"]
  by (simp add: WriteArrayString_def numeral_eq_Suc)

lemma keys_cmd:
  assumes "talksTo w ToSource addr sv" "slot < 16384"
  shows "keysInSlot (simNet cx) slot w = (Inr (keysAt cx sv slot), w)"
proof -
  have a: "Atoi (Itoa (int slot)) = Inr (int slot)" "Atoi (Itoa CLUSTER_SETSLOT_BATCH_SIZE) = Inr 10"
    by (rule Atoi_Itoa; use assms(2) in \<open>simp add: int64_ok_def MinInt64_def MaxInt64_def CLUSTER_SETSLOT_BATCH_SIZE_def\<close>)
      (simp add: Atoi_Itoa int64_ok_def MinInt64_def MaxInt64_def CLUSTER_SETSLOT_BATCH_SIZE_def)
  let ?cmd = "[''GETKEYSINSLOT'', Itoa (int slot), Itoa CLUSTER_SETSLOT_BATCH_SIZE]"
  have run: "runCommand cx True ?cmd sv (connSubs w ToSource)
      = Some (sv, connSubs w ToSource, [WriteArrayString (keysAt cx sv slot)], True)"
    using a by (simp add: runCommand_def dispatch_def keyedCommands_def handleGetKeysInSlot_def keysAt_def CLUSTER_SETSLOT_BATCH_SIZE_def)
  have "length (Itoa CLUSTER_SETSLOT_BATCH_SIZE) \<le> 5" using slot_text_short [of 10] by (simp add: CLUSTER_SETSLOT_BATCH_SIZE_def)
  then have "cmd_ok connLimits ?cmd"
    using slot_text_short [OF assms(2)] by (simp add: cmd_ok_def connLimits_def arg_total_def)
  from sim_ask [OF assms(1) this run read_keys] assms(1) show ?thesis
    by (auto simp: keysInSlot_def simNet_def talksTo_def stringElems_strings fun_upd_idem)
qed

definition migrateRefusal :: respErr where
  "migrateRefusal = RespError ''ERR Wrong number of arguments for 'MIGRATE' command''"

lemma migrate_cmd:
  assumes "talksTo w ToSource addr sv" "ks \<noteq> []" "length ks \<le> 10" "\<forall>k \<in> set ks. length k \<le> 65536"
    and "short (snapHost target)" "length (Itoa (snapClientPort target)) \<le> 20"
  shows "migrateBatch (simNet cx) target slot ks w = (Inl (Refused ''MIGRATE'' slot migrateRefusal), w)"
proof -
  let ?args = "[snapHost target, Itoa (snapClientPort target), [], ''0'', Itoa MIGRATE_TIMEOUT, ''KEYS''] @ ks"
  have "length ?args \<noteq> 6" using assms(2) by simp
  then have run: "runCommand cx True (''MIGRATE'' # ?args) sv (connSubs w ToSource)
      = Some (sv, connSubs w ToSource, [WriteError ''Wrong number of arguments for 'MIGRATE' command''], True)"
    by (simp add: runCommand_def dispatch_def keyedCommands_def handleMigrate_def kvStep_def)
  have "sum_list (map length ks) \<le> length ks * 65536"
    using assms(4) by (induction ks) auto
  also have "\<dots> \<le> 10 * 65536" using assms(3) by simp
  finally have "sum_list (map length ks) \<le> 655360" by simp
  moreover have "length (Itoa MIGRATE_TIMEOUT) \<le> 5" using slot_text_short [of 5000] by (simp add: MIGRATE_TIMEOUT_def)
  ultimately have "cmd_ok connLimits (''MIGRATE'' # ?args)"
    using assms(3-6) by (auto simp: cmd_ok_def connLimits_def arg_total_def short_def)
  from command_error [OF assms(1) this run] assms(1) show ?thesis
    by (simp add: migrateBatch_def andThen_def talksTo_def fun_upd_idem migrateRefusal_def SanitizeSimpleString_def)
qed

section \<open>Moving slots\<close>

text \<open>A client that holds a connection to each of two servers that know each other, about to move slots from one to the other.\<close>

definition linked :: "ctx \<Rightarrow> endpoint world \<Rightarrow> string \<Rightarrow> string \<Rightarrow> NodeSnapshot \<Rightarrow> NodeSnapshot \<Rightarrow> server \<Rightarrow> server \<Rightarrow> bool" where
  "linked cx w sa ta source target src dst \<longleftrightarrow>
     talksTo w ToSource sa src \<and> talksTo w ToTarget ta dst \<and> sa \<noteq> ta \<and> sv_inv cx True src \<and> sv_inv cx True dst
     \<and> ownName src = snapName source \<and> ownName dst = snapName target \<and> snapName source \<noteq> snapName target
     \<and> knows src (snapName target) \<and> knows dst (snapName source) \<and> knows dst (snapName target)
     \<and> short (snapName source) \<and> short (snapName target)"

lemma linkedD:
  assumes "linked cx w sa ta source target src dst"
  shows "talksTo w ToSource sa src" "talksTo w ToTarget ta dst" "sa \<noteq> ta" "sv_inv cx True src" "sv_inv cx True dst"
    "ownName src = snapName source" "ownName dst = snapName target" "snapName source \<noteq> snapName target"
    "knows src (snapName target)" "knows dst (snapName source)" "knows dst (snapName target)"
    "short (snapName source)" "short (snapName target)"
  using assms unfolding linked_def by blast+

text \<open>What a command to either end leaves.\<close>

lemma linked_step:
  assumes "linked cx w sa ta source target src dst"
  shows "sv_inv cx True src' \<Longrightarrow> same_but_slots src src' \<Longrightarrow> linked cx (w\<lparr>srv := (srv w)(sa \<mapsto> src')\<rparr>) sa ta source target src' dst"
    and "sv_inv cx True dst' \<Longrightarrow> same_but_slots dst dst' \<Longrightarrow> linked cx (w\<lparr>srv := (srv w)(ta \<mapsto> dst')\<rparr>) sa ta source target src dst'"
  using assms by (auto simp: linked_def same_but_slots_def talksTo_def)

text \<open>The nodes the client knows: only the two.\<close>

definition onlyTwo :: "NodeSnapshot \<Rightarrow> NodeSnapshot \<Rightarrow> (string \<times> ClusterNode option) list \<Rightarrow> bool" where
  "onlyTwo source target nodes \<longleftrightarrow>
     list_all (\<lambda>(name, p). case p of None \<Rightarrow> False | Some n \<Rightarrow> Name n = snapName source \<or> Name n = snapName target) nodes"

lemma announce_none: "onlyTwo source target nodes \<Longrightarrow> announce net source target slot nodes w = (Inr (), w)"
proof (induction nodes)
  case (Cons x nodes)
  obtain name p where x: "x = (name, p)" by force
  from Cons show ?case unfolding x by (cases p) (auto simp: onlyTwo_def Snapshot_def)
qed simp

text \<open>Both ends are marked, which changes nothing else.\<close>

lemma mark_slot:
  assumes "linked cx w sa ta source target src dst" "slot < 16384"
  shows "\<exists>src' dst' w1. andThen (setSlotCmd (simNet cx) ToTarget slot ''IMPORTING'' (snapName source))
       (\<lambda>_. setSlotCmd (simNet cx) ToSource slot ''MIGRATING'' (snapName target)) w = (Inr (), w1)
     \<and> w1 = w\<lparr>srv := (srv w)(ta \<mapsto> dst', sa \<mapsto> src')\<rparr> \<and> linked cx w1 sa ta source target src' dst'
     \<and> same_but_slots src src' \<and> same_but_slots dst dst' \<and> ownSlots src' = ownSlots src \<and> ownSlots dst' = ownSlots dst"
proof -
  note l = linkedD [OF assms(1)]
  obtain dst' where d: "setSlotCmd (simNet cx) ToTarget slot ''IMPORTING'' (snapName source) w = (Inr (), w\<lparr>srv := (srv w)(ta \<mapsto> dst')\<rparr>)"
    "sv_inv cx True dst'" "same_but_slots dst dst'" "ownSlots dst' = ownSlots dst"
    using setslot_cmd [OF l(2,5) assms(2) l(10,12), of "''IMPORTING''"] by auto
  let ?w = "w\<lparr>srv := (srv w)(ta \<mapsto> dst')\<rparr>"
  have l1: "linked cx ?w sa ta source target src dst'" using linked_step(2) [OF assms(1)] d by blast
  obtain src' where s: "setSlotCmd (simNet cx) ToSource slot ''MIGRATING'' (snapName target) ?w = (Inr (), ?w\<lparr>srv := (srv ?w)(sa \<mapsto> src')\<rparr>)"
    "sv_inv cx True src'" "same_but_slots src src'" "ownSlots src' = ownSlots src"
    using setslot_cmd [OF linkedD(1,4) [OF l1] assms(2) l(9,13), of "''MIGRATING''"] by auto
  have "linked cx (?w\<lparr>srv := (srv ?w)(sa \<mapsto> src')\<rparr>) sa ta source target src' dst'" using linked_step(1) [OF l1] s by blast
  with d s show ?thesis by (auto simp: andThen_def)
qed

text \<open>The new owner is told first, then the old one.\<close>

lemma hand_over_slot:
  assumes "linked cx w sa ta source target src dst" "slot < 16384" "onlyTwo source target nodes"
  shows "\<exists>src' dst' w1. andThen (setSlotCmd (simNet cx) ToTarget slot ''NODE'' (snapName target))
       (\<lambda>_. andThen (setSlotCmd (simNet cx) ToSource slot ''NODE'' (snapName target))
         (\<lambda>_. announce (simNet cx) source target slot nodes)) w = (Inr (), w1)
     \<and> w1 = w\<lparr>srv := (srv w)(ta \<mapsto> dst', sa \<mapsto> src')\<rparr> \<and> linked cx w1 sa ta source target src' dst'
     \<and> same_but_slots src src' \<and> same_but_slots dst dst'
     \<and> ownSlots src' = ownSlots src - {slot} \<and> ownSlots dst' = insert slot (ownSlots dst)"
proof -
  note l = linkedD [OF assms(1)]
  obtain dst' where d: "setSlotCmd (simNet cx) ToTarget slot ''NODE'' (snapName target) w = (Inr (), w\<lparr>srv := (srv w)(ta \<mapsto> dst')\<rparr>)"
    "sv_inv cx True dst'" "same_but_slots dst dst'" "ownSlots dst' = insert slot (ownSlots dst)"
    using setslot_cmd [OF l(2,5) assms(2) l(11,13), of "''NODE''"] l(7) by auto
  let ?w = "w\<lparr>srv := (srv w)(ta \<mapsto> dst')\<rparr>"
  have l1: "linked cx ?w sa ta source target src dst'" using linked_step(2) [OF assms(1)] d by blast
  have ne: "snapName target \<noteq> ownName src" using l(6,8) by simp
  obtain src' where s: "setSlotCmd (simNet cx) ToSource slot ''NODE'' (snapName target) ?w = (Inr (), ?w\<lparr>srv := (srv ?w)(sa \<mapsto> src')\<rparr>)"
    "sv_inv cx True src'" "same_but_slots src src'" "ownSlots src' = ownSlots src - {slot}"
    using setslot_cmd [OF linkedD(1,4) [OF l1] assms(2) l(9,13), of "''NODE''"] ne by auto
  have "linked cx (?w\<lparr>srv := (srv ?w)(sa \<mapsto> src')\<rparr>) sa ta source target src' dst'" using linked_step(1) [OF l1] s by blast
  with d s show ?thesis by (auto simp: andThen_def announce_none [OF assms(3)])
qed

lemma drain_empty:
  "talksTo w ToSource addr sv \<Longrightarrow> slot < 16384 \<Longrightarrow> keysAt cx sv slot = [] \<Longrightarrow> drainSlot (simNet cx) target slot w = Some (Inr (), w)"
  using keys_cmd [of w addr sv slot cx] by (simp add: drainSlot.simps)

lemma drain_occupied:
  assumes "talksTo w ToSource addr sv" "slot < 16384" "keysAt cx sv slot \<noteq> []" "\<forall>k \<in> set (keysAt cx sv slot). length k \<le> 65536"
    and "short (snapHost target)" "length (Itoa (snapClientPort target)) \<le> 20"
  shows "drainSlot (simNet cx) target slot w = Some (Inl (Refused ''MIGRATE'' slot migrateRefusal), w)"
  using keys_cmd [OF assms(1,2), of cx] migrate_cmd [OF assms(1,3) keysAt_length assms(4,5,6), of cx slot] assms(3)
  by (simp add: drainSlot.simps)

text \<open>The outcome of a move: both servers keep their data, and exactly the slots of \<open>S\<close> changed hands.\<close>

definition handed :: "ctx \<Rightarrow> endpoint world \<Rightarrow> string \<Rightarrow> string \<Rightarrow> NodeSnapshot \<Rightarrow> NodeSnapshot \<Rightarrow> server \<Rightarrow> server \<Rightarrow> nat set \<Rightarrow> endpoint world \<Rightarrow> bool" where
  "handed cx w sa ta source target src dst S w' \<longleftrightarrow>
     (\<exists>src' dst'. linked cx w' sa ta source target src' dst' \<and> same_but_slots src src' \<and> same_but_slots dst dst'
        \<and> ownSlots src' = ownSlots src - S \<and> ownSlots dst' = ownSlots dst \<union> S
        \<and> (\<forall>a. a \<noteq> sa \<and> a \<noteq> ta \<longrightarrow> srv w' a = srv w a))"

lemma keysAt_same: "same_but_slots sv sv' \<Longrightarrow> keysAt cx sv' = keysAt cx sv"
  by (simp add: same_but_slots_def keysAt_def fun_eq_iff)

lemma move_empty_slot:
  assumes "linked cx w sa ta source target src dst" "slot < 16384" "onlyTwo source target nodes" "keysAt cx src slot = []"
  shows "\<exists>w'. moveSlot (simNet cx) nodes source target slot w = Some (Inr (), w') \<and> handed cx w sa ta source target src dst {slot} w'"
proof -
  obtain src1 dst1 w1 where m: "andThen (setSlotCmd (simNet cx) ToTarget slot ''IMPORTING'' (snapName source))
       (\<lambda>_. setSlotCmd (simNet cx) ToSource slot ''MIGRATING'' (snapName target)) w = (Inr (), w1)"
    "w1 = w\<lparr>srv := (srv w)(ta \<mapsto> dst1, sa \<mapsto> src1)\<rparr>" "linked cx w1 sa ta source target src1 dst1"
    "same_but_slots src src1" "same_but_slots dst dst1" "ownSlots src1 = ownSlots src" "ownSlots dst1 = ownSlots dst"
    using mark_slot [OF assms(1,2)] by blast
  have d: "drainSlot (simNet cx) target slot w1 = Some (Inr (), w1)"
    using drain_empty [OF linkedD(1) [OF m(3)] assms(2)] keysAt_same [OF m(4), of cx] assms(4) by simp
  obtain src2 dst2 w2 where h: "andThen (setSlotCmd (simNet cx) ToTarget slot ''NODE'' (snapName target))
       (\<lambda>_. andThen (setSlotCmd (simNet cx) ToSource slot ''NODE'' (snapName target))
         (\<lambda>_. announce (simNet cx) source target slot nodes)) w1 = (Inr (), w2)"
    "w2 = w1\<lparr>srv := (srv w1)(ta \<mapsto> dst2, sa \<mapsto> src2)\<rparr>" "linked cx w2 sa ta source target src2 dst2"
    "same_but_slots src1 src2" "same_but_slots dst1 dst2" "ownSlots src2 = ownSlots src1 - {slot}" "ownSlots dst2 = insert slot (ownSlots dst1)"
    using hand_over_slot [OF m(3) assms(2,3)] by blast
  have "handed cx w sa ta source target src dst {slot} w2"
    unfolding handed_def
    using h m same_but_slots_trans [OF m(4) h(4)] same_but_slots_trans [OF m(5) h(5)]
    by (intro exI [of _ src2] exI [of _ dst2]) auto
  then show ?thesis using m(1) d h(1) by (simp add: moveSlot_def)
qed

lemma move_occupied_slot:
  assumes "linked cx w sa ta source target src dst" "slot < 16384"
    and "keysAt cx src slot \<noteq> []" "\<forall>k \<in> set (keysAt cx src slot). length k \<le> 65536"
    and "short (snapHost target)" "length (Itoa (snapClientPort target)) \<le> 20"
  shows "\<exists>w'. moveSlot (simNet cx) nodes source target slot w = Some (Inl (Refused ''MIGRATE'' slot migrateRefusal), w')
     \<and> handed cx w sa ta source target src dst {} w'"
proof -
  obtain src1 dst1 w1 where m: "andThen (setSlotCmd (simNet cx) ToTarget slot ''IMPORTING'' (snapName source))
       (\<lambda>_. setSlotCmd (simNet cx) ToSource slot ''MIGRATING'' (snapName target)) w = (Inr (), w1)"
    "w1 = w\<lparr>srv := (srv w)(ta \<mapsto> dst1, sa \<mapsto> src1)\<rparr>" "linked cx w1 sa ta source target src1 dst1"
    "same_but_slots src src1" "same_but_slots dst dst1" "ownSlots src1 = ownSlots src" "ownSlots dst1 = ownSlots dst"
    using mark_slot [OF assms(1,2)] by blast
  have "drainSlot (simNet cx) target slot w1 = Some (Inl (Refused ''MIGRATE'' slot migrateRefusal), w1)"
    by (rule drain_occupied [OF linkedD(1) [OF m(3)] assms(2)]) (use assms(3-6) keysAt_same [OF m(4), of cx] in simp_all)
  moreover have "handed cx w sa ta source target src dst {} w1"
    unfolding handed_def using m by (intro exI [of _ src1] exI [of _ dst1]) auto
  ultimately show ?thesis using m(1) by (simp add: moveSlot_def)
qed

lemma handed_trans:
  assumes "linked cx w1 sa ta source target src1 dst1" "same_but_slots src src1" "same_but_slots dst dst1"
    and "ownSlots src1 = ownSlots src - S" "ownSlots dst1 = ownSlots dst \<union> S" "\<forall>a. a \<noteq> sa \<and> a \<noteq> ta \<longrightarrow> srv w1 a = srv w a"
    and "handed cx w1 sa ta source target src1 dst1 T w2"
  shows "handed cx w sa ta source target src dst (S \<union> T) w2"
proof -
  obtain src2 dst2 where h: "linked cx w2 sa ta source target src2 dst2" "same_but_slots src1 src2" "same_but_slots dst1 dst2"
    "ownSlots src2 = ownSlots src1 - T" "ownSlots dst2 = ownSlots dst1 \<union> T" "\<forall>a. a \<noteq> sa \<and> a \<noteq> ta \<longrightarrow> srv w2 a = srv w1 a"
    using assms(7) unfolding handed_def by blast
  have "ownSlots src2 = ownSlots src - (S \<union> T)" "ownSlots dst2 = ownSlots dst \<union> (S \<union> T)" using h(4,5) assms(4,5) by auto
  moreover have "\<forall>a. a \<noteq> sa \<and> a \<noteq> ta \<longrightarrow> srv w2 a = srv w a" using h(6) assms(6) by simp
  ultimately show ?thesis
    unfolding handed_def using h(1) same_but_slots_trans [OF assms(2) h(2)] same_but_slots_trans [OF assms(3) h(3)]
    by (intro exI [of _ src2] exI [of _ dst2] conjI)
qed

lemma handed_refl: "linked cx w sa ta source target src dst \<Longrightarrow> handed cx w sa ta source target src dst {} w"
  unfolding handed_def by (intro exI [of _ src] exI [of _ dst]) (simp add: same_but_slots_refl)

lemma move_empty_slots:
  assumes "linked cx w sa ta source target src dst" "\<forall>slot \<in> set moved. slot < 16384 \<and> keysAt cx src slot = [] \<and> onlyTwo source target (ord slot)"
  shows "\<exists>w'. moveSlotsLoop (simNet cx) ord source target (moved @ rest) w = moveSlotsLoop (simNet cx) ord source target rest w'
     \<and> handed cx w sa ta source target src dst (set moved) w'"
  using assms
proof (induction moved arbitrary: w src dst)
  case Nil
  then show ?case using handed_refl by auto
next
  case (Cons slot moved)
  obtain w1 where w1: "moveSlot (simNet cx) (ord slot) source target slot w = Some (Inr (), w1)"
    "handed cx w sa ta source target src dst {slot} w1"
    using move_empty_slot [OF Cons.prems(1)] Cons.prems(2) by fastforce
  obtain src1 dst1 where h: "linked cx w1 sa ta source target src1 dst1" "same_but_slots src src1" "same_but_slots dst dst1"
    "ownSlots src1 = ownSlots src - {slot}" "ownSlots dst1 = ownSlots dst \<union> {slot}" "\<forall>a. a \<noteq> sa \<and> a \<noteq> ta \<longrightarrow> srv w1 a = srv w a"
    using w1(2) unfolding handed_def by blast
  obtain w2 where w2: "moveSlotsLoop (simNet cx) ord source target (moved @ rest) w1 = moveSlotsLoop (simNet cx) ord source target rest w2"
    "handed cx w1 sa ta source target src1 dst1 (set moved) w2"
    using Cons.IH [OF h(1)] Cons.prems(2) keysAt_same [OF h(2), of cx] by auto
  have "handed cx w sa ta source target src dst (set (slot # moved)) w2"
    using handed_trans [OF h w2(2)] by simp
  then show ?case using w1(1) w2(1) by auto
qed

section \<open>Whole transfers\<close>

text \<open>Two servers, each at the address its node names, before the client has dialled.\<close>

definition pair :: "ctx \<Rightarrow> endpoint world \<Rightarrow> ClusterNode \<Rightarrow> ClusterNode \<Rightarrow> server \<Rightarrow> server \<Rightarrow> bool" where
  "pair cx w source target src dst \<longleftrightarrow>
     srv w (JoinHostPort (Host source) (Itoa (ClientPort source))) = Some src
     \<and> srv w (JoinHostPort (Host target) (Itoa (ClientPort target))) = Some dst
     \<and> JoinHostPort (Host source) (Itoa (ClientPort source)) \<noteq> JoinHostPort (Host target) (Itoa (ClientPort target))
     \<and> Host source \<noteq> [] \<and> Host target \<noteq> []
     \<and> sv_inv cx True src \<and> sv_inv cx True dst \<and> ownName src = Name source \<and> ownName dst = Name target \<and> Name source \<noteq> Name target
     \<and> knows src (Name target) \<and> knows dst (Name source) \<and> knows dst (Name target) \<and> short (Name source) \<and> short (Name target)"

abbreviation nodeAddr :: "ClusterNode \<Rightarrow> string" where
  "nodeAddr n \<equiv> JoinHostPort (Host n) (Itoa (ClientPort n))"

lemma dial_pair:
  assumes "pair cx w source target src dst"
  shows "\<exists>w1. andThen (dialNode (simNet cx) ToTarget (Snapshot target)) (\<lambda>_. dialNode (simNet cx) ToSource (Snapshot source)) w = (Inr (), w1)
     \<and> linked cx w1 (nodeAddr source) (nodeAddr target) (Snapshot source) (Snapshot target) src dst \<and> srv w1 = srv w"
  using assms by (auto simp: pair_def andThen_def dialNode_def simNet_def simDial_def Snapshot_def linked_def talksTo_def)

lemma transfer_runs:
  assumes "pair cx w source target src dst" "0 < k" "k \<le> int (length moved)"
  shows "\<exists>w1. linked cx w1 (nodeAddr source) (nodeAddr target) (Snapshot source) (Snapshot target) src dst \<and> srv w1 = srv w
     \<and> clusterMoveSlots (simNet cx) source target moved k ord w =
         (case moveSlotsLoop (simNet cx) ord (Snapshot source) (Snapshot target) (take (nat k) (sort moved)) w1 of
            None \<Rightarrow> None | Some (Inl e, w2) \<Rightarrow> Some (Inl e, w2) | Some (Inr _, w2) \<Rightarrow> Some (Inr 1, w2))"
proof -
  obtain w1 where w1: "andThen (dialNode (simNet cx) ToTarget (Snapshot target)) (\<lambda>_. dialNode (simNet cx) ToSource (Snapshot source)) w = (Inr (), w1)"
    "linked cx w1 (nodeAddr source) (nodeAddr target) (Snapshot source) (Snapshot target) src dst" "srv w1 = srv w"
    using dial_pair [OF assms(1)] by blast
  have "snapHost (Snapshot source) \<noteq> []" "snapHost (Snapshot target) \<noteq> []" using assms(1) by (auto simp: pair_def Snapshot_def)
  then show ?thesis using w1 assms(2,3) by (intro exI [of _ w1]) (simp add: clusterMoveSlots_def Let_def)
qed

section \<open>Properties\<close>



section \<open>Witnesses\<close>

text \<open>Two servers that know each other; neither owns a slot yet.\<close>

definition twoState :: "ClusterNode \<Rightarrow> ClusterNode \<Rightarrow> ClusterState" where
  "twoState self other = (initState self)\<lparr>Nodes := GoMap [(Name self, Some 0), (Name other, Some 1)],
     store := (\<lambda>r. if r = 0 then self else other), nextRef := 2\<rparr>"

lemma twoState_bus: "node_wf self \<Longrightarrow> node_wf other \<Longrightarrow> Name self \<noteq> Name other \<Longrightarrow> bus_wf (twoState self other)"
  by (auto simp: bus_wf_def cs_wf_def twoState_def initState_def gm_wf_def keys_def lookup_def split: if_splits)

definition twoServer :: "ClusterNode \<Rightarrow> ClusterNode \<Rightarrow> KVStore \<Rightarrow> server" where
  "twoServer self other kv = \<lparr>svKV = kv, svCluster = Some (twoState self other), svPS = NewPubSub\<rparr>"

lemma twoServer_inv:
  assumes "node_wf self" "node_wf other" "Name self \<noteq> Name other" "kv_wf (cx_crc cx) kv" "clusterEnabled kv" "ctx_ok cx"
  shows "sv_inv cx True (twoServer self other kv)"
  using twoState_bus [OF assms(1-3)] assms(4-6) NewPubSub_inv
  by (simp add: sv_inv_def srv_ok_def twoServer_def ctx_ok_def bus_wf_def)

lemma kv_new: "kv_wf crc (NewKVStore [True])" "clusterEnabled (NewKVStore [True])"
  by (rule NewKVStore_wf) (simp add: NewKVStore_def)

abbreviation nodeA :: ClusterNode where "nodeA \<equiv> NewNode ''a'' 7000 ''hostA'' 0 False"
abbreviation nodeB :: ClusterNode where "nodeB \<equiv> NewNode ''b'' 7001 ''hostB'' 0 False"

definition twoWorld :: "KVStore \<Rightarrow> endpoint world" where
  "twoWorld kv = \<lparr>srv = [nodeAddr nodeA \<mapsto> twoServer nodeA nodeB kv, nodeAddr nodeB \<mapsto> twoServer nodeB nodeA (NewKVStore [True])],
     conn = (\<lambda>_. None), connSubs = (\<lambda>_. GoMap []), inbox = (\<lambda>_. [])\<rparr>"

lemma twoWorld_pair:
  assumes "kv_wf (cx_crc exampleCtx) kv" "clusterEnabled kv"
  shows "pair exampleCtx (twoWorld kv) nodeA nodeB (twoServer nodeA nodeB kv) (twoServer nodeB nodeA (NewKVStore [True]))"
proof -
  have n: "Name nodeA = ''a''" "Name nodeB = ''b''" "Host nodeA = ''hostA''" "Host nodeB = ''hostB''" by (simp_all add: NewNode_def)
  have i: "sv_inv exampleCtx True (twoServer nodeA nodeB kv)" "sv_inv exampleCtx True (twoServer nodeB nodeA (NewKVStore [True]))"
    by (rule twoServer_inv [OF NewNode_wf(1) NewNode_wf(1)]; use n assms kv_new example_ok(1) in simp)+
  have a: "nodeAddr nodeA \<noteq> nodeAddr nodeB" by (simp add: n JoinHostPort_def)
  have k: "ownName (twoServer x y z) = Name x" "knows (twoServer x y z) (Name x)" "knows (twoServer x y z) (Name y)" for x y z
    by (simp_all add: ownName_def knows_def twoServer_def twoState_def initState_def self_ref_def lookup_def)
  note kn = k(3) [of nodeA nodeB kv] k(2,3) [of nodeB nodeA "NewKVStore [True]"]
  show ?thesis unfolding pair_def twoWorld_def using a i k(1) kn by (auto simp: n short_def)
qed



end
