(* ===== verification/Go_Float.thy ===== *)
theory Go_Float
  imports Ember_Prelude "HOL-Library.Log_Nat"
begin

text \<open>
  Go's \<^verbatim>\<open>float64\<close> where the programs compute with it: finite numbers far from overflow. A float is the rational number it stands for; every operation is the exact one followed by
  rounding to the nearest number with 53 significant bits, ties to even, as IEEE 754 asks for, down to the subnormal numbers, which
  are the multiples of \<open>2\<close> to the \<open>-1074\<close>.
\<close>

section \<open>Rounding\<close>

text \<open>To the nearest integer, ties to even.\<close>

definition roundEven :: "rat \<Rightarrow> int" where
  "roundEven q =
     (let f = \<lfloor>q\<rfloor>; d = q - of_int f
      in if d < 1 / 2 then f else if d > 1 / 2 then f + 1 else if even f then f else f + 1)"

text \<open>The distance between two floats around \<open>x\<close>: \<open>floorlog 2 m\<close> is the number of binary digits of \<open>m\<close>.\<close>

definition ulp :: "rat \<Rightarrow> rat" where
  "ulp x = 2 ^ (floorlog 2 (nat \<lfloor>\<bar>x\<bar> * 2 ^ 1074\<rfloor>) - 53) / 2 ^ 1074"

definition fl :: "rat \<Rightarrow> rat" where
  "fl x = of_int (roundEven (x / ulp x)) * ulp x"

definition flAdd :: "rat \<Rightarrow> rat \<Rightarrow> rat" where "flAdd x y = fl (x + y)"
definition flSub :: "rat \<Rightarrow> rat \<Rightarrow> rat" where "flSub x y = fl (x - y)"
definition flMul :: "rat \<Rightarrow> rat \<Rightarrow> rat" where "flMul x y = fl (x * y)"
definition flDiv :: "rat \<Rightarrow> rat \<Rightarrow> rat" where "flDiv x y = fl (x / y)"

text \<open>\<^verbatim>\<open>math.Round\<close>: ties away from zero. A conversion to an integer type cuts off the fraction.\<close>

definition mathRound :: "rat \<Rightarrow> int" where
  "mathRound x = (if x \<ge> 0 then \<lfloor>x + 1 / 2\<rfloor> else - \<lfloor>1 / 2 - x\<rfloor>)"

definition toInt :: "rat \<Rightarrow> int" where
  "toInt x = (if x \<ge> 0 then \<lfloor>x\<rfloor> else - \<lfloor>- x\<rfloor>)"

section \<open>The error of one operation\<close>

lemma roundEven_error: "\<bar>of_int (roundEven q) - q\<bar> \<le> 1 / 2"
proof -
  have "of_int \<lfloor>q\<rfloor> \<le> q" "q < of_int \<lfloor>q\<rfloor> + 1" by linarith+
  then show ?thesis by (auto simp: roundEven_def Let_def)
qed

lemma ulp_pos: "0 < ulp x"
  by (simp add: ulp_def)

lemma fl_ulp: "\<bar>fl x - x\<bar> \<le> ulp x / 2"
proof -
  have "fl x - x = (of_int (roundEven (x / ulp x)) - x / ulp x) * ulp x"
    using ulp_pos [of x] by (simp add: fl_def left_diff_distrib)
  then have "\<bar>fl x - x\<bar> = \<bar>of_int (roundEven (x / ulp x)) - x / ulp x\<bar> * ulp x"
    using ulp_pos [of x] by (simp add: abs_mult)
  also have "\<dots> \<le> 1 / 2 * ulp x" by (rule mult_right_mono [OF roundEven_error]) (use ulp_pos in \<open>simp add: less_imp_le\<close>)
  finally show ?thesis by simp
qed

text \<open>Below \<open>2\<close> to the \<open>k\<close> neighbouring floats are at most \<open>2\<close> to the \<open>k - 53\<close> apart.\<close>

lemma ulp_bound:
  assumes "\<bar>x\<bar> < 2 ^ k"
  shows "ulp x \<le> 2 ^ k / 2 ^ 53"
proof -
  define m where "m = nat \<lfloor>\<bar>x\<bar> * 2 ^ 1074\<rfloor>"
  have "\<bar>x\<bar> * 2 ^ 1074 < 2 ^ (k + 1074)" using assms by (simp add: power_add)
  then have "\<lfloor>\<bar>x\<bar> * 2 ^ 1074\<rfloor> < 2 ^ (k + 1074)" by (simp add: floor_less_iff)
  then have "m < 2 ^ (k + 1074)" unfolding m_def by (subst nat_less_iff) simp_all
  then have "floorlog 2 m \<le> k + 1074" by (intro floorlog_leI) auto
  then have "(2 :: rat) ^ (floorlog 2 m - 53) \<le> 2 ^ (k + 1021)" by (intro power_increasing) simp_all
  then have "ulp x \<le> 2 ^ (k + 1021) / 2 ^ 1074" unfolding ulp_def m_def [symmetric] by (rule divide_right_mono) simp
  also have "\<dots> = 2 ^ k / 2 ^ 53" by (simp add: power_add)
  finally show ?thesis .
qed

lemma fl_error: "\<bar>x\<bar> < 2 ^ k \<Longrightarrow> \<bar>fl x - x\<bar> \<le> 2 ^ k / 2 ^ 54"
  using fl_ulp [of x] ulp_bound [of x k] by simp

lemma fl_nonneg: "0 \<le> x \<Longrightarrow> 0 \<le> fl x"
proof -
  assume "0 \<le> x"
  then have "0 \<le> x / ulp x" using ulp_pos [of x] by simp
  then have "0 \<le> roundEven (x / ulp x)" by (auto simp: roundEven_def Let_def)
  then show ?thesis using ulp_pos [of x] by (simp add: fl_def)
qed

lemma mathRound_nonneg: "0 \<le> x \<Longrightarrow> of_int (mathRound x) \<le> x + 1 / 2 \<and> x - 1 / 2 < of_int (mathRound x)"
  by (simp add: mathRound_def) linarith

end
