(* ===== verification/Client_Cli.thy ===== *)
theory Client_Cli
  imports Server_World Go_Float
begin

text \<open>
  \<^verbatim>\<open>cmd/ember-cli\<close>: creating a cluster, adding a node and starting a rebalancing. As in \<^verbatim>\<open>clusterMoveSlots\<close> the network is a
  parameter, with numbered connections; what \<^verbatim>\<open>docker\<close> does to start and remove a container, \<^verbatim>\<open>fmt.Sprint\<close> of a value and
  \<^verbatim>\<open>json.Unmarshal\<close> are parameters too. The slots of a new cluster are divided in floating-point arithmetic; the theorems are that
  this gives every slot to exactly one node, on paper and on the servers. The interactive loop of \<^verbatim>\<open>connect\<close> is input and output.
\<close>

section \<open>\<^verbatim>\<open>net.SplitHostPort\<close>\<close>

datatype addrErr = MissingPort | TooManyColons | MissingBracket | UnexpectedOpen | UnexpectedClose

definition LastIndexByte :: "string \<Rightarrow> char \<Rightarrow> nat option" where
  "LastIndexByte s c = (if c \<in> set s then Some (length s - 1 - length (takeWhile (\<lambda>x. x \<noteq> c) (rev s))) else None)"

definition SplitHostPort :: "string \<Rightarrow> addrErr + string \<times> string" where
  "SplitHostPort hostport =
     (case LastIndexByte hostport (CHR '':'') of
        None \<Rightarrow> Inl MissingPort
      | Some i \<Rightarrow>
          let rest = (\<lambda>host j k.
                if CHR ''['' \<in> set (drop j hostport) then Inl UnexpectedOpen
                else if CHR '']'' \<in> set (drop k hostport) then Inl UnexpectedClose
                else Inr (host, drop (i + 1) hostport))
          in if hostport ! 0 = CHR ''['' then
               (case IndexByte hostport (CHR '']'') of
                  None \<Rightarrow> Inl MissingBracket
                | Some end \<Rightarrow>
                    if end + 1 = length hostport then Inl MissingPort
                    else if end + 1 = i then rest (drop 1 (take end hostport)) 1 (end + 1)
                    else if hostport ! (end + 1) = CHR '':'' then Inl TooManyColons else Inl MissingPort)
             else let host = take i hostport
                  in if CHR '':'' \<in> set host then Inl TooManyColons else rest host 0 0)"

section \<open>Loops over an array\<close>

text \<open>\<^verbatim>\<open>for j := first; j <= last; j++ { xs[j] = v }\<close>: the first index out of range panics.\<close>

function fillRange :: "'a \<Rightarrow> int \<Rightarrow> int \<Rightarrow> 'a list \<Rightarrow> 'a list option" where
  "fillRange v j hi xs =
     (if j \<le> hi then if 0 \<le> j \<and> j < int (length xs) then fillRange v (j + 1) hi (xs[nat j := v]) else None else Some xs)"
  by pat_completeness auto
termination by (relation "measure (\<lambda>(v, j, hi, xs). nat (hi + 1 - j))") auto

declare fillRange.simps [simp del]

lemma fillRange_ok:
  assumes "0 \<le> j" "hi < int (length xs)"
  shows "fillRange v j hi xs = Some (map (\<lambda>i. if j \<le> int i \<and> int i \<le> hi then v else xs ! i) [0..<length xs])"
  using assms
proof (induction v j hi xs rule: fillRange.induct)
  case (1 v j hi xs)
  show ?case
  proof (cases "j \<le> hi")
    case True
    then have "fillRange v j hi xs = fillRange v (j + 1) hi (xs[nat j := v])" using "1.prems" by (simp add: fillRange.simps [of v j])
    also have "\<dots> = Some (map (\<lambda>i. if j + 1 \<le> int i \<and> int i \<le> hi then v else xs[nat j := v] ! i) [0..<length xs])"
      using "1.IH" True "1.prems" by simp
    also have "map (\<lambda>i. if j + 1 \<le> int i \<and> int i \<le> hi then v else xs[nat j := v] ! i) [0..<length xs]
        = map (\<lambda>i. if j \<le> int i \<and> int i \<le> hi then v else xs ! i) [0..<length xs]"
      using True "1.prems"(1) by (intro map_cong) (auto simp: nth_list_update)
    finally show ?thesis .
  next
    case False
    then show ?thesis by (subst fillRange.simps) (auto intro!: nth_equalityI)
  qed
qed

section \<open>Creating a cluster\<close>

record ('c, 'w) cliNet =
  cn_dial :: "'c \<Rightarrow> string \<Rightarrow> 'w \<Rightarrow> string option \<times> 'w"
  cn_write :: "'c \<Rightarrow> string list \<Rightarrow> 'w \<Rightarrow> string option \<times> 'w"
  cn_read :: "'c \<Rightarrow> 'w \<Rightarrow> (string + respValue) \<times> 'w"
  cn_sprint :: "respValue \<Rightarrow> string"

definition CLUSTER_CLI_SLOTS :: nat where "CLUSTER_CLI_SLOTS = 16384"

record cliNode =
  sourceAddr :: string
  tcpHost :: string
  tcpPort :: string
  nodeConn :: nat
  clusterHost :: string
  clusterPort :: int
  nodeSlots :: "bool list"
  slotsCount :: int
  dirty :: int

datatype cliError = NoPorts | TooFewNodes | BadAddress string addrErr | EmptyHost string | CannotConnect string string | MyAddrUnsent string string
  | MyAddrUnread string string | MyAddrShape string respValue | MyAddrPort numErr | BadPort numErr | MeetUnsent string string | MeetRefused string respErr
  | NodesUnsent string | NodesUnread string | NodesNoString respValue | NodesRejected string | NodesUndecoded string | NodesNone
  | NodesNil string | NodesInvalid string | StartFailed string | RebalanceFailed rebalanceError | RebalanceResult int | Usage

text \<open>The answer \<^verbatim>\<open>OK\<close> is expected with \<^verbatim>\<open>ExpectStringResponse\<close>.\<close>

definition expectOK :: "(nat, 'w) cliNet \<Rightarrow> nat \<Rightarrow> 'w \<Rightarrow> respErr option \<times> 'w" where
  "expectOK net c w =
     (case cn_read net c w of (v, w1) \<Rightarrow> (ExpectStringResponse (case v of Inl e \<Rightarrow> Inl e | Inr x \<Rightarrow> Inr (toSmart x)) ''OK'', w1))"

definition ClusterMeet :: "(nat, 'w) cliNet \<Rightarrow> nat \<Rightarrow> int \<Rightarrow> string \<Rightarrow> 'w \<Rightarrow> (string + respErr) option \<times> 'w" where
  "ClusterMeet net targetConn bootstrapPort bootstrapHost w =
     (case cn_write net targetConn [''CLUSTER'', ''MEET'', bootstrapHost, Itoa bootstrapPort] w of
        (Some e, w1) \<Rightarrow> (Some (Inl e), w1)
      | (None, w1) \<Rightarrow> (case expectOK net targetConn w1 of (err, w2) \<Rightarrow> (map_option Inr err, w2)))"

text \<open>One turn of the loop that connects to the nodes: every node is asked for its address before any is changed.\<close>

definition connectNode :: "(nat, 'w) cliNet \<Rightarrow> nat \<Rightarrow> string \<Rightarrow> 'w \<Rightarrow> (cliError + cliNode) \<times> 'w" where
  "connectNode net i addr w =
     (case SplitHostPort addr of
        Inl e \<Rightarrow> (Inl (BadAddress addr e), w)
      | Inr (host, prt) \<Rightarrow>
          (case cn_dial net i addr w of
             (Some e, w1) \<Rightarrow> (Inl (CannotConnect addr e), w1)
           | (None, w1) \<Rightarrow>
               (case cn_write net i [''CLUSTER'', ''MYADDR''] w1 of
                  (Some e, w2) \<Rightarrow> (Inl (MyAddrUnsent addr e), w2)
                | (None, w2) \<Rightarrow>
                    (case cn_read net i w2 of
                       (Inl e, w3) \<Rightarrow> (Inl (MyAddrUnread addr e), w3)
                     | (Inr (RArr [h, p]), w3) \<Rightarrow>
                         (case Atoi (cn_sprint net p) of
                            Inl e \<Rightarrow> (Inl (MyAddrPort e), w3)
                          | Inr busPort \<Rightarrow>
                              (Inr \<lparr>sourceAddr = addr, tcpHost = host, tcpPort = prt, nodeConn = i, clusterHost = cn_sprint net h,
                                    clusterPort = busPort, nodeSlots = replicate CLUSTER_CLI_SLOTS False, slotsCount = 0, dirty = 0\<rparr>, w3))
                     | (Inr v, w3) \<Rightarrow> (Inl (MyAddrShape addr v), w3)))))"

fun connectNodes :: "(nat, 'w) cliNet \<Rightarrow> nat \<Rightarrow> string list \<Rightarrow> cliNode list \<Rightarrow> 'w \<Rightarrow> (cliError + cliNode list) \<times> 'w" where
  "connectNodes net i [] nodes w = (Inr nodes, w)"
| "connectNodes net i (addr # addrs) nodes w =
     (case connectNode net i addr w of
        (Inl e, w1) \<Rightarrow> (Inl e, w1)
      | (Inr n, w1) \<Rightarrow> connectNodes net (i + 1) addrs (nodes @ [n]) w1)"

text \<open>The last slot of the node whose share begins at \<open>first\<close>.\<close>

definition lastSlot :: "rat \<Rightarrow> bool \<Rightarrow> int \<Rightarrow> rat \<Rightarrow> int" where
  "lastSlot slotsPerNode final first cursor =
     (let l0 = mathRound (flSub (flAdd cursor slotsPerNode) 1);
          l1 = (if l0 > int CLUSTER_CLI_SLOTS \<or> final then int CLUSTER_CLI_SLOTS - 1 else l0)
      in if l1 < first then first else l1)"

fun allocate :: "rat \<Rightarrow> cliNode list \<Rightarrow> int \<Rightarrow> rat \<Rightarrow> cliNode list option" where
  "allocate slotsPerNode [] first cursor = Some []"
| "allocate slotsPerNode (n # ns) first cursor =
     (let last = lastSlot slotsPerNode (ns = []) first cursor
      in do { marked \<leftarrow> fillRange True first last (nodeSlots n);
              rest \<leftarrow> allocate slotsPerNode ns (last + 1) (flAdd cursor slotsPerNode);
              Some (n\<lparr>nodeSlots := marked, slotsCount := last - first + 1, dirty := 1\<rparr> # rest) })"

text \<open>The ranges are computed a second time when they are sent; the error of the write is dropped, a refusal leaves the node dirty.\<close>

fun sendRanges :: "(nat, 'w) cliNet \<Rightarrow> rat \<Rightarrow> cliNode list \<Rightarrow> int \<Rightarrow> rat \<Rightarrow> 'w \<Rightarrow> cliNode list \<times> 'w" where
  "sendRanges net slotsPerNode [] first cursor w = ([], w)"
| "sendRanges net slotsPerNode (n # ns) first cursor w =
     (if dirty n \<noteq> 1 then (case sendRanges net slotsPerNode ns first cursor w of (rest, w1) \<Rightarrow> (n # rest, w1))
      else let last = lastSlot slotsPerNode (ns = []) first cursor
           in case cn_write net (nodeConn n) [''CLUSTER'', ''ADDSLOTSRANGE'', Itoa first, Itoa last] w of
                (_, w1) \<Rightarrow>
                  (case expectOK net (nodeConn n) w1 of
                     (err, w2) \<Rightarrow>
                       (case sendRanges net slotsPerNode ns (last + 1) (flAdd cursor slotsPerNode) w2 of
                          (rest, w3) \<Rightarrow> ((if err = None then n\<lparr>dirty := 0\<rparr> else n) # rest, w3))))"

fun meetLoop :: "(nat, 'w) cliNet \<Rightarrow> nat \<Rightarrow> cliNode list \<Rightarrow> 'w \<Rightarrow> cliError option \<times> 'w" where
  "meetLoop net bootstrapConn [] w = (None, w)"
| "meetLoop net bootstrapConn (target # rest) w =
     (case ClusterMeet net bootstrapConn (clusterPort target) (clusterHost target) w of
        (None, w1) \<Rightarrow> meetLoop net bootstrapConn rest w1
      | (Some (Inl e), w1) \<Rightarrow> (Some (MeetUnsent (sourceAddr target) e), w1)
      | (Some (Inr e), w1) \<Rightarrow> (Some (MeetRefused (sourceAddr target) e), w1))"

definition createCluster :: "(nat, 'w) cliNet \<Rightarrow> string list \<Rightarrow> 'w \<Rightarrow> (cliError option \<times> 'w) option" where
  "createCluster net addrs w =
     (if addrs = [] then Some (Some NoPorts, w)
      else if length addrs < 3 then Some (Some TooFewNodes, w)
      else case connectNodes net 0 addrs [] w of
             (Inl e, w1) \<Rightarrow> Some (Some e, w1)
           | (Inr nodes, w1) \<Rightarrow>
               (let slotsPerNode = flDiv (of_nat CLUSTER_CLI_SLOTS) (of_nat (length nodes))
                in do { nodes1 \<leftarrow> allocate slotsPerNode nodes 0 0;
                        case sendRanges net slotsPerNode nodes1 0 0 w1 of
                          (nodes2, w2) \<Rightarrow> Some (meetLoop net (nodeConn (nodes2 ! 0)) (drop 1 nodes2) w2) }))"
section \<open>The other commands\<close>

text \<open>\<^verbatim>\<open>strings.TrimSpace\<close> on bytes below 128; \<open>uni\<close> stands for the Unicode tables.\<close>

definition TrimSpace :: "(string \<Rightarrow> string) \<Rightarrow> string \<Rightarrow> string" where
  "TrimSpace uni s =
     (let space = (\<lambda>c. c = CHR '' '' \<or> (9 \<le> (of_char c :: nat) \<and> of_char c \<le> (13 :: nat)))
      in if \<forall>c \<in> set s. of_char c < (128 :: nat) then rev (dropWhile space (rev (dropWhile space s))) else uni s)"

fun checkNodes :: "(string \<times> ClusterNode option) list \<Rightarrow> cliError option" where
  "checkNodes [] = None"
| "checkNodes ((name, p) # rest) =
     (case p of
        None \<Rightarrow> Some (NodesNil name)
      | Some n \<Rightarrow> if Name n = [] \<or> ClientPort n < 1 \<or> ClientPort n > 65535 then Some (NodesInvalid name) else checkNodes rest)"

text \<open>\<open>unmarshal\<close> is \<^verbatim>\<open>json.Unmarshal\<close> into a map, whose entries it gives in the order they are iterated in.\<close>

definition readClusterNodes :: "(nat, 'w) cliNet \<Rightarrow> (string \<Rightarrow> string) \<Rightarrow> (string \<Rightarrow> string + (string \<times> ClusterNode option) list) \<Rightarrow> string \<Rightarrow> 'w
    \<Rightarrow> (cliError + (string \<times> ClusterNode option) list) \<times> 'w" where
  "readClusterNodes net uni unmarshal addr w =
     (case cn_dial net 0 addr w of
        (Some e, w1) \<Rightarrow> (Inl (CannotConnect addr e), w1)
      | (None, w1) \<Rightarrow>
          (case cn_write net 0 [''CLUSTER'', ''NODES''] w1 of
             (Some e, w2) \<Rightarrow> (Inl (NodesUnsent e), w2)
           | (None, w2) \<Rightarrow>
               (case cn_read net 0 w2 of
                  (Inl e, w3) \<Rightarrow> (Inl (NodesUnread e), w3)
                | (Inr (RStr payload), w3) \<Rightarrow>
                    (if take 1 (TrimSpace uni payload) \<noteq> ''{'' then (Inl (NodesRejected payload), w3)
                     else case unmarshal payload of
                            Inl e \<Rightarrow> (Inl (NodesUndecoded e), w3)
                          | Inr nodes \<Rightarrow>
                              if nodes = [] then (Inl NodesNone, w3)
                              else case checkNodes nodes of Some e \<Rightarrow> (Inl e, w3) | None \<Rightarrow> (Inr nodes, w3))
                | (Inr v, w3) \<Rightarrow> (Inl (NodesNoString v), w3))))"

text \<open>\<open>args\<close> are the arguments behind the name of the command. The rebalancing has its connections of its own, \<open>rnet\<close>.\<close>

definition rebalanceCommand :: "(nat, 'w) cliNet \<Rightarrow> 'w net \<Rightarrow> sortSlice \<Rightarrow> entryOrder \<Rightarrow> (string \<Rightarrow> string) \<Rightarrow> (string \<Rightarrow> string + (string \<times> ClusterNode option) list)
    \<Rightarrow> string list \<Rightarrow> 'w \<Rightarrow> (cliError option \<times> 'w) option" where
  "rebalanceCommand net rnet srt ord uni unmarshal args w =
     (if length args > 1 then Some (Some Usage, w)
      else let addr = (if length args = 1 \<and> args ! 0 \<noteq> [] then args ! 0 else ''127.0.0.1:6379'')
           in case SplitHostPort addr of
                Inl e \<Rightarrow> Some (Some (BadAddress addr e), w)
              | Inr (host, _) \<Rightarrow>
                  if host = [] then Some (Some (EmptyHost addr), w)
                  else case readClusterNodes net uni unmarshal addr w of
                         (Inl e, w1) \<Rightarrow> Some (Some e, w1)
                       | (Inr nodes, w1) \<Rightarrow>
                           (case ClusterRebalanceNodes rnet srt nodes ord w1 of
                              None \<Rightarrow> None
                            | Some (Inl e, w2) \<Rightarrow> Some (Some (RebalanceFailed e), w2)
                            | Some (Inr result, w2) \<Rightarrow> Some (if result \<noteq> 1 then Some (RebalanceResult result) else None, w2)))"

text \<open>Adding a node, optionally in a container that is removed again on any error; \<open>startC\<close> and \<open>removeC\<close> are the two
  \<^verbatim>\<open>docker\<close> commands.\<close>

definition meetNode :: "(nat, 'w) cliNet \<Rightarrow> string \<Rightarrow> string \<Rightarrow> string \<Rightarrow> string \<Rightarrow> 'w \<Rightarrow> cliError option \<times> 'w" where
  "meetNode net newHost newPort existingHost existingPort w =
     (case Atoi existingPort of
        Inl e \<Rightarrow> (Some (BadPort e), w)
      | Inr prt \<Rightarrow>
          (let addr = JoinHostPort newHost newPort
           in case cn_dial net 0 addr w of
                (Some e, w1) \<Rightarrow> (Some (CannotConnect addr e), w1)
              | (None, w1) \<Rightarrow>
                  (case ClusterMeet net 0 prt existingHost w1 of
                     (None, w2) \<Rightarrow> (None, w2)
                   | (Some (Inl e), w2) \<Rightarrow> (Some (MeetUnsent addr e), w2)
                   | (Some (Inr e), w2) \<Rightarrow> (Some (MeetRefused addr e), w2))))"

definition addNodeCommand :: "(nat, 'w) cliNet \<Rightarrow> (string \<Rightarrow> string \<Rightarrow> 'w \<Rightarrow> string option \<times> 'w) \<Rightarrow> (string \<Rightarrow> 'w \<Rightarrow> 'w) \<Rightarrow> string list \<Rightarrow> 'w
    \<Rightarrow> cliError option \<times> 'w" where
  "addNodeCommand net startC removeC args w =
     (let docker = (args \<noteq> [] \<and> hd args = ''--docker''); rest = (if docker then tl args else args)
      in case rest of
           [newAddr, existingAddr] \<Rightarrow>
             (case SplitHostPort newAddr of
                Inl e \<Rightarrow> (Some (BadAddress newAddr e), w)
              | Inr (newHost, newPort) \<Rightarrow>
                  (case SplitHostPort existingAddr of
                     Inl e \<Rightarrow> (Some (BadAddress existingAddr e), w)
                   | Inr (existingHost, existingPort) \<Rightarrow>
                       if docker then
                         (case startC newHost newPort w of
                            (Some e, w1) \<Rightarrow> (Some (StartFailed e), w1)
                          | (None, w1) \<Rightarrow>
                              (case meetNode net ''127.0.0.1'' newPort existingHost existingPort w1 of
                                 (None, w2) \<Rightarrow> (None, w2)
                               | (Some e, w2) \<Rightarrow> (Some e, removeC newHost w2)))
                       else meetNode net newHost newPort existingHost existingPort w))
         | _ \<Rightarrow> (Some Usage, w))"

text \<open>The \<^verbatim>\<open>switch\<close> of \<^verbatim>\<open>main\<close> over the arguments of the program.\<close>

datatype cliAction = Connect int | AddNode "string list" | Rebalance "string list" | CreateCluster "string list" | NoPortGiven | Nothing

definition cliMain :: "string list \<Rightarrow> cliAction" where
  "cliMain args =
     (case args of
        [] \<Rightarrow> Connect 6379
      | cmd # rest \<Rightarrow>
          if cmd = ''--cluster-add-node'' then AddNode rest
          else if cmd = ''--cluster-rebalance-nodes'' \<or> cmd = ''--rebalance-nodes'' then Rebalance rest
          else if cmd = ''--create-cluster'' then CreateCluster rest
          else if cmd = ''--port'' then
            (case rest of [p] \<Rightarrow> (case Atoi p of Inl _ \<Rightarrow> Nothing | Inr prt \<Rightarrow> Connect prt) | _ \<Rightarrow> NoPortGiven)
          else Nothing)"

text \<open>Addresses are put together and taken apart again without loss.\<close>

lemma LastIndexByte_last: "c \<notin> set ys \<Longrightarrow> LastIndexByte (xs @ c # ys) c = Some (length xs)"
proof -
  assume "c \<notin> set ys"
  then have "takeWhile (\<lambda>x. x \<noteq> c) (rev ys @ c # rev xs) = rev ys" by (subst takeWhile_append2) auto
  then show ?thesis by (simp add: LastIndexByte_def)
qed

lemma JoinHostPort_roundtrip:
  assumes "CHR ''['' \<notin> set (host @ prt)" "CHR '']'' \<notin> set (host @ prt)" "CHR '':'' \<notin> set prt"
  shows "SplitHostPort (JoinHostPort host prt) = Inr (host, prt)"
proof (cases "CHR '':'' \<in> set host")
  case True
  let ?s = "CHR ''['' # host @ CHR '']'' # CHR '':'' # prt"
  have "LastIndexByte ((CHR ''['' # host @ ['']'' ! 0]) @ CHR '':'' # prt) (CHR '':'') = Some (length host + 2)"
    using LastIndexByte_last [OF assms(3), of "CHR ''['' # host @ ['']'' ! 0]"] by simp
  then have i: "LastIndexByte ?s (CHR '':'') = Some (length host + 2)" by simp
  have "IndexByte ?s (CHR '']'') = Some (Suc (length host))"
    using assms(2) by (auto simp: IndexByte_Some_iff nth_append nth_Cons split: nat.split dest: nth_mem)
  with i True assms show ?thesis by (simp add: JoinHostPort_def SplitHostPort_def Let_def)
next
  case False
  have i: "LastIndexByte (host @ CHR '':'' # prt) (CHR '':'') = Some (length host)" by (rule LastIndexByte_last [OF assms(3)])
  have "(host @ CHR '':'' # prt) ! 0 \<noteq> CHR ''[''" using assms(1) by (cases host) auto
  with i False assms show ?thesis by (simp add: JoinHostPort_def SplitHostPort_def Let_def)
qed

section \<open>The division of the slots\<close>

definition perNode :: "nat \<Rightarrow> rat" where "perNode n = flDiv (of_nat CLUSTER_CLI_SLOTS) (of_nat n)"

fun cursorAt :: "nat \<Rightarrow> nat \<Rightarrow> rat" where
  "cursorAt n 0 = 0"
| "cursorAt n (Suc i) = flAdd (cursorAt n i) (perNode n)"

text \<open>The end of the share of node \<open>i\<close> unless it is the last one.\<close>

definition endAt :: "nat \<Rightarrow> nat \<Rightarrow> int" where "endAt n i = mathRound (flSub (cursorAt n (Suc i)) 1)"

definition exact :: "nat \<Rightarrow> nat \<Rightarrow> rat" where "exact n i = of_nat i * (16384 / of_nat n)"

lemma exact_Suc: "exact n (Suc i) = exact n i + 16384 / of_nat n"
  unfolding exact_def of_nat_Suc distrib_right by simp

lemma perNode_error:
  assumes "3 \<le> n"
  shows "\<bar>perNode n - 16384 / of_nat n\<bar> \<le> 1 / 2199023255552"
proof -
  have "3 \<le> (of_nat n :: rat)" using assms by (metis of_nat_le_iff of_nat_numeral)
  then have "\<bar>16384 / of_nat n\<bar> < (2 :: rat) ^ 13" by (simp add: divide_less_eq)
  from fl_error [OF this] show ?thesis by (simp add: perNode_def flDiv_def CLUSTER_CLI_SLOTS_def)
qed

lemma exact_bound:
  assumes "0 < n" "i \<le> n"
  shows "0 \<le> exact n i" "exact n i \<le> 16384"
proof -
  have "(of_nat i :: rat) \<le> of_nat n" using assms(2) by (simp only: of_nat_le_iff)
  then show "exact n i \<le> 16384" using assms(1) by (simp add: exact_def divide_le_eq)
qed (simp add: exact_def)

lemma fl_error_15: "\<bar>x\<bar> < 32768 \<Longrightarrow> \<bar>fl x - x\<bar> \<le> 1 / 549755813888"
  using fl_error [of x 15] by simp

lemma cursor_error:
  assumes "3 \<le> n" "n \<le> 16384" "i \<le> n"
  shows "\<bar>cursorAt n i - exact n i\<bar> \<le> of_nat i / 274877906944"
  using assms(3)
proof (induction i)
  case (Suc i)
  define c k e s where defs: "c = cursorAt n i" "k = (of_nat i :: rat)" "e = exact n i" "s = (16384 / of_nat n :: rat)"
  have IH: "\<bar>c - e\<bar> \<le> k / 274877906944" using Suc by (simp add: defs)
  have k: "k \<le> 16384" "0 \<le> k" using Suc.prems assms(2) by (simp_all add: defs)
  have p: "\<bar>perNode n - s\<bar> \<le> 1 / 2199023255552" using perNode_error [OF assms(1)] by (simp add: defs)
  have b: "0 \<le> e + s" "e + s \<le> 16384" using exact_bound [of n "Suc i"] assms(1) Suc.prems by (simp_all add: exact_Suc defs)
  have "\<bar>c + perNode n\<bar> < 32768" using IH p b k by linarith
  from fl_error_15 [OF this] have "\<bar>flAdd c (perNode n) - (c + perNode n)\<bar> \<le> 1 / 549755813888" by (simp add: flAdd_def)
  then have "\<bar>flAdd c (perNode n) - (e + s)\<bar> \<le> k / 274877906944 + 1 / 274877906944" using IH p by linarith
  then show ?case by (simp add: defs exact_Suc add_divide_distrib add.commute)
qed (simp add: exact_def)

lemma end_error:
  assumes "3 \<le> n" "n \<le> 16384" "i < n"
  shows "\<bar>flSub (cursorAt n (Suc i)) 1 - (exact n (Suc i) - 1)\<bar> \<le> 1 / 8388608"
proof -
  define c k e where defs: "c = cursorAt n (Suc i)" "k = (of_nat (Suc i) :: rat)" "e = exact n (Suc i)"
  have c: "\<bar>c - e\<bar> \<le> k / 274877906944" unfolding defs by (rule cursor_error) (use assms in simp_all)
  have k: "k \<le> 16384" unfolding defs using assms(2,3) by (metis Suc_leI of_nat_le_iff of_nat_numeral order_trans)
  have b: "0 \<le> e" "e \<le> 16384" using exact_bound [of n "Suc i"] assms by (simp_all add: defs)
  have "\<bar>c - 1\<bar> < 32768" using c b k by linarith
  from fl_error_15 [OF this] have "\<bar>flSub c 1 - (c - 1)\<bar> \<le> 1 / 549755813888" by (simp add: flSub_def)
  then have "\<bar>flSub c 1 - (e - 1)\<bar> \<le> 1 / 8388608" using c k by linarith
  then show ?thesis by (simp only: defs)
qed

lemma share_big:
  assumes "3 \<le> n" "n < 16384"
  shows "1 + 1 / 16384 \<le> (16384 / of_nat n :: rat)"
proof -
  have "n \<le> 16383" "0 < n" using assms by simp_all
  then have "(of_nat n :: rat) \<le> of_nat 16383" "0 < (of_nat n :: rat)" by (simp_all only: of_nat_le_iff of_nat_0_less_iff)
  then show ?thesis by (simp add: le_divide_eq)
qed

lemma endAt_facts:
  assumes "3 \<le> n" "n < 16384" "i < n"
  shows "0 \<le> endAt n i" "Suc i < n \<Longrightarrow> endAt n i < endAt n (Suc i)" "Suc i < n \<Longrightarrow> endAt n i \<le> 16382"
    "\<bar>of_int (endAt n i) - (exact n (Suc i) - 1)\<bar> \<le> 1 / 2 + 1 / 8388608"
proof -
  define x y e s where defs: "x = flSub (cursorAt n (Suc i)) 1" "y = flSub (cursorAt n (Suc (Suc i))) 1" "e = exact n (Suc i)"
    "s = (16384 / of_nat n :: rat)"
  have s: "1 + 1 / 16384 \<le> s" using share_big [OF assms(1,2)] by (simp add: defs)
  have x: "\<bar>x - (e - 1)\<bar> \<le> 1 / 8388608" unfolding defs by (rule end_error) (use assms in simp_all)
  have "e = exact n i + s" "0 \<le> exact n i" using exact_bound(1) [of n i] assms by (simp_all add: defs exact_Suc)
  then have x0: "0 \<le> x" using x s by linarith
  then have ex: "endAt n i = \<lfloor>x + 1 / 2\<rfloor>" by (simp add: endAt_def mathRound_def defs)
  show "0 \<le> endAt n i" using x0 by (simp add: ex)
  show "\<bar>of_int (endAt n i) - (exact n (Suc i) - 1)\<bar> \<le> 1 / 2 + 1 / 8388608"
    unfolding ex defs(3) [symmetric] using x by linarith
  assume si: "Suc i < n"
  have y: "\<bar>y - (e + s - 1)\<bar> \<le> 1 / 8388608"
    using end_error [of n "Suc i"] assms si unfolding defs by (simp add: exact_Suc)
  then have "x + 1 \<le> y" using x s by linarith
  moreover have "endAt n (Suc i) = \<lfloor>y + 1 / 2\<rfloor>" using calculation x0 by (simp add: endAt_def mathRound_def defs)
  ultimately show "endAt n i < endAt n (Suc i)" unfolding ex by linarith
  have "e + s \<le> 16384" using exact_bound(2) [of n "Suc (Suc i)"] assms si by (simp add: defs exact_Suc)
  then have "x < 16382" using x s by linarith
  then show "endAt n i \<le> 16382" unfolding ex by linarith
qed

text \<open>The ranges as both loops compute them.\<close>

fun slotRanges :: "rat \<Rightarrow> nat \<Rightarrow> int \<Rightarrow> rat \<Rightarrow> (int \<times> int) list" where
  "slotRanges spn 0 first cursor = []"
| "slotRanges spn (Suc k) first cursor =
     (let hi = lastSlot spn (k = 0) first cursor in (first, hi) # slotRanges spn k (hi + 1) (flAdd cursor spn))"

definition rangeStart :: "nat \<Rightarrow> nat \<Rightarrow> int" where "rangeStart n i = (if i = 0 then 0 else endAt n (i - 1) + 1)"

definition rangeEnd :: "nat \<Rightarrow> nat \<Rightarrow> int" where "rangeEnd n i = (if Suc i = n then 16383 else endAt n i)"

lemma range_facts:
  assumes "3 \<le> n" "n < 16384" "i < n"
  shows "0 \<le> rangeStart n i" "rangeStart n i \<le> rangeEnd n i" "rangeEnd n i \<le> 16383" "Suc i < n \<Longrightarrow> rangeStart n (Suc i) = rangeEnd n i + 1"
proof -
  note f = endAt_facts [OF assms] and g = endAt_facts [OF assms(1,2), of "i - 1"]
  show "0 \<le> rangeStart n i" using g(1) assms(3) by (simp add: rangeStart_def)
  show "rangeEnd n i \<le> 16383" using f(3) assms(3) by (cases "Suc i = n") (simp_all add: rangeEnd_def)
  show "rangeStart n i \<le> rangeEnd n i"
    using f(1) g(2,3) assms by (cases i) (auto simp: rangeStart_def rangeEnd_def)
qed (simp add: rangeStart_def rangeEnd_def)

lemma lastSlot_range:
  assumes "3 \<le> n" "n < 16384" "i < n"
  shows "lastSlot (perNode n) (Suc i = n) (rangeStart n i) (cursorAt n i) = rangeEnd n i"
proof -
  have "mathRound (flSub (flAdd (cursorAt n i) (perNode n)) 1) = endAt n i" by (simp add: endAt_def)
  moreover have "endAt n i \<le> 16382" if "Suc i \<noteq> n" using endAt_facts(3) [OF assms] that assms(3) by simp
  ultimately show ?thesis
    using range_facts(2) [OF assms] by (cases "Suc i = n") (simp_all add: lastSlot_def rangeEnd_def CLUSTER_CLI_SLOTS_def Let_def)
qed

lemma slotRanges_eq:
  assumes "3 \<le> n" "n < 16384" "i \<le> n"
  shows "slotRanges (perNode n) (n - i) (rangeStart n i) (cursorAt n i) = map (\<lambda>j. (rangeStart n j, rangeEnd n j)) [i..<n]"
  using assms(3)
proof (induction "n - i" arbitrary: i)
  case (Suc k)
  then have i: "i < n" "k = n - Suc i" "k = 0 \<longleftrightarrow> Suc i = n" by auto
  have "slotRanges (perNode n) (n - i) (rangeStart n i) (cursorAt n i)
      = (rangeStart n i, rangeEnd n i) # slotRanges (perNode n) k (rangeEnd n i + 1) (cursorAt n (Suc i))"
    unfolding Suc.hyps(2) [symmetric] using lastSlot_range [OF assms(1,2) i(1)] i(3) by (simp add: Let_def)
  also have "slotRanges (perNode n) k (rangeEnd n i + 1) (cursorAt n (Suc i)) = map (\<lambda>j. (rangeStart n j, rangeEnd n j)) [Suc i..<n]"
  proof (cases "Suc i = n")
    case False
    then show ?thesis using Suc.hyps(1) [OF i(2)] range_facts(4) [OF assms(1,2) i(1)] i by simp
  qed (use i in simp)
  finally show ?case using i(1) by (simp add: upt_conv_Cons)
qed simp

lemma ranges_apart:
  assumes "3 \<le> n" "n < 16384" "i < j" "j < n"
  shows "rangeEnd n i < rangeStart n j"
  using assms(3,4)
proof (induction j)
  case (Suc j)
  have "rangeStart n (Suc j) = rangeEnd n j + 1" using range_facts(4) [OF assms(1,2), of j] Suc.prems by simp
  moreover have "rangeEnd n i \<le> rangeEnd n j"
    using Suc.IH Suc.prems range_facts(2) [OF assms(1,2), of j] by (cases "i = j") force+
  ultimately show ?case by simp
qed simp

lemma ranges_cover:
  assumes "3 \<le> n" "n < 16384" "i < n" "0 \<le> t" "t \<le> rangeEnd n i"
  shows "\<exists>j \<le> i. rangeStart n j \<le> t \<and> t \<le> rangeEnd n j"
  using assms(3,5)
proof (induction i)
  case 0
  then show ?case using assms(4) by (auto simp: rangeStart_def)
next
  case (Suc i)
  have s: "rangeStart n (Suc i) = rangeEnd n i + 1" using range_facts(4) [OF assms(1,2), of i] Suc.prems by simp
  show ?case
  proof (cases "t \<le> rangeEnd n i")
    case True
    then obtain j where "j \<le> i" "rangeStart n j \<le> t \<and> t \<le> rangeEnd n j" using Suc by fastforce
    then show ?thesis by (intro exI [of _ j]) simp
  qed (use s Suc.prems in \<open>auto intro!: exI [of _ "Suc i"]\<close>)
qed

lemma one_range:
  assumes "3 \<le> n" "n < 16384" "0 \<le> t" "t \<le> 16383"
  shows "\<exists>!i. i < n \<and> rangeStart n i \<le> t \<and> t \<le> rangeEnd n i"
proof -
  have "rangeEnd n (n - 1) = 16383" using assms(1) by (simp add: rangeEnd_def)
  then obtain j where "j \<le> n - 1" and j: "rangeStart n j \<le> t" "t \<le> rangeEnd n j"
    using ranges_cover [OF assms(1,2), of "n - 1" t] assms by auto
  then have j: "j < n" "rangeStart n j \<le> t" "t \<le> rangeEnd n j" using assms(1) by simp_all
  moreover have "i = j" if "i < n" "rangeStart n i \<le> t" "t \<le> rangeEnd n i" for i
    using ranges_apart [OF assms(1,2), of i j] ranges_apart [OF assms(1,2), of j i] that j by (cases i j rule: linorder_cases) auto
  ultimately show ?thesis by blast
qed

text \<open>The share of every node is what it should be, up to one slot and the error of the arithmetic.\<close>

lemma range_size:
  assumes "3 \<le> n" "n < 16384" "i < n"
  shows "\<bar>of_int (rangeEnd n i - rangeStart n i + 1) - 16384 / of_nat n\<bar> \<le> 1 + 1 / (4194304 :: rat)"
proof -
  define s where "s = (16384 / of_nat n :: rat)"
  have e0: "exact n 0 = 0" and en: "exact n n = 16384" using assms(1) by (simp_all add: exact_def)
  have hi: "\<bar>of_int (rangeEnd n i) - (exact n (Suc i) - 1)\<bar> \<le> 1 / 2 + 1 / 8388608"
    using endAt_facts(4) [OF assms] en by (cases "Suc i = n") (simp_all add: rangeEnd_def)
  have lo: "\<bar>of_int (rangeStart n i) - exact n i\<bar> \<le> 1 / 2 + 1 / 8388608"
  proof (cases i)
    case (Suc k)
    define e x where "e = exact n (Suc k)" and "x = (of_int (endAt n k) :: rat)"
    have "\<bar>x - (e - 1)\<bar> \<le> 1 / 2 + 1 / 8388608" unfolding e_def x_def by (rule endAt_facts(4)) (use assms Suc in simp_all)
    then have "\<bar>x + 1 - e\<bar> \<le> 1 / 2 + 1 / 8388608" by linarith
    then show ?thesis using Suc by (simp add: rangeStart_def e_def x_def)
  qed (simp add: rangeStart_def e0)
  have "exact n (Suc i) = exact n i + s" by (simp add: exact_Suc s_def)
  with hi lo have "\<bar>of_int (rangeEnd n i) - of_int (rangeStart n i) + 1 - s\<bar> \<le> 1 + 1 / 4194304" by linarith
  then show ?thesis by (simp add: s_def)
qed

text \<open>The marks the first loop sets.\<close>

definition markRange :: "cliNode \<Rightarrow> int \<times> int \<Rightarrow> cliNode" where
  "markRange n r = n\<lparr>nodeSlots := map (\<lambda>i. if fst r \<le> int i \<and> int i \<le> snd r then True else nodeSlots n ! i) [0..<CLUSTER_CLI_SLOTS],
     slotsCount := snd r - fst r + 1, dirty := 1\<rparr>"

lemma allocate_ranges:
  assumes "\<forall>n \<in> set ns. length (nodeSlots n) = CLUSTER_CLI_SLOTS"
    and "\<forall>(lo, hi) \<in> set (slotRanges spn (length ns) first cursor). 0 \<le> lo \<and> hi \<le> 16383"
  shows "allocate spn ns first cursor = Some (map2 markRange ns (slotRanges spn (length ns) first cursor))"
  using assms
proof (induction ns arbitrary: first cursor)
  case (Cons n ns)
  let ?hi = "lastSlot spn (ns = []) first cursor"
  have "0 \<le> first" "?hi \<le> 16383" using Cons.prems(2) by (auto simp: Let_def)
  then have "fillRange True first ?hi (nodeSlots n) =
      Some (map (\<lambda>i. if first \<le> int i \<and> int i \<le> ?hi then True else nodeSlots n ! i) [0..<CLUSTER_CLI_SLOTS])"
    using Cons.prems(1) by (subst fillRange_ok) (simp_all add: CLUSTER_CLI_SLOTS_def)
  moreover have "allocate spn ns (?hi + 1) (flAdd cursor spn) = Some (map2 markRange ns (slotRanges spn (length ns) (?hi + 1) (flAdd cursor spn)))"
    using Cons.prems by (intro Cons.IH) (auto simp: Let_def)
  ultimately show ?case by (simp add: Let_def markRange_def)
qed simp

lemma ranges_of:
  assumes "3 \<le> n" "n < 16384"
  shows "slotRanges (flDiv (of_nat CLUSTER_CLI_SLOTS) (of_nat n)) n 0 0 = map (\<lambda>j. (rangeStart n j, rangeEnd n j)) [0..<n]"
  using slotRanges_eq [OF assms, of 0] by (simp add: rangeStart_def perNode_def)

section \<open>A new cluster of servers\<close>

definition cliSim :: "ctx \<Rightarrow> (nat, nat world) cliNet" where
  "cliSim cx = \<lparr>cn_dial = simDial, cn_write = simWrite cx, cn_read = simRead,
     cn_sprint = (\<lambda>v. case v of RStr s \<Rightarrow> s | _ \<Rightarrow> [])\<rparr>"

text \<open>What the two subcommands the client sends do to a server.\<close>

lemma expectOK_sim: "simRead c w = (Inr (RStr ''OK''), w') \<Longrightarrow> expectOK (cliSim cx) c w = (None, w')"
  by (simp add: expectOK_def cliSim_def ExpectStringResponse_def)

lemma addslots_cmd:
  assumes "talksTo w c addr sv" "sv_inv cx True sv" "lo \<le> hi" "hi < 16384"
  shows "\<exists>w1 sv'. simWrite cx c [''CLUSTER'', ''ADDSLOTSRANGE'', Itoa (int lo), Itoa (int hi)] w = (None, w1)
     \<and> expectOK (cliSim cx) c w1 = (None, w\<lparr>srv := (srv w)(addr \<mapsto> sv')\<rparr>) \<and> sv_inv cx True sv' \<and> ownSlots sv' = ownSlots sv \<union> {lo..hi}"
proof -
  obtain s where s: "svCluster sv = Some s" using sv_invD(5) [OF assms(2)] by (cases "svCluster sv") auto
  obtain s' where s': "addSlotsRange lo hi s = Some s'" "bus_wf s'" "self_ref s' = self_ref s"
    "slots_of (store s' (self_ref s)) = slots_of (store s (self_ref s)) \<union> {lo..hi}"
    using addSlotsRange_spec [OF sv_invD(3) [OF assms(2) s] assms(4)] by blast
  have a: "Atoi (Itoa (int lo)) = Inr (int lo)" "Atoi (Itoa (int hi)) = Inr (int hi)"
    by (rule Atoi_Itoa; use assms(3,4) in \<open>simp add: int64_ok_def MinInt64_def MaxInt64_def\<close>)+
  let ?cmd = "[''CLUSTER'', ''ADDSLOTSRANGE'', Itoa (int lo), Itoa (int hi)]" and ?sv = "sv\<lparr>svCluster := Some s'\<rparr>"
  have run: "runCommand cx True ?cmd sv (connSubs w c) = Some (?sv, connSubs w c, [WriteOK], True)"
    using a s s'(1) assms(3,4)
    by (simp add: runCommand_def dispatch_def keyedCommands_def handleCluster_def clusterAddSlotsRangeCmd_def CLUSTER_SLOTS_def)
  have "cmd_ok connLimits ?cmd"
    using slot_text_short [of lo] slot_text_short [of hi] assms(3,4) by (simp add: cmd_ok_def connLimits_def arg_total_def)
  from sim_ask [OF assms(1) this run read_OK] obtain w1
    where w1: "simWrite cx c ?cmd w = (None, w1)" "simRead c w1 = (Inr (RStr ''OK''), w\<lparr>srv := (srv w)(addr \<mapsto> ?sv)\<rparr>)" by auto
  moreover have "ownSlots ?sv = ownSlots sv \<union> {lo..hi}" using s s'(3,4) by (simp add: ownSlots_def)
  ultimately show ?thesis using expectOK_sim [OF w1(2)] sv_inv_cluster [OF assms(2) s'(2)] by blast
qed

lemma sendRanges_sim:
  assumes "distinct (map nodeConn ns)" "inj_on A (nodeConn ` set ns)" "\<forall>n \<in> set ns. dirty n = 1"
    and "\<forall>n \<in> set ns. \<exists>sv. talksTo w (nodeConn n) (A (nodeConn n)) sv \<and> sv_inv cx True sv \<and> ownSlots sv = {}"
    and "\<forall>(lo, hi) \<in> set (slotRanges spn (length ns) first cursor). 0 \<le> lo \<and> lo \<le> hi \<and> hi \<le> 16383"
  shows "\<exists>w'. sendRanges (cliSim cx) spn ns first cursor w = (map (\<lambda>n. n\<lparr>dirty := 0\<rparr>) ns, w')
     \<and> conn w' = conn w \<and> inbox w' = inbox w \<and> connSubs w' = connSubs w
     \<and> (\<forall>(n, lo, hi) \<in> set (zip ns (slotRanges spn (length ns) first cursor)).
          \<exists>sv. srv w' (A (nodeConn n)) = Some sv \<and> sv_inv cx True sv \<and> ownSlots sv = {nat lo..nat hi})
     \<and> (\<forall>a. a \<notin> A ` nodeConn ` set ns \<longrightarrow> srv w' a = srv w a)"
  using assms
proof (induction ns arbitrary: first cursor w)
  case (Cons n ns)
  define hi where "hi = lastSlot spn (ns = []) first cursor"
  let ?c = "nodeConn n"
  have r: "slotRanges spn (length (n # ns)) first cursor = (first, hi) # slotRanges spn (length ns) (hi + 1) (flAdd cursor spn)"
    by (simp add: hi_def Let_def)
  have b: "0 \<le> first" "first \<le> hi" "hi \<le> 16383" using Cons.prems(5) unfolding r by auto
  obtain sv where sv: "talksTo w ?c (A ?c) sv" "sv_inv cx True sv" "ownSlots sv = {}" using Cons.prems(4) by auto
  have nb: "nat first \<le> nat hi" "nat hi < 16384" using b by simp_all
  obtain w1 sv1 where w1: "simWrite cx ?c [''CLUSTER'', ''ADDSLOTSRANGE'', Itoa first, Itoa hi] w = (None, w1)"
    "expectOK (cliSim cx) ?c w1 = (None, w\<lparr>srv := (srv w)(A ?c \<mapsto> sv1)\<rparr>)" "sv_inv cx True sv1" "ownSlots sv1 = {nat first..nat hi}"
    using addslots_cmd [OF sv(1,2) nb] b sv(3) by auto
  let ?w2 = "w\<lparr>srv := (srv w)(A ?c \<mapsto> sv1)\<rparr>"
  have fresh: "A ?c \<notin> A ` nodeConn ` set ns" using Cons.prems(1,2) by (auto simp: inj_on_def)
  have "\<forall>m \<in> set ns. \<exists>sv. talksTo ?w2 (nodeConn m) (A (nodeConn m)) sv \<and> sv_inv cx True sv \<and> ownSlots sv = {}"
  proof
    fix m
    assume m: "m \<in> set ns"
    with fresh have "A (nodeConn m) \<noteq> A ?c" by (metis image_eqI)
    moreover obtain sv' where "talksTo w (nodeConn m) (A (nodeConn m)) sv'" "sv_inv cx True sv'" "ownSlots sv' = {}" using Cons.prems(4) m by auto
    ultimately show "\<exists>sv. talksTo ?w2 (nodeConn m) (A (nodeConn m)) sv \<and> sv_inv cx True sv \<and> ownSlots sv = {}" by (auto simp: talksTo_def)
  qed
  with Cons.prems obtain w3 where w3: "sendRanges (cliSim cx) spn ns (hi + 1) (flAdd cursor spn) ?w2 = (map (\<lambda>n. n\<lparr>dirty := 0\<rparr>) ns, w3)"
    "conn w3 = conn w" "inbox w3 = inbox w" "connSubs w3 = connSubs w"
    "\<forall>(n, lo, hi) \<in> set (zip ns (slotRanges spn (length ns) (hi + 1) (flAdd cursor spn))).
       \<exists>sv. srv w3 (A (nodeConn n)) = Some sv \<and> sv_inv cx True sv \<and> ownSlots sv = {nat lo..nat hi}"
    "\<forall>a. a \<notin> A ` nodeConn ` set ns \<longrightarrow> srv w3 a = srv ?w2 a"
    using Cons.IH [of ?w2 "hi + 1" "flAdd cursor spn"] unfolding r by auto
  have "sendRanges (cliSim cx) spn (n # ns) first cursor w = (map (\<lambda>n. n\<lparr>dirty := 0\<rparr>) (n # ns), w3)"
    using Cons.prems(3) w1(1,2) w3(1) by (simp add: hi_def [symmetric] cliSim_def Let_def)
  moreover have "srv w3 (A ?c) = Some sv1" using w3(6) fresh by simp
  ultimately show ?case using w1(3,4) w3(2-6) unfolding r by (intro exI [of _ w3]) auto
qed simp

lemma meet_cmd:
  assumes "talksTo w c addr sv" "sv_inv cx True sv" "ctx_ok cx" "short host" "length (Itoa prt) \<le> 20"
  shows "\<exists>err sv'. ClusterMeet (cliSim cx) c prt host w = (err, w\<lparr>srv := (srv w)(addr \<mapsto> sv')\<rparr>) \<and> sv_inv cx True sv' \<and> ownSlots sv' = ownSlots sv"
proof -
  obtain s where s: "svCluster sv = Some s" using sv_invD(5) [OF assms(2)] by (cases "svCluster sv") auto
  note bus = sv_invD(3) [OF assms(2) s]
  let ?cmd = "[''CLUSTER'', ''MEET'', host, Itoa prt]"
  have "\<exists>s' r. runCommand cx True ?cmd sv (connSubs w c) = Some (sv\<lparr>svCluster := Some s'\<rparr>, connSubs w c, [r], True)
      \<and> bus_wf s' \<and> slots_of (store s' (self_ref s')) = slots_of (store s (self_ref s)) \<and> (r = WriteOK \<or> (\<exists>e. r = WriteError e))"
  proof (cases "Atoi (Itoa prt)")
    case (Inl e)
    then show ?thesis using s bus
      by (intro exI [of _ s]) (auto simp: runCommand_def dispatch_def keyedCommands_def handleCluster_def clusterMeetCmd_def refuse_def)
  next
    case (Inr p)
    obtain s' err where s': "ClusterStartHandshake (cx_dial cx) (cx_rt cx) host p s = Some (s', err)" "bus_wf s'" "Self s' = Self s"
      "\<forall>r < nextRef s. store s' r = store s r"
      using handshake_safe [OF bus, of "cx_rt cx"] assms(3) by (fastforce simp: ctx_ok_def)
    have wf: "cs_wf s" using bus by (simp add: bus_wf_def)
    have "self_ref s' = self_ref s" using s'(3) by (simp add: self_ref_def)
    then have "slots_of (store s' (self_ref s')) = slots_of (store s (self_ref s))" using s'(4) cs_wfD(2) [OF wf] by simp
    then show ?thesis using s s'(1,2) Inr
      by (intro exI [of _ s'])
        (cases err; auto simp: runCommand_def dispatch_def keyedCommands_def handleCluster_def clusterMeetCmd_def refuse_def)
  qed
  then obtain s' r where run: "runCommand cx True ?cmd sv (connSubs w c) = Some (sv\<lparr>svCluster := Some s'\<rparr>, connSubs w c, [r], True)"
    "bus_wf s'" "slots_of (store s' (self_ref s')) = slots_of (store s (self_ref s))" "r = WriteOK \<or> (\<exists>e. r = WriteError e)" by blast
  then obtain v where v: "readValue 4 (r @ []) = Some (v, [])" using read_OK read_Error by metis
  have "cmd_ok connLimits ?cmd" using assms(4,5) by (simp add: cmd_ok_def connLimits_def arg_total_def short_def)
  from sim_ask [OF assms(1) this run(1) v] obtain w1 where
    w1: "simWrite cx c ?cmd w = (None, w1)" "simRead c w1 = (Inr v, w\<lparr>srv := (srv w)(addr \<mapsto> sv\<lparr>svCluster := Some s'\<rparr>)\<rparr>)" by auto
  have "ownSlots (sv\<lparr>svCluster := Some s'\<rparr>) = ownSlots sv" using s run(3) by (simp add: ownSlots_def)
  then show ?thesis
    using w1 sv_inv_cluster [OF assms(2) run(2)] by (auto simp: ClusterMeet_def expectOK_def cliSim_def)
qed

text \<open>Meeting the other nodes leaves every server with the slots it has.\<close>

lemma meetLoop_sim:
  assumes "talksTo w c addr sv" "sv_inv cx True sv" "ctx_ok cx" "\<forall>n \<in> set ns. short (clusterHost n) \<and> length (Itoa (clusterPort n)) \<le> 20"
  shows "\<exists>err w' sv'. meetLoop (cliSim cx) c ns w = (err, w') \<and> srv w' = (srv w)(addr \<mapsto> sv') \<and> sv_inv cx True sv' \<and> ownSlots sv' = ownSlots sv"
  using assms(1,2,4)
proof (induction ns arbitrary: w sv)
  case Nil
  then show ?case by (intro exI [of _ None] exI [of _ w] exI [of _ sv]) (simp add: talksTo_def fun_upd_idem)
next
  case (Cons n ns)
  obtain err sv1 where m: "ClusterMeet (cliSim cx) c (clusterPort n) (clusterHost n) w = (err, w\<lparr>srv := (srv w)(addr \<mapsto> sv1)\<rparr>)"
    "sv_inv cx True sv1" "ownSlots sv1 = ownSlots sv"
    using meet_cmd [OF Cons.prems(1,2) assms(3)] Cons.prems(3) by fastforce
  show ?case
  proof (cases err)
    case None
    have "talksTo (w\<lparr>srv := (srv w)(addr \<mapsto> sv1)\<rparr>) c addr sv1" using Cons.prems(1) by (simp add: talksTo_def)
    from Cons.IH [OF this m(2)] Cons.prems(3) obtain err2 w' sv' where
      "meetLoop (cliSim cx) c ns (w\<lparr>srv := (srv w)(addr \<mapsto> sv1)\<rparr>) = (err2, w')" "srv w' = (srv w)(addr \<mapsto> sv')" "sv_inv cx True sv'"
      "ownSlots sv' = ownSlots sv1" by fastforce
    then show ?thesis using m None by (intro exI [of _ err2] exI [of _ w'] exI [of _ sv']) simp
  next
    case (Some e)
    then have "fst (meetLoop (cliSim cx) c (n # ns) w) \<noteq> None" "snd (meetLoop (cliSim cx) c (n # ns) w) = w\<lparr>srv := (srv w)(addr \<mapsto> sv1)\<rparr>"
      using m(1) by (cases e; simp)+
    then show ?thesis using m(2,3)
      by (intro exI [of _ "fst (meetLoop (cliSim cx) c (n # ns) w)"] exI [of _ "w\<lparr>srv := (srv w)(addr \<mapsto> sv1)\<rparr>"] exI [of _ sv1]) (simp add: prod_eq_iff)
  qed
qed

text \<open>Connecting: every node is a server at its address, with no slots yet.\<close>

definition ready :: "ctx \<Rightarrow> 'c world \<Rightarrow> string \<Rightarrow> bool" where
  "ready cx w addr \<longleftrightarrow> (\<exists>h p sv s. SplitHostPort addr = Inr (h, p) \<and> srv w addr = Some sv \<and> sv_inv cx True sv \<and> ownSlots sv = {}
     \<and> svCluster sv = Some s \<and> short (Host (store s (self_ref s))) \<and> int64_ok (ClientPort (store s (self_ref s))))"

lemma int64_text: "int64_ok x \<Longrightarrow> length (Itoa x) \<le> 20"
  using utoa_length [of "nat x" 19] utoa_length [of "nat (- x)" 19]
  by (auto simp: Itoa_def int64_ok_def MinInt64_def MaxInt64_def nat_less_iff)

lemma connectNode_sim:
  assumes "ready cx w addr"
  shows "\<exists>n w'. connectNode (cliSim cx) i addr w = (Inr n, w') \<and> srv w' = srv w
     \<and> conn w' = (conn w)(i \<mapsto> addr) \<and> inbox w' = (inbox w)(i := []) \<and> nodeConn n = i \<and> nodeSlots n = replicate CLUSTER_CLI_SLOTS False
     \<and> short (clusterHost n) \<and> length (Itoa (clusterPort n)) \<le> 20"
proof -
  obtain h p sv s where r: "SplitHostPort addr = Inr (h, p)" "srv w addr = Some sv" "sv_inv cx True sv" "svCluster sv = Some s"
    "short (Host (store s (self_ref s)))" "int64_ok (ClientPort (store s (self_ref s)))"
    using assms unfolding ready_def by blast
  let ?me = "store s (self_ref s)"
  let ?w1 = "w\<lparr>conn := (conn w)(i \<mapsto> addr), connSubs := (connSubs w)(i := GoMap []), inbox := (inbox w)(i := [])\<rparr>"
  have self: "deref s (Self s) = Some ?me"
    using sv_invD(3) [OF r(3,4)] cs_wfD(1) [of s] by (simp add: deref_def bus_wf_def)
  have run: "runCommand cx True [''CLUSTER'', ''MYADDR''] sv (connSubs ?w1 i)
      = Some (sv, connSubs ?w1 i, [WriteArrayString [Host ?me, Itoa (ClientPort ?me)]], True)"
    using r(4) self cs_wfD(1) [of s] sv_invD(3) [OF r(3,4)]
    by (simp add: runCommand_def dispatch_def keyedCommands_def handleCluster_def Snapshot_def bus_wf_def)
  have "talksTo ?w1 i addr sv" "cmd_ok connLimits [''CLUSTER'', ''MYADDR'']"
    using r(2) by (simp_all add: talksTo_def cmd_ok_def connLimits_def arg_total_def)
  from sim_ask [OF this run read_keys] obtain w2 where
    w2: "simWrite cx i [''CLUSTER'', ''MYADDR''] ?w1 = (None, w2)"
      "simRead i w2 = (Inr (RArr (map RStr [Host ?me, Itoa (ClientPort ?me)])), setServer i addr sv (connSubs ?w1 i) ?w1)" by blast
  have "setServer i addr sv (connSubs ?w1 i) ?w1 = ?w1" using r(2) by (simp add: fun_upd_idem)
  then show ?thesis
    using r w2 Atoi_Itoa [OF r(6)] int64_text [OF r(6)] by (simp add: connectNode_def cliSim_def simDial_def)
qed

lemma connectNodes_sim:
  assumes "\<forall>addr \<in> set addrs. ready cx w addr"
  shows "\<exists>ns w'. connectNodes (cliSim cx) i addrs acc w = (Inr (acc @ ns), w') \<and> srv w' = srv w \<and> length ns = length addrs
     \<and> (\<forall>c < i. conn w' c = conn w c \<and> inbox w' c = inbox w c)
     \<and> (\<forall>j < length addrs. conn w' (i + j) = Some (addrs ! j) \<and> inbox w' (i + j) = [] \<and> nodeConn (ns ! j) = i + j
          \<and> nodeSlots (ns ! j) = replicate CLUSTER_CLI_SLOTS False \<and> short (clusterHost (ns ! j)) \<and> length (Itoa (clusterPort (ns ! j))) \<le> 20)"
  using assms
proof (induction addrs arbitrary: i acc w)
  case (Cons addr addrs)
  obtain n w1 where n: "connectNode (cliSim cx) i addr w = (Inr n, w1)" "srv w1 = srv w" "conn w1 = (conn w)(i \<mapsto> addr)" "inbox w1 = (inbox w)(i := [])"
    "nodeConn n = i" "nodeSlots n = replicate CLUSTER_CLI_SLOTS False" "short (clusterHost n)" "length (Itoa (clusterPort n)) \<le> 20"
    using connectNode_sim [of cx w addr i] Cons.prems by auto
  have "\<forall>a \<in> set addrs. ready cx w1 a" using Cons.prems n(2) by (simp add: ready_def)
  then obtain ns w' where IH: "connectNodes (cliSim cx) (i + 1) addrs (acc @ [n]) w1 = (Inr ((acc @ [n]) @ ns), w')" "srv w' = srv w1"
    "length ns = length addrs" "\<forall>c < i + 1. conn w' c = conn w1 c \<and> inbox w' c = inbox w1 c"
    "\<forall>j < length addrs. conn w' (i + 1 + j) = Some (addrs ! j) \<and> inbox w' (i + 1 + j) = [] \<and> nodeConn (ns ! j) = i + 1 + j
       \<and> nodeSlots (ns ! j) = replicate CLUSTER_CLI_SLOTS False \<and> short (clusterHost (ns ! j)) \<and> length (Itoa (clusterPort (ns ! j))) \<le> 20"
    using Cons.IH [of w1 "i + 1" "acc @ [n]"] by blast
  have "conn w' (i + j) = Some ((addr # addrs) ! j) \<and> inbox w' (i + j) = [] \<and> nodeConn ((n # ns) ! j) = i + j
      \<and> nodeSlots ((n # ns) ! j) = replicate CLUSTER_CLI_SLOTS False \<and> short (clusterHost ((n # ns) ! j))
      \<and> length (Itoa (clusterPort ((n # ns) ! j))) \<le> 20" if "j < length (addr # addrs)" for j
    using that IH(4,5) n by (cases j) simp_all
  then show ?case using n(1,2,3,4) IH(1-4) by (intro exI [of _ "n # ns"] exI [of _ w']) simp
qed simp

lemma create_assigns:
  assumes "3 \<le> length addrs" "length addrs < 16384" "distinct addrs" "\<forall>addr \<in> set addrs. ready cx w addr"
  shows "\<exists>ns w'. createCluster (cliSim cx) addrs w = Some (meetLoop (cliSim cx) 0 ns w') \<and> conn w' 0 = Some (addrs ! 0) \<and> inbox w' 0 = []
     \<and> (\<forall>x \<in> set ns. short (clusterHost x) \<and> length (Itoa (clusterPort x)) \<le> 20)
     \<and> (\<forall>j < length addrs. \<exists>sv. srv w' (addrs ! j) = Some sv \<and> sv_inv cx True sv
          \<and> ownSlots sv = {nat (rangeStart (length addrs) j)..nat (rangeEnd (length addrs) j)})"
proof -
  let ?n = "length addrs" and ?A = "\<lambda>i. addrs ! i"
  let ?rs = "map (\<lambda>j. (rangeStart ?n j, rangeEnd ?n j)) [0..<?n]" and ?spn = "flDiv (of_nat CLUSTER_CLI_SLOTS) (of_nat (length addrs))"
  note f = range_facts [OF assms(1,2)]
  obtain ns w1 where c: "connectNodes (cliSim cx) 0 addrs [] w = (Inr ns, w1)" "srv w1 = srv w" "length ns = ?n"
    "\<forall>j < ?n. conn w1 j = Some (addrs ! j) \<and> inbox w1 j = [] \<and> nodeConn (ns ! j) = j
       \<and> nodeSlots (ns ! j) = replicate CLUSTER_CLI_SLOTS False \<and> short (clusterHost (ns ! j)) \<and> length (Itoa (clusterPort (ns ! j))) \<le> 20"
    using connectNodes_sim [OF assms(4), of 0 "[]"] by auto
  define ns1 where "ns1 = map2 markRange ns ?rs"
  have rs: "slotRanges ?spn (length ns) 0 0 = ?rs" "length ns1 = ?n" using ranges_of [OF assms(1,2)] c(3) by (simp_all add: ns1_def)
  have all: "\<forall>x \<in> set ns. P x" if "\<And>j. j < ?n \<Longrightarrow> P (ns ! j)" for P using that c(3) by (metis in_set_conv_nth)
  have a: "allocate ?spn ns 0 0 = Some ns1"
    unfolding ns1_def rs(1) [symmetric]
    by (rule allocate_ranges) (use all [of "\<lambda>x. length (nodeSlots x) = CLUSTER_CLI_SLOTS"] c(4) f in \<open>auto simp: rs(1)\<close>)
  have nth1: "ns1 ! j = markRange (ns ! j) (rangeStart ?n j, rangeEnd ?n j)" "nodeConn (ns1 ! j) = j" "dirty (ns1 ! j) = 1"
    "clusterHost (ns1 ! j) = clusterHost (ns ! j)" "clusterPort (ns1 ! j) = clusterPort (ns ! j)" if "j < ?n" for j
    using that c(3,4) by (simp_all add: ns1_def markRange_def)
  have conns: "map nodeConn ns1 = [0..<?n]" by (rule nth_equalityI) (use rs(2) nth1(2) in simp_all)
  have all1: "\<forall>x \<in> set ns1. P x" if "\<And>j. j < ?n \<Longrightarrow> P (ns1 ! j)" for P using that rs(2) by (metis in_set_conv_nth)
  have inj: "inj_on ?A (nodeConn ` set ns1)"
    using assms(3) conns by (metis atLeastLessThan_iff inj_on_nth list.set_map nth_eq_iff_index_eq inj_on_def set_upt)
  have "\<exists>sv. talksTo w1 j (addrs ! j) sv \<and> sv_inv cx True sv \<and> ownSlots sv = {}" if "j < ?n" for j
    using that assms(4) nth_mem [OF that] c(2,4) unfolding ready_def talksTo_def by fastforce
  then obtain w2 where s: "sendRanges (cliSim cx) ?spn ns1 0 0 w1 = (map (\<lambda>n. n\<lparr>dirty := 0\<rparr>) ns1, w2)" "conn w2 = conn w1" "inbox w2 = inbox w1"
    "\<forall>(n, lo, hi) \<in> set (zip ns1 ?rs). \<exists>sv. srv w2 (?A (nodeConn n)) = Some sv \<and> sv_inv cx True sv \<and> ownSlots sv = {nat lo..nat hi}"
    using sendRanges_sim [of ns1 ?A w1 cx ?spn 0 0] conns inj all1 [of "\<lambda>x. dirty x = 1"] nth1(2,3)
      all1 [of "\<lambda>x. \<exists>sv. talksTo w1 (nodeConn x) (?A (nodeConn x)) sv \<and> sv_inv cx True sv \<and> ownSlots sv = {}"] rs f
    by (auto simp: rs(2) c(3))
  have own: "\<exists>sv. srv w2 (addrs ! j) = Some sv \<and> sv_inv cx True sv \<and> ownSlots sv = {nat (rangeStart ?n j)..nat (rangeEnd ?n j)}" if "j < ?n" for j
  proof -
    have "(ns1 ! j, rangeStart ?n j, rangeEnd ?n j) \<in> set (zip ns1 ?rs)" using that rs(2) by (auto simp: in_set_zip intro!: exI [of _ j])
    then show ?thesis using s(4) nth1(2) [OF that] by fastforce
  qed
  let ?ns2 = "map (\<lambda>n. n\<lparr>dirty := 0\<rparr>) ns1"
  have n0: "0 < ?n" using assms(1) by linarith
  have "\<forall>x \<in> set (drop 1 ?ns2). short (clusterHost x) \<and> length (Itoa (clusterPort x)) \<le> 20"
    using all1 [of "\<lambda>x. short (clusterHost x) \<and> length (Itoa (clusterPort x)) \<le> 20"] nth1(4,5) c(4) by (fastforce dest: in_set_dropD)
  moreover have "createCluster (cliSim cx) addrs w = Some (meetLoop (cliSim cx) 0 (drop 1 ?ns2) w2)"
    using assms(1) n0 c(1,3) a s(1) nth1(2) [OF n0] rs(2) by (simp add: createCluster_def Let_def not_less)
  ultimately show ?thesis using s(2,3) c(4) n0 own by (intro exI [of _ "drop 1 ?ns2"] exI [of _ w2]) simp
qed

section \<open>Properties\<close>

text \<open>creating a cluster of 3 to 16383 nodes divides the slots in floating-point arithmetic without ever writing outside the slot
  array: every slot is marked for exactly one node, and the share of every node differs from the exact one by at most one slot
  and the error of the arithmetic.\<close>

theorem allocate_divides:
  assumes "3 \<le> length nodes" "length nodes < 16384" "\<forall>n \<in> set nodes. nodeSlots n = replicate CLUSTER_CLI_SLOTS False"
  shows "\<exists>nodes'. allocate (flDiv (of_nat CLUSTER_CLI_SLOTS) (of_nat (length nodes))) nodes 0 0 = Some nodes' \<and> length nodes' = length nodes
     \<and> (\<forall>t < 16384. \<exists>!i. i < length nodes \<and> nodeSlots (nodes' ! i) ! t)
     \<and> (\<forall>i < length nodes. dirty (nodes' ! i) = 1
          \<and> \<bar>of_int (slotsCount (nodes' ! i)) - 16384 / of_nat (length nodes)\<bar> \<le> 1 + 1 / (4194304 :: rat))"
proof -
  let ?n = "length nodes"
  let ?rs = "map (\<lambda>j. (rangeStart ?n j, rangeEnd ?n j)) [0..<?n]"
  define nodes' where "nodes' = map2 markRange nodes ?rs"
  note f = range_facts [OF assms(1,2)]
  have a: "allocate (flDiv (of_nat CLUSTER_CLI_SLOTS) (of_nat ?n)) nodes 0 0 = Some nodes'"
    unfolding nodes'_def ranges_of [OF assms(1,2), symmetric]
    by (rule allocate_ranges) (use assms(3) f in \<open>auto simp: ranges_of [OF assms(1,2)]\<close>)
  have nth: "nodes' ! i = markRange (nodes ! i) (rangeStart ?n i, rangeEnd ?n i)" if "i < ?n" for i
    using that by (simp add: nodes'_def)
  have mark: "nodeSlots (nodes' ! i) ! t \<longleftrightarrow> rangeStart ?n i \<le> int t \<and> int t \<le> rangeEnd ?n i" if "i < ?n" "t < 16384" for i t
    using that assms(3) nth_mem [of i nodes] by (auto simp: nth markRange_def CLUSTER_CLI_SLOTS_def)
  have one: "\<exists>!i. i < ?n \<and> nodeSlots (nodes' ! i) ! t" if t: "t < 16384" for t
    using one_range [OF assms(1,2), of "int t"] mark [OF _ t] t by (simp cong: conj_cong)
  have size: "dirty (nodes' ! i) = 1 \<and> \<bar>of_int (slotsCount (nodes' ! i)) - 16384 / of_nat ?n\<bar> \<le> 1 + 1 / (4194304 :: rat)" if "i < ?n" for i
    using range_size [OF assms(1,2) that] by (simp add: nth [OF that] markRange_def)
  show ?thesis
    by (intro exI [of _ nodes'] conjI allI impI a one) (use size in \<open>auto simp: nodes'_def\<close>)
qed

text \<open>C29: creating a cluster works from end to end: with 3 to 16383 running servers that have no slots, at distinct addresses, the client
  neither panics nor stops a server, and afterwards every slot is owned by exactly one of them, whether or not they can reach
  each other in the handshakes that follow.\<close>

theorem create_cluster_covers:
  assumes "3 \<le> length addrs" "length addrs < 16384" "distinct addrs" "ctx_ok cx" "\<forall>addr \<in> set addrs. ready cx w addr"
  shows "\<exists>err w'. createCluster (cliSim cx) addrs w = Some (err, w')
     \<and> (\<forall>addr \<in> set addrs. \<exists>sv. srv w' addr = Some sv \<and> sv_inv cx True sv)
     \<and> (\<forall>t < 16384. \<exists>!i. i < length addrs \<and> t \<in> ownSlots (the (srv w' (addrs ! i))))"
proof -
  let ?n = "length addrs"
  note f = range_facts [OF assms(1,2)]
  have n0: "0 < ?n" using assms(1) by linarith
  obtain ns w2 where w2: "createCluster (cliSim cx) addrs w = Some (meetLoop (cliSim cx) 0 ns w2)" "conn w2 0 = Some (addrs ! 0)" "inbox w2 0 = []"
    "\<forall>x \<in> set ns. short (clusterHost x) \<and> length (Itoa (clusterPort x)) \<le> 20"
    and own: "\<And>j. j < ?n \<Longrightarrow> \<exists>sv. srv w2 (addrs ! j) = Some sv \<and> sv_inv cx True sv \<and> ownSlots sv = {nat (rangeStart ?n j)..nat (rangeEnd ?n j)}"
    using create_assigns [OF assms(1-3,5)] by blast
  obtain sv0 where sv0: "srv w2 (addrs ! 0) = Some sv0" "sv_inv cx True sv0" "ownSlots sv0 = {nat (rangeStart ?n 0)..nat (rangeEnd ?n 0)}"
    using own [OF n0] by blast
  have "talksTo w2 0 (addrs ! 0) sv0" using sv0(1) w2(2,3) by (simp add: talksTo_def)
  from meetLoop_sim [OF this sv0(2) assms(4) w2(4)] obtain err w3 sv1 where m: "meetLoop (cliSim cx) 0 ns w2 = (err, w3)"
    "srv w3 = (srv w2)(addrs ! 0 \<mapsto> sv1)" "sv_inv cx True sv1" "ownSlots sv1 = ownSlots sv0" by blast
  have fin: "\<exists>sv. srv w3 (addrs ! j) = Some sv \<and> sv_inv cx True sv \<and> ownSlots sv = {nat (rangeStart ?n j)..nat (rangeEnd ?n j)}" if "j < ?n" for j
  proof (cases "j = 0")
    case False
    then have "addrs ! j \<noteq> addrs ! 0" using assms(3) that n0 by (simp add: nth_eq_iff_index_eq)
    then show ?thesis using own [OF that] m(2) by simp
  qed (use m(2-4) sv0(3) in simp)
  have run: "createCluster (cliSim cx) addrs w = Some (err, w3)" using w2(1) m(1) by simp
  have one: "\<exists>!i. i < ?n \<and> t \<in> ownSlots (the (srv w3 (addrs ! i)))" if t: "t < 16384" for t
  proof -
    have "t \<in> ownSlots (the (srv w3 (addrs ! i))) \<longleftrightarrow> rangeStart ?n i \<le> int t \<and> int t \<le> rangeEnd ?n i" if "i < ?n" for i
      using fin [OF that] f(1,2) [OF that] by auto
    then show ?thesis using one_range [OF assms(1,2), of "int t"] t by (simp cong: conj_cong)
  qed
  have "\<forall>addr \<in> set addrs. \<exists>sv. srv w3 addr = Some sv \<and> sv_inv cx True sv" using fin by (metis in_set_conv_nth)
  with run one show ?thesis by blast
qed

theorem allocate_divides_witness:
  "\<exists>nodes'. allocate (flDiv (of_nat CLUSTER_CLI_SLOTS) (of_nat 3))
       (replicate 3 \<lparr>sourceAddr = ''h:1'', tcpHost = ''h'', tcpPort = ''1'', nodeConn = 0, clusterHost = ''h'', clusterPort = 1,
          nodeSlots = replicate CLUSTER_CLI_SLOTS False, slotsCount = 0, dirty = 0\<rparr>) 0 0 = Some nodes'
     \<and> (\<exists>!i. i < 3 \<and> nodeSlots (nodes' ! i) ! 5461)"
proof -
  let ?n = "\<lparr>sourceAddr = ''h:1'', tcpHost = ''h'', tcpPort = ''1'', nodeConn = 0, clusterHost = ''h'', clusterPort = 1,
    nodeSlots = replicate CLUSTER_CLI_SLOTS False, slotsCount = 0, dirty = 0\<rparr>"
  have "3 \<le> length (replicate 3 ?n)" "length (replicate 3 ?n) < 16384" "\<forall>n \<in> set (replicate 3 ?n). nodeSlots n = replicate CLUSTER_CLI_SLOTS False"
    by simp_all
  from allocate_divides [OF this] show ?thesis unfolding length_replicate by (elim exE conjE) (rule exI, rule conjI, assumption, simp)
qed

lemma exampleServer_slots: "ownSlots (exampleServer True) = {}" "svCluster (exampleServer True) = Some exampleState"
  by (simp_all add: ownSlots_def exampleServer_def) (simp add: initState_def self_ref_def NewNode_wf(2))

lemma split_examples: "SplitHostPort ''h:1'' = Inr (''h'', ''1'')" "SplitHostPort ''h:2'' = Inr (''h'', ''2'')" "SplitHostPort ''h:3'' = Inr (''h'', ''3'')"
  by code_simp+

theorem create_cluster_covers_witness:
  "\<exists>err w'. createCluster (cliSim exampleCtx) [''h:1'', ''h:2'', ''h:3'']
       \<lparr>srv = (\<lambda>_. Some (exampleServer True)), conn = (\<lambda>_. None), connSubs = (\<lambda>_. GoMap []), inbox = (\<lambda>_. [])\<rparr> = Some (err, w')
     \<and> (\<exists>!i. i < 3 \<and> 9000 \<in> ownSlots (the (srv w' ([''h:1'', ''h:2'', ''h:3''] ! i))))"
proof -
  let ?as = "[''h:1'', ''h:2'', ''h:3'']"
  let ?w = "\<lparr>srv = (\<lambda>_. Some (exampleServer True)), conn = (\<lambda>_. None), connSubs = (\<lambda>_. GoMap []), inbox = (\<lambda>_. [])\<rparr> :: nat world"
  have "\<forall>addr \<in> set ?as. ready exampleCtx ?w addr"
    using split_examples example_ok(2) exampleServer_slots
    by (auto simp: ready_def short_def initState_def NewNode_def int64_ok_def MinInt64_def MaxInt64_def)
  moreover have "3 \<le> length ?as" "length ?as < 16384" "distinct ?as" by simp_all
  ultimately obtain err w' where "createCluster (cliSim exampleCtx) ?as ?w = Some (err, w')"
    "\<forall>t < 16384. \<exists>!i. i < length ?as \<and> t \<in> ownSlots (the (srv w' (?as ! i)))"
    using create_cluster_covers [OF _ _ _ example_ok(1)] by blast
  then show ?thesis by (intro exI [of _ err] exI [of _ w']) (simp add: numeral_3_eq_3)
qed

end
