(* ===== verification/Client_Shell.thy ===== *)
theory Client_Shell
  imports Client_Cli
begin

text \<open>
  The two interactive programs: \<^verbatim>\<open>connect\<close> of \<^verbatim>\<open>cmd/ember-cli\<close> and the launcher \<^verbatim>\<open>main.go\<close>. What the \<^verbatim>\<open>select\<close> of each loop sees is a list of events,
  so every order of typed lines, replies and signals is some list. \<^verbatim>\<open>shlex.Split\<close>, the Unicode tables, the start and the end of
  processes are parameters. The theorems are that a server reads exactly the typed commands off the connection, and that the launcher
  leaves none of its processes behind.
\<close>

section \<open>The client\<close>

datatype shellEvent = Signal | Line string | InputClosed | Message string

datatype shellPrint = Connected int | Prompt | Bye | Shown string | BadInput string | WriteFailed string | CannotDial string

text \<open>\<^verbatim>\<open>strings.EqualFold(line, "quit")\<close>: no character outside of ASCII folds to one of these letters.\<close>

definition isQuit :: "string \<Rightarrow> bool" where
  "isQuit line \<longleftrightarrow> map lower_byte line = ''quit''"

text \<open>What is printed, whether the loop has ended, and the network afterwards. With no event left the loop waits.\<close>

fun connectLoop :: "(nat, 'w) cliNet \<Rightarrow> (string \<Rightarrow> string) \<Rightarrow> (string \<Rightarrow> string + string list) \<Rightarrow> shellEvent list \<Rightarrow> 'w \<Rightarrow> shellPrint list \<times> bool \<times> 'w" where
  "connectLoop net uni shlex [] w = ([Prompt], False, w)"
| "connectLoop net uni shlex (Signal # evs) w = ([Prompt, Bye], True, w)"
| "connectLoop net uni shlex (InputClosed # evs) w = ([Prompt], True, w)"
| "connectLoop net uni shlex (Message m # evs) w = (case connectLoop net uni shlex evs w of (out, rest) \<Rightarrow> (Prompt # Shown m # out, rest))"
| "connectLoop net uni shlex (Line l # evs) w =
     (let line = TrimSpace uni l
      in if line = [] then (case connectLoop net uni shlex evs w of (out, rest) \<Rightarrow> (Prompt # out, rest))
         else if isQuit line then ([Prompt], True, w)
         else case shlex line of
                Inl e \<Rightarrow> (case connectLoop net uni shlex evs w of (out, rest) \<Rightarrow> (Prompt # BadInput e # out, rest))
              | Inr args \<Rightarrow>
                  (case cn_write net 0 args w of
                     (Some e, w1) \<Rightarrow> ([Prompt, WriteFailed e], True, w1)
                   | (None, w1) \<Rightarrow> (case connectLoop net uni shlex evs w1 of (out, rest) \<Rightarrow> (Prompt # out, rest))))"

definition connect :: "(nat, 'w) cliNet \<Rightarrow> (string \<Rightarrow> string) \<Rightarrow> (string \<Rightarrow> string + string list) \<Rightarrow> int \<Rightarrow> shellEvent list \<Rightarrow> 'w
    \<Rightarrow> shellPrint list \<times> bool \<times> 'w" where
  "connect net uni shlex prt evs w =
     (case cn_dial net 0 (''127.0.0.1:'' @ Itoa prt) w of
        (Some e, w1) \<Rightarrow> ([CannotDial e], True, w1)
      | (None, w1) \<Rightarrow> (case connectLoop net uni shlex evs w1 of (out, rest) \<Rightarrow> (Connected prt # out, rest)))"

section \<open>The launcher\<close>

datatype launchEvent = LSignal | LLine string | LClosed

text \<open>\<^verbatim>\<open>strings.Fields\<close> on bytes below 128.\<close>

fun splitSpaces :: "(char \<Rightarrow> bool) \<Rightarrow> string \<Rightarrow> string \<Rightarrow> string list" where
  "splitSpaces space [] cur = (if cur = [] then [] else [cur])"
| "splitSpaces space (c # cs) cur =
     (if space c then (if cur = [] then [] else [cur]) @ splitSpaces space cs [] else splitSpaces space cs (cur @ [c]))"

definition Fields :: "(string \<Rightarrow> string list) \<Rightarrow> string \<Rightarrow> string list" where
  "Fields uniF s =
     (if \<forall>c \<in> set s. of_char c < (128 :: nat)
      then splitSpaces (\<lambda>c. c = CHR '' '' \<or> (9 \<le> (of_char c :: nat) \<and> of_char c \<le> (13 :: nat))) s [] else uniF s)"

text \<open>The processes of the operating system: starting a node gives an error or a process number; \<open>down\<close> is \<^verbatim>\<open>docker compose down\<close>.\<close>

record 'w procs =
  executable :: "'w \<Rightarrow> string + string"
  startNode :: "string \<Rightarrow> string list \<Rightarrow> string \<Rightarrow> 'w \<Rightarrow> (string + nat) \<times> 'w"
  killNode :: "nat \<Rightarrow> 'w \<Rightarrow> 'w"
  down :: "'w \<Rightarrow> string option \<times> 'w"
  runServer :: "string \<Rightarrow> string \<Rightarrow> bool \<Rightarrow> 'w \<Rightarrow> 'w"

definition CLUSTER_PORTS :: "string list" where "CLUSTER_PORTS = [''6379'', ''6380'', ''6381'']"

definition pprofEnv :: "nat \<Rightarrow> string" where
  "pprofEnv i = ''EMBERDB_PPROF_ADDR=127.0.0.1:'' @ Itoa (int (6060 + i))"

definition nodeArgs :: "string \<Rightarrow> string list" where
  "nodeArgs prt = [''__node'', prt, ''127.0.0.1'']"

text \<open>The nodes started so far are kept even when a later one does not start.\<close>

fun startNodes :: "'w procs \<Rightarrow> string \<Rightarrow> nat \<Rightarrow> string list \<Rightarrow> nat list \<Rightarrow> 'w \<Rightarrow> string option \<times> nat list \<times> 'w" where
  "startNodes pr exe i [] nodes w = (None, nodes, w)"
| "startNodes pr exe i (prt # prts) nodes w =
     (case startNode pr exe (nodeArgs prt) (pprofEnv i) w of
        (Inl e, w1) \<Rightarrow> (Some e, nodes, w1)
      | (Inr pid, w1) \<Rightarrow> startNodes pr exe (i + 1) prts (nodes @ [pid]) w1)"

definition startCluster :: "'w procs \<Rightarrow> nat list \<Rightarrow> 'w \<Rightarrow> string option \<times> nat list \<times> 'w" where
  "startCluster pr nodes w =
     (case executable pr w of
        Inl e \<Rightarrow> (Some e, nodes, w)
      | Inr exe \<Rightarrow> startNodes pr exe 0 CLUSTER_PORTS nodes w)"

definition cleanup :: "'w procs \<Rightarrow> nat list \<Rightarrow> 'w \<Rightarrow> string option \<times> 'w" where
  "cleanup pr nodes w = down pr (fold (killNode pr) nodes w)"

datatype launchPrint = LPrompt | ShuttingDown | LError string | Invalid string | NoOption string | RunningOn string

text \<open>One line: what is printed, the nodes, the world. A line with one word or with more than three is ignored.\<close>

definition launchLine :: "'w procs \<Rightarrow> string list \<Rightarrow> nat list \<Rightarrow> 'w \<Rightarrow> launchPrint list \<times> nat list \<times> 'w" where
  "launchLine pr args nodes w =
     (case args of
        [a, b] \<Rightarrow>
          if a \<noteq> ''ember'' then ([Invalid a], nodes, w)
          else if b = ''start'' then ([RunningOn ''6379''], nodes, runServer pr ''6379'' [] False w)
          else if b = ''cluster-start'' then
            (case startCluster pr nodes w of
               (None, nodes1, w1) \<Rightarrow> ([], nodes1, w1)
             | (Some e, nodes1, w1) \<Rightarrow> ([LError e], nodes1, w1))
          else ([NoOption b], nodes, w)
      | [a, b, prt] \<Rightarrow> if b = ''port'' then ([RunningOn prt], nodes, runServer pr prt [] False w) else ([NoOption b], nodes, w)
      | _ \<Rightarrow> ([], nodes, w))"

fun launchLoop :: "'w procs \<Rightarrow> (string \<Rightarrow> string) \<Rightarrow> (string \<Rightarrow> string list) \<Rightarrow> launchEvent list \<Rightarrow> nat list \<Rightarrow> 'w \<Rightarrow> launchPrint list \<times> bool \<times> 'w" where
  "launchLoop pr uni uniF [] nodes w = ([LPrompt], False, w)"
| "launchLoop pr uni uniF (ev # evs) nodes w =
     (let stop = (\<lambda>out. case cleanup pr nodes w of (err, w1) \<Rightarrow> (LPrompt # out @ (case err of None \<Rightarrow> [] | Some e \<Rightarrow> [LError e]), True, w1))
      in case ev of
           LSignal \<Rightarrow> stop [ShuttingDown]
         | LClosed \<Rightarrow> stop []
         | LLine l \<Rightarrow>
             (let line = TrimSpace uni l
              in if line = [] then (case launchLoop pr uni uniF evs nodes w of (out, rest) \<Rightarrow> (LPrompt # out, rest))
                 else if isQuit line then stop []
                 else case launchLine pr (Fields uniF line) nodes w of
                        (out1, nodes1, w1) \<Rightarrow> (case launchLoop pr uni uniF evs nodes1 w1 of (out, rest) \<Rightarrow> (LPrompt # out1 @ out, rest))))"

text \<open>\<^verbatim>\<open>main\<close>: the launcher also starts its own nodes, which are the same program with other arguments.\<close>

definition launcherMain :: "'w procs \<Rightarrow> (string \<Rightarrow> string) \<Rightarrow> (string \<Rightarrow> string list) \<Rightarrow> string list \<Rightarrow> launchEvent list \<Rightarrow> 'w \<Rightarrow> launchPrint list \<times> bool \<times> 'w" where
  "launcherMain pr uni uniF args evs w =
     (case args of
        [a, prt] \<Rightarrow> if a = ''__standalone'' then ([], True, runServer pr prt [] False w) else launchLoop pr uni uniF evs [] w
      | [a, prt, host] \<Rightarrow> if a = ''__node'' then ([], True, runServer pr prt host True w) else launchLoop pr uni uniF evs [] w
      | _ \<Rightarrow> launchLoop pr uni uniF evs [] w)"

section \<open>What was typed\<close>

text \<open>The commands typed before the loop ends, in order, and the replies shown.\<close>

fun typed :: "(string \<Rightarrow> string) \<Rightarrow> (string \<Rightarrow> string + string list) \<Rightarrow> shellEvent list \<Rightarrow> string list list" where
  "typed uni shlex (Line l # evs) =
     (if TrimSpace uni l = [] then typed uni shlex evs
      else if isQuit (TrimSpace uni l) then []
      else (case shlex (TrimSpace uni l) of Inl _ \<Rightarrow> [] | Inr args \<Rightarrow> [args]) @ typed uni shlex evs)"
| "typed uni shlex (Message m # evs) = typed uni shlex evs"
| "typed uni shlex _ = []"

text \<open>A network that takes everything: its state is what has been written to the connection.\<close>

definition streamNet :: "(nat, string) cliNet" where
  "streamNet = \<lparr>cn_dial = (\<lambda>c a w. (None, w)), cn_write = (\<lambda>c args w. (None, w @ WriteArrayString args)), cn_read = (\<lambda>c w. (Inl ''EOF'', w)), cn_sprint = (\<lambda>v. [])\<rparr>"

lemma connectLoop_stream: "snd (snd (connectLoop streamNet uni shlex evs w)) = w @ concat (map WriteArrayString (typed uni shlex evs))"
  by (induction streamNet uni shlex evs w rule: connectLoop.induct) (auto simp: streamNet_def case_prod_unfold Let_def split: sum.split)

text \<open>An empty command is skipped by the reader.\<close>

lemma next_empty: "next_cmd connLimits (WriteArrayString [] @ rest) = Inr ([], rest)"
proof -
  have z: "utoa 0 = ''0''" by code_simp
  have "WriteArrayString [] = (CHR ''*'' # utoa 0) @ CRLF"
    by (simp add: WriteArrayString_def WriteArrayHeader_def writeWithPrefix_def writeWithType_def Itoa_def z SanitizeSimpleString_def)
  moreover have "readShortLine ((CHR ''*'' # utoa 0) @ CRLF @ rest) = Inr (CHR ''*'' # utoa 0, rest)" by (rule header_line) simp_all
  moreover note z
  moreover have "ParseInt32 ''0'' = Inr 0" by code_simp
  ultimately show ?thesis by (simp add: next_cmd_def connLimits_def)
qed

lemma commandsOf_typed:
  "\<forall>c \<in> set cmds. c \<noteq> [] \<longrightarrow> cmd_ok connLimits c \<Longrightarrow>
     commandsOf \<lparr>rd = concat (map WriteArrayString cmds), rerr = None, lims = connLimits\<rparr> = (filter (\<lambda>c. c \<noteq> []) cmds, EOF)"
proof (induction cmds)
  case Nil
  then show ?case using commandsOf_pipelined [of "[]"] by simp
next
  case (Cons c cmds)
  let ?rest = "concat (map WriteArrayString cmds)"
  show ?case
  proof (cases "c = []")
    case True
    then have "nextLoop connLimits (WriteArrayString c @ ?rest) = nextLoop connLimits ?rest" by (subst nextLoop.simps) (simp add: next_empty)
    then have "commandsOf \<lparr>rd = WriteArrayString c @ ?rest, rerr = None, lims = connLimits\<rparr> = commandsOf \<lparr>rd = ?rest, rerr = None, lims = connLimits\<rparr>"
      by (subst (1 2) commandsOf.simps) (simp add: Next_def split: sum.split)
    with Cons True show ?thesis by simp
  next
    case False
    then have "nextLoop connLimits (WriteArrayString c @ ?rest) = Inr (c, ?rest)"
      using nextLoop_roundtrip [of connLimits c] Cons.prems by (simp add: WriteArrayString_eq)
    then show ?thesis using Cons False by (subst commandsOf.simps) (simp add: Next_def)
  qed
qed

fun received :: "(string \<Rightarrow> string) \<Rightarrow> shellEvent list \<Rightarrow> string list" where
  "received uni (Line l # evs) = (if TrimSpace uni l \<noteq> [] \<and> isQuit (TrimSpace uni l) then [] else received uni evs)"
| "received uni (Message m # evs) = m # received uni evs"
| "received uni _ = []"

definition shownIn :: "shellPrint list \<Rightarrow> string list" where
  "shownIn out = concat (map (\<lambda>p. case p of Shown m \<Rightarrow> [m] | _ \<Rightarrow> []) out)"

lemma connectLoop_shows: "shownIn (fst (connectLoop streamNet uni shlex evs w)) = received uni evs"
  by (induction streamNet uni shlex evs w rule: connectLoop.induct) (auto simp: shownIn_def streamNet_def case_prod_unfold Let_def split: sum.split)

section \<open>No process is left behind\<close>

text \<open>What the launcher relies on: \<open>live w\<close> are the processes that run. A started process runs, a killed and awaited one does not, and nothing else
  the launcher does changes that.\<close>

definition procs_ok :: "'w procs \<Rightarrow> ('w \<Rightarrow> nat set) \<Rightarrow> bool" where
  "procs_ok pr live \<longleftrightarrow> (\<forall>exe args env w. case startNode pr exe args env w of (Inl e, w1) \<Rightarrow> live w1 = live w | (Inr pid, w1) \<Rightarrow> live w1 = insert pid (live w))
     \<and> (\<forall>pid w. live (killNode pr pid w) = live w - {pid}) \<and> (\<forall>w. live (snd (down pr w)) = live w)
     \<and> (\<forall>prt host cluster w. live (runServer pr prt host cluster w) = live w)"

lemma procs_okD:
  assumes "procs_ok pr live"
  shows "startNode pr exe args e w = (Inl x, w1) \<Longrightarrow> live w1 = live w" "startNode pr exe args e w = (Inr pid, w1) \<Longrightarrow> live w1 = insert pid (live w)"
    "live (killNode pr pid w) = live w - {pid}" "live (snd (down pr w)) = live w" "live (runServer pr prt host cluster w) = live w"
proof -
  note p = assms [unfolded procs_ok_def]
  show "startNode pr exe args e w = (Inl x, w1) \<Longrightarrow> live w1 = live w" using spec [OF spec [OF spec [OF spec [OF conjunct1 [OF p], of exe], of args], of e], of w] by simp
  show "startNode pr exe args e w = (Inr pid, w1) \<Longrightarrow> live w1 = insert pid (live w)" using spec [OF spec [OF spec [OF spec [OF conjunct1 [OF p], of exe], of args], of e], of w] by simp
  show "live (killNode pr pid w) = live w - {pid}" "live (snd (down pr w)) = live w" "live (runServer pr prt host cluster w) = live w" using p by simp_all
qed

lemma startNodes_live:
  assumes "procs_ok pr live" "live w \<subseteq> L \<union> set nodes" "startNodes pr exe i prts nodes w = (err, nodes', w')"
  shows "live w' \<subseteq> L \<union> set nodes'"
  using assms(2,3)
proof (induction prts arbitrary: i nodes w)
  case (Cons prt prts)
  obtain res w1 where r: "startNode pr exe (nodeArgs prt) (pprofEnv i) w = (res, w1)" by (cases "startNode pr exe (nodeArgs prt) (pprofEnv i) w")
  show ?case
  proof (cases res)
    case (Inl e)
    then show ?thesis using Cons.prems r procs_okD(1) [OF assms(1) r [unfolded Inl]] by simp
  next
    case (Inr pid)
    then have "live w1 \<subseteq> L \<union> set (nodes @ [pid])" using Cons.prems(1) procs_okD(2) [OF assms(1) r [unfolded Inr]] by auto
    then show ?thesis by (rule Cons.IH) (use Cons.prems(2) r Inr in simp)
  qed
qed simp

lemma launchLine_live:
  assumes "procs_ok pr live" "live w \<subseteq> L \<union> set nodes" "launchLine pr args nodes w = (out, nodes', w')"
  shows "live w' \<subseteq> L \<union> set nodes'"
proof -
  note run = procs_okD(5) [OF assms(1)]
  obtain err n1 w1 where c: "startCluster pr nodes w = (err, n1, w1)" by (metis prod_cases3)
  have start: "live w1 \<subseteq> L \<union> set n1" using c assms(2) startNodes_live [OF assms(1,2)] unfolding startCluster_def by (cases "executable pr w") (auto simp only: sum.case prod.inject)
  have "(nodes', w') = (nodes, w) \<or> (nodes', w') = (n1, w1) \<or> (\<exists>prt. (nodes', w') = (nodes, runServer pr prt [] False w))"
  proof (cases "\<exists>a b. args = [a, b]")
    case True
    then obtain a b where "args = [a, b]" by blast
    then show ?thesis
      using assms(3) c unfolding launchLine_def by (cases err; cases "a = ''ember''"; cases "b = ''start''"; cases "b = ''cluster-start''") auto
  next
    case False
    then show ?thesis
    proof (cases "\<exists>a b prt. args = [a, b, prt]")
      case True
      then obtain a b prt where "args = [a, b, prt]" by blast
      then show ?thesis using assms(3) unfolding launchLine_def by (cases "b = ''port''") auto
    next
      case other: False
      have "launchLine pr args nodes w = ([], nodes, w)" using False other by (auto simp: launchLine_def split: list.split)
      then show ?thesis using assms(3) by simp
    qed
  qed
  then show ?thesis using assms(2) start unfolding prod.inject by (elim disjE exE conjE) (simp_all add: run)
qed

lemma fold_kill_live: "procs_ok pr live \<Longrightarrow> live (fold (killNode pr) nodes w) = live w - set nodes"
  by (induction nodes arbitrary: w) (auto simp: procs_okD(3))

lemma cleanup_live: "procs_ok pr live \<Longrightarrow> live w \<subseteq> L \<union> set nodes \<Longrightarrow> live (snd (cleanup pr nodes w)) \<subseteq> L"
  using fold_kill_live [of pr live nodes w] procs_okD(4) [of pr live "fold (killNode pr) nodes w"] by (auto simp: cleanup_def)

lemma launchLoop_live:
  assumes "procs_ok pr live" "live w \<subseteq> L \<union> set nodes" "launchLoop pr uni uniF evs nodes w = (out, True, w')"
  shows "live w' \<subseteq> L"
  using assms(2,3)
proof (induction evs arbitrary: nodes w out)
  case (Cons ev evs)
  note clean = cleanup_live [OF assms(1) Cons.prems(1)]
  show ?case
  proof (cases ev)
    case (LLine l)
    show ?thesis
    proof (cases "TrimSpace uni l = [] \<or> isQuit (TrimSpace uni l)")
      case True
      then show ?thesis using Cons LLine clean by (auto simp: Let_def split: prod.splits if_splits)
    next
      case False
      obtain out1 nodes1 w1 where l: "launchLine pr (Fields uniF (TrimSpace uni l)) nodes w = (out1, nodes1, w1)" by (metis prod_cases3)
      obtain out2 where "launchLoop pr uni uniF evs nodes1 w1 = (out2, True, w')"
        using Cons.prems(2) LLine False l by (auto simp: Let_def split: prod.splits)
      then show ?thesis by (rule Cons.IH [OF launchLine_live [OF assms(1) Cons.prems(1) l]])
    qed
  qed (use Cons.prems(2) clean in \<open>auto simp: Let_def split: prod.splits\<close>)
qed simp

section \<open>Properties\<close>


text \<open>C31: the launcher leaves no process behind: however it is used, and even if a cluster could only be started in part, once its loop has ended
  by a signal, the end of the input or a quit, no process runs that did not run before.\<close>

theorem launcher_leaves_nothing:
  assumes "procs_ok pr live" "launcherMain pr uni uniF args evs w = (out, True, w')"
  shows "live w' \<subseteq> live w"
proof -
  note run = procs_okD(5) [OF assms(1)]
  have loop: "live w' \<subseteq> live w" if "launchLoop pr uni uniF evs [] w = (out, True, w')"
    by (rule launchLoop_live [OF assms(1) _ that]) simp
  show ?thesis using assms(2) loop run unfolding launcherMain_def by (auto split: list.splits if_splits)
qed

section \<open>Witnesses\<close>


text \<open>An operating system that numbers its processes and lets only two of them run.\<close>

definition twoProcs :: "(nat set) procs" where
  "twoProcs = \<lparr>executable = (\<lambda>w. Inr ''ember''), startNode = (\<lambda>exe args env w. if card w < 2 then (Inr (card w), insert (card w) w) else (Inl ''limit'', w)),
     killNode = (\<lambda>pid w. w - {pid}), down = (\<lambda>w. (None, w)), runServer = (\<lambda>prt host cluster w. w)\<rparr>"

theorem launcher_leaves_nothing_witness:
  "snd (snd (launcherMain twoProcs id (\<lambda>_. []) [] [LLine ''ember cluster-start'', LSignal] {})) = {}"
proof -
  have ok: "procs_ok twoProcs id" by (auto simp: procs_ok_def twoProcs_def)
  obtain out ended w' where l: "launcherMain twoProcs id (\<lambda>_. []) [] [LLine ''ember cluster-start'', LSignal] {} = (out, ended, w')" by (metis prod_cases3)
  moreover have "ended" using l by (auto simp: launcherMain_def Let_def split: prod.splits if_splits)
  ultimately show ?thesis using launcher_leaves_nothing [OF ok, of id "\<lambda>_. []" "[]" _ "{}" out w'] by simp
qed

end
