(* ===== verification/Bench_Served.thy ===== *)
theory Bench_Served
  imports Bench_Router
begin

text \<open>
  The benchmark against the model of the server, over the world of \<open>Server_World\<close>: reading the topology, and the four kinds
  of requests on a cluster whose servers own what the router says.
\<close>

section \<open>Connecting\<close>

definition benchSim :: "ctx \<Rightarrow> (benchConn, benchConn world) benchNet" where
  "benchSim cx = \<lparr>cn_dial = simDial, cn_write = simWrite cx, cn_read = simRead, cn_sprint = (\<lambda>v. case v of RStr s \<Rightarrow> s | _ \<Rightarrow> []),
     cn_deadline = (\<lambda>c w. (None, w))\<rparr>"

lemma benchSim_simps [simp]: "cn_dial (benchSim cx) = simDial" "cn_write (benchSim cx) = simWrite cx" "cn_read (benchSim cx) = simRead"
  "cn_deadline (benchSim cx) c w = (None, w)"
  by (simp_all add: benchSim_def)

definition dialled :: "'c \<Rightarrow> string \<Rightarrow> 'c world \<Rightarrow> 'c world" where
  "dialled c addr w = w\<lparr>conn := (conn w)(c \<mapsto> addr), connSubs := (connSubs w)(c := GoMap []), inbox := (inbox w)(c := [])\<rparr>"

lemma dialled_simps [simp]: "srv (dialled c addr w) = srv w" "conn (dialled c addr w) = (conn w)(c \<mapsto> addr)"
  "connSubs (dialled c addr w) = (connSubs w)(c := GoMap [])" "inbox (dialled c addr w) = (inbox w)(c := [])"
  by (simp_all add: dialled_def)

text \<open>The server does not know \<^verbatim>\<open>HELLO\<close>: it answers with an error, which the client does not look at.\<close>

lemma dial_sim:
  assumes "srv w addr = Some sv"
  shows "dial (benchSim cx) c addr w = (None, dialled c addr w) \<and> talksTo (dialled c addr w) c addr sv"
proof -
  let ?w = "dialled c addr w"
  have t: "talksTo ?w c addr sv" using assms by (simp add: talksTo_def)
  have low: "BytesToLower ''HELLO'' = ''hello''" by code_simp
  have run: "runCommand cx True [''HELLO'', ''3''] sv (connSubs ?w c)
      = Some (sv, connSubs ?w c, [WriteError (''unknown command '' @ [CHR 0x27] @ ''hello'' @ [CHR 0x27])], True)"
    by (simp add: runCommand_def low dispatch_def keyedCommands_def)
  have "cmd_ok connLimits [''HELLO'', ''3'']" by (simp add: cmd_ok_def connLimits_def arg_total_def)
  from sim_ask [OF t this run read_Error] obtain w1
    where "simWrite cx c [''HELLO'', ''3''] ?w = (None, w1)" "\<exists>v. simRead c w1 = (Inr v, ?w\<lparr>srv := (srv ?w)(addr \<mapsto> sv), connSubs := (connSubs ?w)(c := connSubs ?w c)\<rparr>)"
    by auto
  moreover have "?w\<lparr>srv := (srv ?w)(addr \<mapsto> sv), connSubs := (connSubs ?w)(c := connSubs ?w c)\<rparr> = ?w" using assms by (simp add: fun_upd_idem)
  moreover have "simDial c addr w = (None, ?w)" using assms by (simp add: simDial_def dialled_def)
  ultimately show ?thesis using t by (auto simp: dial_def)
qed

section \<open>The topology\<close>

text \<open>The address a server has for the owner of a slot; empty for a slot without one.\<close>

definition ownerAddr :: "ctx \<Rightarrow> ClusterState \<Rightarrow> nat \<Rightarrow> string" where
  "ownerAddr cx s slot = (case GetSlotOwner (cx_nodes cx) slot s of None \<Rightarrow> [] | Some r \<Rightarrow> nodeAddr (store s r))"

definition rowValue :: "ClusterState \<Rightarrow> nat \<times> nat \<times> nodeRef \<Rightarrow> respValue" where
  "rowValue s = (\<lambda>(a, b, r). RArr [RInt (int a), RInt (int b),
     RArr [RStr (Host (store s r)), RInt (ClientPort (store s r)), RStr (Name (store s r))]])"

lemma valuesOf_map: "valuesOf ff r2 (map f xs) = map (\<lambda>x. valueOf ff r2 (f x)) xs"
  by (induction xs) simp_all

lemma clusterSlots_values: "valuesOf ff r2 (clusterSlots cx s) = map (rowValue s) (slotRuns cx s 0)"
  unfolding clusterSlots_def valuesOf_map by (auto simp: rowValue_def Let_def Snapshot_def)

lemma slotsRow_value:
  assumes "a \<le> b" "b < length tbl"
  shows "slotsRow (rowValue s (a, b, r)) tbl = Some (Inr (map (\<lambda>i. if a \<le> i \<and> i \<le> b then nodeAddr (store s r) else tbl ! i) [0..<length tbl]))"
  using fillRange_ok [of "int a" "int b" tbl "nodeAddr (store s r)"] assms by (simp add: slotsRow_def rowValue_def)

lemma slotsRows_values:
  assumes "\<forall>(a, b, r) \<in> set rows. a \<le> b \<and> b < length tbl \<and> (\<forall>i. a \<le> i \<and> i \<le> b \<longrightarrow> own i = Some r)"
  shows "\<exists>tbl'. slotsRows (map (rowValue s) rows) tbl = Some (Inr tbl') \<and> length tbl' = length tbl
     \<and> (\<forall>i < length tbl. tbl' ! i = (if \<exists>(a, b, r) \<in> set rows. a \<le> i \<and> i \<le> b then nodeAddr (store s (the (own i))) else tbl ! i))"
  using assms
proof (induction rows arbitrary: tbl)
  case (Cons row rows)
  obtain a b r where row: "row = (a, b, r)" by (cases row)
  then have ab: "a \<le> b" "b < length tbl" "\<And>i. a \<le> i \<Longrightarrow> i \<le> b \<Longrightarrow> own i = Some r" using Cons.prems by auto
  let ?t = "map (\<lambda>i. if a \<le> i \<and> i \<le> b then nodeAddr (store s r) else tbl ! i) [0..<length tbl]"
  obtain tbl' where "slotsRows (map (rowValue s) rows) ?t = Some (Inr tbl')" "length tbl' = length tbl"
    "\<forall>i < length tbl. tbl' ! i = (if \<exists>(a, b, r) \<in> set rows. a \<le> i \<and> i \<le> b then nodeAddr (store s (the (own i))) else ?t ! i)"
    using Cons.IH [of ?t] Cons.prems by auto
  then show ?case using slotsRow_value [OF ab(1,2), of s r] ab(3) unfolding row by auto
qed simp

lemma router_values:
  assumes "cs_wf s" "is_iteration (cx_nodes cx)"
  shows "\<exists>r. routerFromSlots (map (rowValue s) (slotRuns cx s 0)) = Some (Inr r) \<and> length (slotAddr r) = 16384
     \<and> (\<forall>slot < 16384. slotAddr r ! slot = ownerAddr cx s slot)"
proof -
  let ?own = "\<lambda>i. GetSlotOwner (cx_nodes cx) i s" and ?rows = "slotRuns cx s 0"
  note runs = slotRuns_spec [of cx s 0, unfolded CLUSTER_SLOTS_def]
  have "\<forall>(a, b, r) \<in> set ?rows. a \<le> b \<and> b < length (replicate 16384 [] :: string list) \<and> (\<forall>i. a \<le> i \<and> i \<le> b \<longrightarrow> ?own i = Some r)"
    using runs by auto
  from slotsRows_values [OF this, of s] obtain tbl where tbl: "slotsRows (map (rowValue s) ?rows) (replicate 16384 []) = Some (Inr tbl)" "length tbl = 16384"
    "\<forall>i < 16384. tbl ! i = (if \<exists>(a, b, r) \<in> set ?rows. a \<le> i \<and> i \<le> b then nodeAddr (store s (the (?own i))) else [])"
    by auto
  have "tbl ! i = ownerAddr cx s i" if i: "i < 16384" for i
  proof (cases "?own i")
    case None
    then have "\<not> (\<exists>(a, b, r) \<in> set ?rows. a \<le> i \<and> i \<le> b)" using runs by fastforce
    then show ?thesis using tbl(3) i None by (simp add: ownerAddr_def)
  next
    case (Some r)
    then have "\<exists>(a, b, r) \<in> set ?rows. a \<le> i \<and> i \<le> b" using conjunct1 [OF conjunct2 [OF runs]] i by fastforce
    then show ?thesis using tbl(3) i Some by (simp add: ownerAddr_def)
  qed
  with tbl(1,2) show ?thesis by (intro exI [of _ "\<lparr>slotAddr = tbl\<rparr>"]) (simp add: routerFromSlots_def router.make_def)
qed

lemma read_slots: "readValue 4 (fst (WriteArray ff r2 (clusterSlots cx s)) @ []) = Some (RArr (map (rowValue s) (slotRuns cx s 0)), [])"
  using read_Write(1) [of ff r2 "GArray (clusterSlots cx s)" 4 "[]"] slotsArray_ok [of ff r2 cx s] slots_depth [of cx s]
  by (simp add: WriteArray_def clusterSlots_values)

lemma discoverSlots_sim:
  assumes "srv w seed = Some sv" "sv_inv cx True sv" "svCluster sv = Some s"
  shows "\<exists>r. discoverSlots (benchSim cx) seed w = Some (Inr r, dialled (SeedConn seed) seed w) \<and> length (slotAddr r) = 16384
     \<and> (\<forall>slot < 16384. slotAddr r ! slot = ownerAddr cx s slot)"
proof -
  let ?c = "SeedConn seed"
  let ?w = "dialled ?c seed w" and ?out = "fst (WriteArray (cx_fmt cx) resp2compat (clusterSlots cx s))"
  note d = dial_sim [OF assms(1), of cx ?c]
  have run: "runCommand cx True [''CLUSTER'', ''SLOTS''] sv (connSubs ?w ?c) = Some (sv, connSubs ?w ?c, [?out], True)"
    using assms(3) slotsArray_ok [of "cx_fmt cx" resp2compat cx s]
    by (simp add: runCommand_def dispatch_def keyedCommands_def handleCluster_def case_prod_unfold)
  have "cmd_ok connLimits [''CLUSTER'', ''SLOTS'']" by (simp add: cmd_ok_def connLimits_def arg_total_def)
  from sim_ask [OF conjunct2 [OF d] this run read_slots] obtain w1 where w1: "simWrite cx ?c [''CLUSTER'', ''SLOTS''] ?w = (None, w1)"
    "simRead ?c w1 = (Inr (RArr (map (rowValue s) (slotRuns cx s 0))), ?w)" using assms(1) by (auto simp: fun_upd_idem)
  have wf: "cs_wf s" "is_iteration (cx_nodes cx)" using sv_invD(1) [OF assms(2)] assms(3) by (auto simp: srv_ok_def)
  from router_values [of s cx, OF wf] w1 d show ?thesis by (auto simp: discoverSlots_def errText_def)
qed

section \<open>Requests\<close>

text \<open>A server answers the command with one value that is not an error, and keeps its slots.\<close>

definition answered :: "ctx \<Rightarrow> string list \<Rightarrow> server \<Rightarrow> bool" where
  "answered cx args sv \<longleftrightarrow> (\<forall>sb. \<exists>sv' reply v. runCommand cx True args sv sb = Some (sv', sb, [reply], True)
     \<and> readValue 4 (reply @ []) = Some (v, []) \<and> errText v = [] \<and> sv_inv cx True sv' \<and> svCluster sv' = svCluster sv)"

lemma answeredI:
  assumes "sv_inv cx True sv" "\<And>sb. runCommand cx True args sv sb = kvStep sv sb (Some (kv', [reply]))"
    and "kv_wf (cx_crc cx) kv'" "clusterEnabled kv' = clusterEnabled (svKV sv)" "readValue 4 (reply @ []) = Some (v, [])" "errText v = []"
  shows "answered cx args sv"
proof -
  have "srv_ok cx (svCluster sv) True kv'" using sv_invD(1) [OF assms(1)] assms(3,4) by (auto simp: srv_ok_def)
  then show ?thesis using sv_inv_kv [OF assms(1)] assms(2,5,6) by (auto simp: answered_def kvStep_def)
qed

lemma read_string: "readValue 4 (WriteString s @ []) = Some (RStr s, [])"
  using read_blob [of 3 s "[]"] by (simp add: WriteString_def numeral_eq_Suc)

lemma read_missing: "readValue 4 (WriteStatusString ''No such key'' @ []) = Some (RStr ''No such key'', [])"
  using readValue_line [of "''No such key''" 3 "CHR ''+''" "[]"]
  by (simp add: WriteStatusString_def writeWithType_def writeWithPrefix_def SanitizeSimpleString_def numeral_eq_Suc)

lemma errText_other [simp]: "errText (RStr s) = []" "errText (RArr vs) = []"
  by (simp_all add: errText_def)

lemma lower_requests [simp]: "BytesToLower ''GET'' = ''get''" "BytesToLower ''SET'' = ''set''" "BytesToLower ''MGET'' = ''mget''" "BytesToLower ''MSET'' = ''mset''"
  by code_simp+

lemma argPairs_mset: "argPairs (concat (map (\<lambda>k. [k, v]) ks)) = map (\<lambda>k. (k, v)) ks"
  by (induction ks) simp_all

lemma length_mset: "length (concat (map (\<lambda>k. [k, v]) ks)) = 2 * length ks"
  by (induction ks) simp_all

lemma get_answered:
  assumes "sv_inv cx True sv" "serves cx (svCluster sv) True k"
  shows "answered cx [''GET'', k] sv"
proof -
  note ok = sv_invD(1) [OF assms(1)]
  let ?v = "Get (cx_crc cx) (svKV sv) k"
  have "handleGet cx (svCluster sv) True (svKV sv) [k]
      = Some (svKV sv, [if ?v = ''(nil)'' then WriteStatusString ''No such key'' else WriteString ?v])"
    using get.here [OF ok, of "[k]"] assms(2) by (simp add: handleGet_def)
  then have run: "runCommand cx True [''GET'', k] sv sb
      = kvStep sv sb (Some (svKV sv, [if ?v = ''(nil)'' then WriteStatusString ''No such key'' else WriteString ?v]))" for sb
    by (simp add: runCommand_get)
  have "readValue 4 ((if ?v = ''(nil)'' then WriteStatusString ''No such key'' else WriteString ?v) @ [])
      = Some (RStr (if ?v = ''(nil)'' then ''No such key'' else ?v), [])" using read_missing read_string [of ?v] by simp
  from answeredI [OF assms(1) run sv_invD(4) [OF assms(1)] refl this] show ?thesis by simp
qed

lemma set_answered:
  assumes "sv_inv cx True sv" "serves cx (svCluster sv) True k"
  shows "answered cx [''SET'', k, v] sv"
proof -
  note ok = sv_invD(1) [OF assms(1)]
  obtain kv' where kv': "SetKV (cx_crc cx) (svKV sv) k v = Some (kv', ())" "kv_wf (cx_crc cx) kv'" "clusterEnabled kv' = clusterEnabled (svKV sv)"
    using SetKV_safe [OF sv_invD(4) [OF assms(1)], of k v] by (auto simp: kv_safe_def)
  have "handleSet cx (svCluster sv) True (svKV sv) [k, v] = Some (kv', [WriteOK])"
    using set.here [OF ok, of "[k, v]"] assms(2) kv'(1) by (simp add: handleSet_def)
  then have run: "runCommand cx True [''SET'', k, v] sv sb = kvStep sv sb (Some (kv', [WriteOK]))" for sb by (simp add: runCommand_set)
  from answeredI [OF assms(1) run kv'(2,3) read_OK] show ?thesis by simp
qed

lemma mget_answered:
  assumes "sv_inv cx True sv" "serves cx (svCluster sv) True (hd ks)" "ks \<noteq> []" "same_slot (cx_crc cx) ks"
  shows "answered cx (''MGET'' # ks) sv"
proof -
  note ok = sv_invD(1) [OF assms(1)]
  have "handleMGet cx (svCluster sv) True (svKV sv) ks = Some (svKV sv, [WriteArrayString (Mget (cx_crc cx) (svKV sv) ks)])"
    using mget.here [OF ok, of ks] assms(2-4) by (simp add: handleMGet_def same_slot_iff hd_conv_nth)
  then have run: "runCommand cx True (''MGET'' # ks) sv sb = kvStep sv sb (Some (svKV sv, [WriteArrayString (Mget (cx_crc cx) (svKV sv) ks)]))" for sb
    by (simp add: runCommand_def dispatch_def keyedCommands_def)
  from answeredI [OF assms(1) run sv_invD(4) [OF assms(1)] refl read_keys] show ?thesis by simp
qed

lemma mset_answered:
  assumes "sv_inv cx True sv" "serves cx (svCluster sv) True (hd ks)" "ks \<noteq> []" "same_slot (cx_crc cx) ks"
  shows "answered cx (msetArgs ks) sv"
proof -
  note ok = sv_invD(1) [OF assms(1)]
  let ?args = "concat (map (\<lambda>k. [k, ''xxx'']) ks)"
  have pairs: "map fst (argPairs ?args) = ks" "map snd (argPairs ?args) = replicate (length ks) ''xxx''"
    unfolding argPairs_mset by (simp_all add: comp_def map_replicate_const)
  obtain kv' where kv': "Mset (cx_crc cx) (svKV sv) ks (replicate (length ks) ''xxx'') = Some (kv', ())" "kv_wf (cx_crc cx) kv'"
    "clusterEnabled kv' = clusterEnabled (svKV sv)"
    using Mset_safe [OF sv_invD(4) [OF assms(1)], of ks "replicate (length ks) ''xxx''"] assms(4) by (auto simp: kv_safe_def)
  have acc: "acceptsMSet cx True ?args" using assms(3,4) pairs(1) by (simp add: acceptsMSet_def same_slot_iff length_mset)
  have hd: "?args ! 0 = hd ks" using assms(3) by (cases ks) simp_all
  have "handleMSet cx (svCluster sv) True (svKV sv) ?args = Some (kv', [WriteOK])"
    using mset.here [OF ok _ acc] assms(2) kv'(1) acc unfolding hd
    by (simp add: handleMSet_def acceptsMSet_def Let_def pairs)
  then have run: "runCommand cx True (msetArgs ks) sv sb = kvStep sv sb (Some (kv', [WriteOK]))" for sb
    by (simp add: msetArgs_def runCommand_def dispatch_def keyedCommands_def)
  from answeredI [OF assms(1) run kv'(2,3) read_OK] show ?thesis by simp
qed

section \<open>A cluster behind the router\<close>

text \<open>Behind every address of the router there is a live server that owns the slot.\<close>

definition covers :: "ctx \<Rightarrow> router \<Rightarrow> 'c world \<Rightarrow> bool" where
  "covers cx r w \<longleftrightarrow> (\<forall>slot < 16384. \<exists>sv. srv w (slotAddr r ! slot) = Some sv \<and> sv_inv cx True sv \<and> slot \<in> ownSlots sv)"

text \<open>The connections of the worker with index \<open>i\<close> are open, its own and have nothing left to read.\<close>

definition worker_ok :: "benchConn world \<Rightarrow> nat \<Rightarrow> worker \<Rightarrow> bool" where
  "worker_ok w i wk \<longleftrightarrow> (\<forall>a c. conns wk a = Some c \<longrightarrow> c = WorkerConn i a \<and> conn w c = Some a \<and> inbox w c = [])"

text \<open>What the generators produce: one of the four commands, on keys of one slot, for the address of that slot.\<close>

definition fits :: "crc16 \<Rightarrow> router \<Rightarrow> string \<Rightarrow> string list \<Rightarrow> bool" where
  "fits crc r addr args \<longleftrightarrow> (\<exists>ks. ks \<noteq> [] \<and> length ks \<le> 10 \<and> (\<forall>k \<in> set ks. length k \<le> 2048) \<and> same_slot crc ks
     \<and> addr = addrFor crc r (hd ks)
     \<and> args \<in> {[''GET'', hd ks], [''SET'', hd ks, ''xxx''], ''MGET'' # ks, msetArgs ks})"

lemma sum_list_le: "\<forall>x \<in> set xs. x \<le> n \<Longrightarrow> sum_list xs \<le> length xs * (n :: nat)"
  by (induction xs) auto

lemma fits_small: "fits crc r addr args \<Longrightarrow> cmd_ok connLimits args"
proof -
  assume "fits crc r addr args"
  then obtain ks where ks: "ks \<noteq> []" "length ks \<le> 10" "\<forall>k \<in> set ks. length k \<le> 2048"
    "args \<in> {[''GET'', hd ks], [''SET'', hd ks, ''xxx''], ''MGET'' # ks, msetArgs ks}" by (auto simp: fits_def)
  then have h: "length (hd ks) \<le> 2048" by simp
  have len: "length args \<le> 21" "args \<noteq> []" using ks(2,4) by (auto simp: msetArgs_def length_mset)
  have all: "\<forall>a \<in> set args. length a \<le> 2048" using ks(3,4) h by (auto simp: msetArgs_def)
  then have "arg_total args \<le> length args * 2048" unfolding arg_total_def using sum_list_le [of "map length args" 2048] by simp
  then have "arg_total args \<le> 21 * 2048" using len(1) by linarith
  with len all show ?thesis by (auto simp: cmd_ok_def connLimits_def)
qed

lemma fits_answered:
  assumes "covers cx r w" "fits (cx_crc cx) r addr args"
  shows "\<exists>sv. srv w addr = Some sv \<and> sv_inv cx True sv \<and> answered cx args sv"
proof -
  obtain ks where ks: "ks \<noteq> []" "same_slot (cx_crc cx) ks" "addr = addrFor (cx_crc cx) r (hd ks)"
    "args \<in> {[''GET'', hd ks], [''SET'', hd ks, ''xxx''], ''MGET'' # ks, msetArgs ks}" using assms(2) by (auto simp: fits_def)
  obtain sv where sv: "srv w addr = Some sv" "sv_inv cx True sv" "slotIndex (cx_crc cx) (hd ks) \<in> ownSlots sv"
    using assms(1) slotIndex_bound [of "cx_crc cx" "hd ks"] unfolding covers_def ks(3) addrFor_def by blast
  then have "serves cx (svCluster sv) True (hd ks)" by (auto simp: serves_def ownSlots_def split: option.splits)
  note here = get_answered [OF sv(2) this] set_answered [OF sv(2) this] mget_answered [OF sv(2) this ks(1,2)] mset_answered [OF sv(2) this ks(1,2)]
  then have "answered cx args sv" using ks(4) by auto
  with sv(1,2) show ?thesis by blast
qed

text \<open>One exchange changes one server, which keeps its slots, and no connection.\<close>

lemma exchange_sim:
  assumes "covers cx r w" "fits (cx_crc cx) r addr args" "conn w c = Some addr" "inbox w c = []"
  shows "\<exists>w'. exchange (benchSim cx) c args w = (None, w') \<and> covers cx r w' \<and> conn w' = conn w \<and> inbox w' = inbox w"
proof -
  obtain sv where sv: "srv w addr = Some sv" "sv_inv cx True sv" "answered cx args sv" using fits_answered [OF assms(1,2)] by blast
  have t: "talksTo w c addr sv" using sv(1) assms(3,4) by (simp add: talksTo_def)
  obtain sv' reply v where a: "runCommand cx True args sv (connSubs w c) = Some (sv', connSubs w c, [reply], True)"
    "readValue 4 (reply @ []) = Some (v, [])" "errText v = []" "sv_inv cx True sv'" "svCluster sv' = svCluster sv"
    using sv(3) unfolding answered_def by blast
  let ?w = "setServer c addr sv' (connSubs w c) w"
  from sim_ask [OF t fits_small [OF assms(2)] a(1,2)] a(3) have "exchange (benchSim cx) c args w = (None, ?w)" by (auto simp: exchange_def)
  moreover have "ownSlots sv' = ownSlots sv" using a(5) by (simp add: ownSlots_def)
  then have "covers cx r ?w" using assms(1) sv(1) a(4) by (auto simp: covers_def)
  ultimately show ?thesis by (intro exI [of _ ?w]) simp
qed

lemma workerDo_sim:
  assumes "covers cx r w" "fits (cx_crc cx) r addr args" "worker_ok w i wk"
  shows "\<exists>wk' w'. workerDo (benchSim cx) i addr args wk w = (None, wk', w') \<and> covers cx r w' \<and> worker_ok w' i wk'
     \<and> (\<forall>j wk2. j \<noteq> i \<and> worker_ok w j wk2 \<longrightarrow> worker_ok w' j wk2)"
proof (cases "conns wk addr")
  case (Some c)
  then have c: "conn w c = Some addr" "inbox w c = []" using assms(3) by (auto simp: worker_ok_def)
  from exchange_sim [OF assms(1,2) c] obtain w' where w': "exchange (benchSim cx) c args w = (None, w')" "covers cx r w'" "conn w' = conn w" "inbox w' = inbox w"
    by blast
  then have "worker_ok w' j wk2 = worker_ok w j wk2" for j wk2 by (simp add: worker_ok_def)
  with w'(1,2) Some assms(3) show ?thesis by (auto simp: workerDo_def)
next
  case None
  let ?c = "WorkerConn i addr"
  obtain sv where "srv w addr = Some sv" using fits_answered [OF assms(1,2)] by blast
  note d = conjunct1 [OF dial_sim [OF this, of cx ?c]]
  have "covers cx r (dialled ?c addr w)" using assms(1) by (simp add: covers_def)
  from exchange_sim [OF this assms(2), of ?c] obtain w' where w': "exchange (benchSim cx) ?c args (dialled ?c addr w) = (None, w')" "covers cx r w'"
    "conn w' = (conn w)(?c \<mapsto> addr)" "inbox w' = (inbox w)(?c := [])" by auto
  have "worker_ok w' i (wk\<lparr>conns := (conns wk)(addr \<mapsto> ?c)\<rparr>)" using assms(3) w'(3,4) by (auto simp: worker_ok_def)
  moreover have "worker_ok w' j wk2" if "j \<noteq> i" "worker_ok w j wk2" for j wk2
    using that w'(3,4) unfolding worker_ok_def by (metis benchConn.inject(2) fun_upd_other)
  ultimately show ?thesis using None d w'(1,2) by (auto simp: workerDo_def)
qed

section \<open>The generators\<close>

definition good_gen :: "crc16 \<Rightarrow> router \<Rightarrow> reqGen \<Rightarrow> bool" where
  "good_gen crc r gen \<longleftrightarrow> (\<forall>sq nw. sq < 2 ^ 62 \<and> nw < 2 ^ 62 \<longrightarrow>
     fits crc r (fst (fst (gen sq nw))) (snd (fst (gen sq nw))) \<and> snd (gen sq nw) \<le> nw + 1)"

lemma number_short: "i < 2 ^ 63 \<Longrightarrow> length (Itoa (int i)) \<le> 20"
  by (rule int64_text) (simp add: int64_ok_def MinInt64_def MaxInt64_def)

lemma single_fits:
  assumes "length ns \<le> 1024" "i < 2 ^ 63"
  shows "fits crc r (addrFor crc r (singleKey ns i)) [''GET'', singleKey ns i]"
    "fits crc r (addrFor crc r (singleKey ns i)) [''SET'', singleKey ns i, ''xxx'']"
proof -
  have "length (singleKey ns i) \<le> 2048" using assms number_short [of i] by (simp add: singleKey_def)
  moreover have "same_slot crc [singleKey ns i]" by (simp add: same_slot_def)
  ultimately show "fits crc r (addrFor crc r (singleKey ns i)) [''GET'', singleKey ns i]"
    "fits crc r (addrFor crc r (singleKey ns i)) [''SET'', singleKey ns i, ''xxx'']"
    unfolding fits_def by (auto intro!: exI [of _ "[singleKey ns i]"])
qed

lemma group_slot: "CHR ''{'' \<notin> set ns \<Longrightarrow> k \<in> set (groupKeys ns g) \<Longrightarrow> SlotForKey crc k = crc (Itoa (int g)) mod 16384"
proof -
  assume ns: "CHR ''{'' \<notin> set ns" and "k \<in> set (groupKeys ns g)"
  then obtain j where k: "k = (''bench:'' @ ns @ '':'') @ ''{'' @ Itoa (int g) @ ''}'' @ ('':'' @ Itoa (int j))" by (auto simp: groupKeys_def)
  have "CHR ''{'' \<notin> set (''bench:'' @ ns @ '':'')" using ns by simp
  moreover have "CHR ''}'' \<notin> set (Itoa (int g))" using utoa_digits [of "CHR ''}''" g] by (auto simp: Itoa_def is_digit_def)
  moreover have "Itoa (int g) \<noteq> []" using utoa_not_Nil [of g] by (simp add: Itoa_def)
  ultimately have "hashTag k = Itoa (int g)" unfolding k by (rule hashTag_braces)
  then show ?thesis by (simp add: SlotForKey_def)
qed

lemma group_fits:
  assumes "length ns \<le> 1024" "CHR ''{'' \<notin> set ns" "g < 2 ^ 63"
  shows "fits crc r (addrFor crc r (groupKeys ns g ! 0)) (''MGET'' # groupKeys ns g)"
    "fits crc r (addrFor crc r (groupKeys ns g ! 0)) (msetArgs (groupKeys ns g))"
proof -
  let ?ks = "groupKeys ns g"
  have ne: "?ks \<noteq> []" "length ?ks \<le> 10" by (simp_all add: groupKeys_def keysPerGroup_def)
  have "length k \<le> 2048" if k: "k \<in> set ?ks" for k
  proof -
    obtain j where "k = ''bench:'' @ ns @ '':{'' @ Itoa (int g) @ ''}:'' @ Itoa (int j)" "j \<in> set [0..<10]"
      using k unfolding groupKeys_def keysPerGroup_def set_map by (rule imageE)
    then show ?thesis using assms(1) number_short [OF assms(3)] number_short [of j] by simp
  qed
  moreover have "same_slot crc ?ks" using group_slot [OF assms(2), of _ g crc] hd_in_set [OF ne(1)] by (simp add: same_slot_def)
  ultimately show "fits crc r (addrFor crc r (?ks ! 0)) (''MGET'' # ?ks)" "fits crc r (addrFor crc r (?ks ! 0)) (msetArgs ?ks)"
    using ne unfolding fits_def by (auto simp: hd_conv_nth intro!: exI [of _ ?ks])
qed

lemma gens_good:
  assumes "length ns \<le> 1024" "CHR ''{'' \<notin> set ns"
  shows "good_gen crc r (getGen crc r ns ratio)" "good_gen crc r (mgetGen crc r ns ratio)" "good_gen crc r (setGen crc r ns existing)"
    "good_gen crc r (msetGen crc r ns existing)" "good_gen crc r (preloadGen crc r ns groups)"
  using single_fits [OF assms(1)] group_fits [OF assms]
  by (auto simp: good_gen_def getGen_def mgetGen_def setGen_def msetGen_def preloadGen_def Let_def bench_consts)

section \<open>Properties\<close>

lemma discover_dead: "\<forall>seed \<in> set dead. srv w seed = None \<Longrightarrow>
    \<exists>e. discoverLoop (benchSim cx) all (dead @ seeds) err w = discoverLoop (benchSim cx) all seeds e w"
  by (induction dead arbitrary: err) (auto simp: discoverSlots_def dial_def simDial_def)

text \<open>C23: the benchmark routes as the server does. Seeds that refuse the connection are skipped; from the first that answers, in
  cluster mode, the router is read, and for every key it has the address of this server if the server would serve the key, the
  very address of the redirection if it would redirect, and no address if the slot has no owner. Asking changes no server.\<close>

theorem router_agrees:
  assumes "\<forall>d \<in> set dead. srv w d = None" "srv w seed = Some sv" "sv_inv cx True sv" "svCluster sv = Some s"
  shows "\<exists>r w'. discoverClusterRouter (benchSim cx) (dead @ seed # seeds) w = Some (Inr r, w') \<and> srv w' = srv w
     \<and> (\<forall>key route out. toMoveorNotToMove cx (Some s) key = Some (route, out) \<longrightarrow>
          (case route of
             RouteOK \<Rightarrow> addrFor (cx_crc cx) r key = nodeAddr (store s (self_ref s))
           | RouteMoved \<Rightarrow> out = [''-MOVED '' @ Itoa (uint (SlotForKey (cx_crc cx) key)) @ '' '' @ addrFor (cx_crc cx) r key @ CRLF]
           | RouteError \<Rightarrow> addrFor (cx_crc cx) r key = []))"
proof -
  obtain r where r: "discoverSlots (benchSim cx) seed w = Some (Inr r, dialled (SeedConn seed) seed w)"
    "\<forall>slot < 16384. slotAddr r ! slot = ownerAddr cx s slot" using discoverSlots_sim [OF assms(2-4)] by blast
  have disc: "discoverClusterRouter (benchSim cx) (dead @ seed # seeds) w = Some (Inr r, dialled (SeedConn seed) seed w)"
    using discover_dead [OF assms(1), of cx "dead @ seed # seeds" "seed # seeds" None] r(1) by (auto simp: discoverClusterRouter_def)
  have addr: "addrFor (cx_crc cx) r key = ownerAddr cx s (slotIndex (cx_crc cx) key)" for key
    using r(2) slotIndex_bound by (simp add: addrFor_def)
  have wf: "cs_wf s" using sv_invD(1) [OF assms(3)] assms(4) by (auto simp: srv_ok_def)
  have self: "Self s = Some (self_ref s)" by (rule cs_wfD(1) [OF wf])
  show ?thesis
    by (intro exI [of _ r] exI [of _ "dialled (SeedConn seed) seed w"] conjI allI impI disc)
      (auto simp: addr ownerAddr_def toMoveorNotToMove_def movedReply_def Snapshot_def Let_def self split: option.splits if_splits)
qed

section \<open>Witnesses\<close>

text \<open>A server that owns every slot.\<close>

definition fullServer :: server where
  "fullServer = (exampleServer True)\<lparr>svCluster := addSlotsRange 0 16383 exampleState\<rparr>"

lemma fullServer_ok: "sv_inv exampleCtx True fullServer" "ownSlots fullServer = {0..16383}"
  "\<exists>s. svCluster fullServer = Some s \<and> Host (store s (self_ref s)) = ''h'' \<and> ClientPort (store s (self_ref s)) = 7000"
proof -
  obtain s where s: "addSlotsRange 0 16383 exampleState = Some s" "bus_wf s" "self_ref s = self_ref exampleState"
    "slots_of (store s (self_ref exampleState)) = slots_of (store exampleState (self_ref exampleState)) \<union> {0..16383}"
    using addSlotsRange_spec [OF exampleState_ok(1), of 16383 0] by auto
  then show "sv_inv exampleCtx True fullServer" using sv_inv_cluster [OF example_ok(2)] by (simp add: fullServer_def)
  show "ownSlots fullServer = {0..16383}" using s exampleServer_slots(1) by (auto simp: ownSlots_def fullServer_def exampleServer_slots(2))
  show "\<exists>s. svCluster fullServer = Some s \<and> Host (store s (self_ref s)) = ''h'' \<and> ClientPort (store s (self_ref s)) = 7000"
    using s(1,3) by (auto simp: fullServer_def addSlotsRange_def AddSlotRange_def initState_def self_ref_def updNode_def NewNode_def SetOwnedSlots_def bind_eq_Some_conv)
qed

definition fullWorld :: "benchConn world" where
  "fullWorld = \<lparr>srv = [''h:7000'' \<mapsto> fullServer], conn = (\<lambda>_. None), connSubs = (\<lambda>_. GoMap []), inbox = (\<lambda>_. [])\<rparr>"

lemma full_addr: "JoinHostPort ''h'' (Itoa 7000) = ''h:7000''"
  by (simp add: JoinHostPort_def Itoa_def utoa.simps digit_char_def) code_simp

theorem router_agrees_witness:
  "\<exists>r w'. discoverClusterRouter (benchSim exampleCtx) [''x:1'', ''h:7000''] fullWorld = Some (Inr r, w') \<and> addrFor (\<lambda>_. 7) r ''k'' = ''h:7000''"
proof -
  obtain s where s: "svCluster fullServer = Some s" "Host (store s (self_ref s)) = ''h''" "ClientPort (store s (self_ref s)) = 7000"
    using fullServer_ok(3) by blast
  have "slotIndex (cx_crc exampleCtx) ''k'' \<le> 16383" using slotIndex_bound [of "cx_crc exampleCtx" "''k''"] by linarith
  then have "serves exampleCtx (Some s) True ''k''" using fullServer_ok(2) s(1) by (auto simp: serves_def ownSlots_def)
  then obtain out where ok: "toMoveorNotToMove exampleCtx (Some s) ''k'' = Some (RouteOK, out)"
    using route_total [of exampleCtx "Some s" "svKV fullServer" "''k''"] sv_invD(1) [OF fullServer_ok(1)] s(1) by auto
  have addr: "nodeAddr (store s (self_ref s)) = ''h:7000''" using full_addr unfolding s(2,3) .
  have w: "\<forall>d \<in> set [''x:1'']. srv fullWorld d = None" "srv fullWorld ''h:7000'' = Some fullServer" by (simp_all add: fullWorld_def)
  have crc: "cx_crc exampleCtx = (\<lambda>_. 7)" by (simp add: exampleCtx_def)
  from router_agrees [OF w fullServer_ok(1) s(1), of "[]", unfolded crc addr append_Cons append_Nil] show ?thesis
    by - (elim exE conjE, intro exI conjI, assumption, drule spec [of _ "''k''"], drule spec [of _ RouteOK], drule spec [of _ out], simp add: ok)
qed

end
