(* ===== verification/Bench_Phase.thy ===== *)
theory Bench_Phase
  imports Bench_Served
begin

text \<open>
  \<^verbatim>\<open>runPhase\<close> of \<^verbatim>\<open>cmd/ember-bench\<close>: one goroutine for each worker, a shared counter that hands out the sequence numbers and a
  channel for the errors. A step is what one goroutine does between two accesses to something shared; a schedule is the list of
  the goroutines that take the steps, so every interleaving is some schedule. Instead of the time a request took, its sequence number is kept. The
  theorems are that every schedule ends, that each number is served exactly once unless a request fails, and that on a cluster behind
  the router none fails.
\<close>

section \<open>The machine\<close>

datatype goroutine = Top | Taken nat | Ready nat string "string list" | Sending string "string list" benchError | Finished | Failed

record 'w phase =
  seqCounter :: int
  newSeq :: nat
  goroutines :: "goroutine list"
  pool :: "worker list"
  perWorker :: "nat list list"
  errsChan :: "(string \<times> string list \<times> benchError) list"
  netState :: 'w

definition startPhase :: "nat \<Rightarrow> worker list \<Rightarrow> 'w \<Rightarrow> 'w phase" where
  "startPhase nw workers w = \<lparr>seqCounter = -1, newSeq = nw, goroutines = replicate (length workers) Top, pool = workers,
     perWorker = replicate (length workers) [], errsChan = [], netState = w\<rparr>"

text \<open>The channel has room for one error of each worker; \<^const>\<open>None\<close> is a goroutine that cannot go on.\<close>

definition phaseStep :: "(benchConn, 'w) benchNet \<Rightarrow> reqGen \<Rightarrow> nat \<Rightarrow> nat \<Rightarrow> 'w phase \<Rightarrow> 'w phase option" where
  "phaseStep net gen cnt i st =
     (let goto = (\<lambda>g st. st\<lparr>goroutines := (goroutines st)[i := g]\<rparr>)
      in if i < length (goroutines st) then
           (case goroutines st ! i of
              Top \<Rightarrow>
                (let s = seqCounter st + 1
                 in Some (goto (if s \<ge> int cnt then Finished else Taken (nat s)) (st\<lparr>seqCounter := s\<rparr>)))
            | Taken s \<Rightarrow> (case gen s (newSeq st) of ((addr, args), nw) \<Rightarrow> Some (goto (Ready s addr args) (st\<lparr>newSeq := nw\<rparr>)))
            | Ready s addr args \<Rightarrow>
                (case workerDo net i addr args (pool st ! i) (netState st) of
                   (err, wk, w) \<Rightarrow>
                     let st1 = st\<lparr>pool := (pool st)[i := wk], netState := w\<rparr>
                     in case err of
                          Some e \<Rightarrow> Some (goto (Sending addr args e) st1)
                        | None \<Rightarrow> Some (goto Top (st1\<lparr>perWorker := (perWorker st)[i := perWorker st ! i @ [s]]\<rparr>)))
            | Sending addr args e \<Rightarrow>
                (if length (errsChan st) < length (goroutines st)
                 then Some (goto Failed (st\<lparr>errsChan := errsChan st @ [(addr, args, e)]\<rparr>)) else None)
            | Finished \<Rightarrow> None
            | Failed \<Rightarrow> None)
         else None)"

text \<open>\<^verbatim>\<open>wg.Wait()\<close> returns; then the first error, if any, is the result, otherwise everything the workers collected.\<close>

definition phaseEnded :: "'w phase \<Rightarrow> bool" where
  "phaseEnded st \<longleftrightarrow> (\<forall>g \<in> set (goroutines st). g \<in> {Finished, Failed})"

definition phaseResult :: "'w phase \<Rightarrow> (string \<times> string list \<times> benchError) + nat list" where
  "phaseResult st = (case errsChan st of e # _ \<Rightarrow> Inl e | [] \<Rightarrow> Inr (concat (perWorker st)))"

fun runSchedule :: "(nat \<Rightarrow> 's \<Rightarrow> 's option) \<Rightarrow> nat list \<Rightarrow> 's \<Rightarrow> 's option" where
  "runSchedule stp [] st = Some st"
| "runSchedule stp (i # sched) st = do { st' \<leftarrow> stp i st; runSchedule stp sched st' }"

section \<open>Schedules of a machine whose steps cost\<close>

locale costly_steps =
  fixes stp :: "nat \<Rightarrow> 's \<Rightarrow> 's option" and cost :: "'s \<Rightarrow> nat"
  assumes cheaper: "stp i st = Some st' \<Longrightarrow> cost st' < cost st"
begin

lemma schedule_bound: "runSchedule stp sched st = Some st' \<Longrightarrow> length sched + cost st' \<le> cost st"
  by (induction sched arbitrary: st) (auto simp: bind_eq_Some_conv dest!: cheaper, force)

lemma run_to_end: "\<exists>sched st'. runSchedule stp sched st = Some st' \<and> (\<forall>i. stp i st' = None)"
proof (induction "cost st" arbitrary: st rule: less_induct)
  case less
  show ?case
  proof (cases "\<exists>i st1. stp i st = Some st1")
    case True
    then obtain i st1 where s: "stp i st = Some st1" by blast
    with less cheaper obtain sched st' where "runSchedule stp sched st1 = Some st'" "\<forall>i. stp i st' = None" by blast
    with s show ?thesis by (intro exI [of _ "i # sched"] exI [of _ st']) simp
  next
    case False
    then show ?thesis by (intro exI [of _ "[]"]) auto
  qed
qed

end

lemma schedule_invariant:
  assumes "runSchedule stp sched st = Some st'" "I st" "\<And>i st st'. I st \<Longrightarrow> stp i st = Some st' \<Longrightarrow> I st'"
  shows "I st'"
  using assms(1,2) by (induction sched arbitrary: st) (auto simp: bind_eq_Some_conv intro: assms(3))

text \<open>What the goroutines still have to do: three steps for each number not handed out yet.\<close>

fun goCost :: "goroutine \<Rightarrow> nat" where
  "goCost Top = 1"
| "goCost (Taken s) = 3"
| "goCost (Ready s addr args) = 2"
| "goCost (Sending addr args e) = 1"
| "goCost _ = 0"

definition phaseCost :: "nat \<Rightarrow> 'w phase \<Rightarrow> nat" where
  "phaseCost cnt st = 3 * nat (int cnt - 1 - seqCounter st) + sum_list (map goCost (goroutines st))"

lemma sum_list_update_nat: "i < length xs \<Longrightarrow> sum_list (map f (xs[i := y])) + f (xs ! i) = sum_list (map f xs) + (f y :: nat)"
  by (induction xs arbitrary: i) (auto split: nat.split)

text \<open>The six kinds of steps.\<close>

lemma phaseStep_cases:
  assumes "phaseStep net gen cnt i st = Some st'"
  obtains
    (take) "i < length (goroutines st)" "goroutines st ! i = Top" "seqCounter st + 1 < int cnt"
      "st' = st\<lparr>seqCounter := seqCounter st + 1, goroutines := (goroutines st)[i := Taken (nat (seqCounter st + 1))]\<rparr>"
  | (finish) "i < length (goroutines st)" "goroutines st ! i = Top" "int cnt \<le> seqCounter st + 1"
      "st' = st\<lparr>seqCounter := seqCounter st + 1, goroutines := (goroutines st)[i := Finished]\<rparr>"
  | (generate) s addr args nw where "i < length (goroutines st)" "goroutines st ! i = Taken s" "gen s (newSeq st) = ((addr, args), nw)"
      "st' = st\<lparr>newSeq := nw, goroutines := (goroutines st)[i := Ready s addr args]\<rparr>"
  | (serve) s addr args wk w where "i < length (goroutines st)" "goroutines st ! i = Ready s addr args"
      "workerDo net i addr args (pool st ! i) (netState st) = (None, wk, w)"
      "st' = st\<lparr>pool := (pool st)[i := wk], netState := w, perWorker := (perWorker st)[i := perWorker st ! i @ [s]], goroutines := (goroutines st)[i := Top]\<rparr>"
  | (fail) s addr args e wk w where "i < length (goroutines st)" "goroutines st ! i = Ready s addr args"
      "workerDo net i addr args (pool st ! i) (netState st) = (Some e, wk, w)"
      "st' = st\<lparr>pool := (pool st)[i := wk], netState := w, goroutines := (goroutines st)[i := Sending addr args e]\<rparr>"
  | (send) addr args e where "i < length (goroutines st)" "goroutines st ! i = Sending addr args e" "length (errsChan st) < length (goroutines st)"
      "st' = st\<lparr>errsChan := errsChan st @ [(addr, args, e)], goroutines := (goroutines st)[i := Failed]\<rparr>"
proof -
  have i: "i < length (goroutines st)" using assms by (simp add: phaseStep_def Let_def split: if_splits)
  note step = assms [unfolded phaseStep_def Let_def if_P [OF i]]
  show thesis
  proof (cases "goroutines st ! i")
    case Top
    then show thesis using step i take finish by (cases "int cnt \<le> seqCounter st + 1") auto
  next
    case (Taken s)
    then show thesis using step i generate by (cases "gen s (newSeq st)") auto
  next
    case (Ready s addr args)
    obtain err wk w where "workerDo net i addr args (pool st ! i) (netState st) = (err, wk, w)" by (metis prod_cases3)
    then show thesis using Ready step i serve fail by (cases err) auto
  next
    case (Sending addr args e)
    then show thesis using step i send by (auto split: if_splits)
  qed (use step in simp_all)
qed

interpretation phase: costly_steps "phaseStep net gen cnt" "phaseCost cnt" for net gen cnt
proof
  fix i and st st' :: "'a phase"
  assume "phaseStep net gen cnt i st = Some st'"
  then show "phaseCost cnt st' < phaseCost cnt st"
  proof (cases rule: phaseStep_cases)
    case take
    then show ?thesis using sum_list_update_nat [OF take(1), of goCost "Taken (nat (seqCounter st + 1))"] by (simp add: phaseCost_def)
  next
    case finish
    then show ?thesis using sum_list_update_nat [OF finish(1), of goCost Finished] by (simp add: phaseCost_def)
  next
    case (generate s addr args nw)
    then show ?thesis using sum_list_update_nat [OF generate(1), of goCost "Ready s addr args"] by (simp add: phaseCost_def)
  next
    case (serve s addr args wk w)
    then show ?thesis using sum_list_update_nat [OF serve(1), of goCost Top] by (simp add: phaseCost_def)
  next
    case (fail s addr args e wk w)
    then show ?thesis using sum_list_update_nat [OF fail(1), of goCost "Sending addr args e"] by (simp add: phaseCost_def)
  next
    case (send addr args e)
    then show ?thesis using sum_list_update_nat [OF send(1), of goCost Failed] by (simp add: phaseCost_def)
  qed
qed

section \<open>Accounting for every number\<close>

fun heldBy :: "goroutine \<Rightarrow> nat list" where
  "heldBy (Taken s) = [s]"
| "heldBy (Ready s addr args) = [s]"
| "heldBy _ = []"

fun broken :: "goroutine \<Rightarrow> bool" where
  "broken (Sending addr args e) = True"
| "broken Failed = True"
| "broken _ = False"

text \<open>The numbers handed out so far are those served, those some goroutine holds, and one \<open>lost\<close> number for each goroutine whose
  request failed.\<close>

definition phase_inv :: "nat \<Rightarrow> 'w phase \<Rightarrow> bool" where
  "phase_inv cnt st \<longleftrightarrow> length (pool st) = length (goroutines st) \<and> length (perWorker st) = length (goroutines st) \<and> -1 \<le> seqCounter st
     \<and> (\<exists>lost. mset (concat (perWorker st)) + mset (concat (map heldBy (goroutines st))) + lost = mset [0..<min (nat (seqCounter st + 1)) cnt]
          \<and> size lost = length (filter broken (goroutines st)))
     \<and> length (errsChan st) = length (filter (\<lambda>g. g = Failed) (goroutines st))
     \<and> (Finished \<in> set (goroutines st) \<longrightarrow> int cnt \<le> seqCounter st)
     \<and> (\<forall>i < length (goroutines st). sorted_wrt (<) (perWorker st ! i @ heldBy (goroutines st ! i)))"

lemma mset_concat_update: "i < length xs \<Longrightarrow> mset (concat (xs[i := ys])) + mset (xs ! i) = mset (concat xs) + mset ys"
  by (induction xs arbitrary: i) (auto split: nat.split)

lemma length_filter_sum: "length (filter P xs) = sum_list (map (\<lambda>x. if P x then 1 else 0) xs)"
  by (induction xs) simp_all

lemma length_filter_update: "i < length xs \<Longrightarrow>
    length (filter P (xs[i := y])) + (if P (xs ! i) then 1 else 0) = length (filter P xs) + (if P y then 1 else 0)"
  unfolding length_filter_sum by (rule sum_list_update_nat)

lemma mset_balance:
  assumes "b' + h = b + h'" "a + b + l = m" "n + h' + g = h + t"
  shows "(a + n) + b' + (l + g) = m + (t :: 'a multiset)"
proof (rule multiset_eqI)
  fix x
  show "count ((a + n) + b' + (l + g)) x = count (m + t) x"
    using assms [THEN arg_cong [of _ _ "\<lambda>M. count M x"]] by simp
qed

lemma held_update: "i < length gs \<Longrightarrow>
    mset (concat (map heldBy (gs[i := g]))) + mset (heldBy (gs ! i)) = mset (concat (map heldBy gs)) + mset (heldBy g)"
  using mset_concat_update [of i "map heldBy gs" "heldBy g"] by (simp add: map_update)

text \<open>One goroutine moves on: what it held before and holds now balances with what was handed out, served and lost.\<close>

lemma phase_inv_step:
  assumes inv: "phase_inv cnt st" and i: "i < length (goroutines st)"
    and st': "goroutines st' = (goroutines st)[i := g]" "length (pool st') = length (pool st)" "-1 \<le> seqCounter st'"
      "perWorker st' = (perWorker st)[i := perWorker st ! i @ new]"
      "mset [0..<min (nat (seqCounter st' + 1)) cnt] = mset [0..<min (nat (seqCounter st + 1)) cnt] + taken"
      "length (errsChan st') = length (errsChan st) + (if g = Failed then 1 else 0)"
    and bal: "mset new + mset (heldBy g) + gone = mset (heldBy (goroutines st ! i)) + taken"
      "size gone + (if broken (goroutines st ! i) then 1 else 0) = (if broken g then 1 else 0)"
    and fin: "g = Finished \<longrightarrow> int cnt \<le> seqCounter st'" "seqCounter st \<le> seqCounter st'" "goroutines st ! i \<noteq> Failed"
    and srt: "sorted_wrt (<) (perWorker st ! i @ new @ heldBy g)"
  shows "phase_inv cnt st'"
proof -
  let ?gs = "goroutines st"
  obtain lost where lost: "mset (concat (perWorker st)) + mset (concat (map heldBy ?gs)) + lost = mset [0..<min (nat (seqCounter st + 1)) cnt]"
    "size lost = length (filter broken ?gs)" using inv unfolding phase_inv_def by blast
  have len: "length (pool st) = length ?gs" "length (perWorker st) = length ?gs" using inv unfolding phase_inv_def by blast+
  have w: "mset (concat (perWorker st')) = mset (concat (perWorker st)) + mset new"
    using mset_concat_update [of i "perWorker st" "perWorker st ! i @ new"] i len(2) st'(4) by simp
  have "mset (concat (perWorker st')) + mset (concat (map heldBy (goroutines st'))) + (lost + gone) = mset [0..<min (nat (seqCounter st' + 1)) cnt]"
    unfolding w st'(1,5) by (rule mset_balance [OF held_update [OF i, of g] lost(1) bal(1)])
  moreover have "size (lost + gone) = length (filter broken (goroutines st'))"
    using length_filter_update [OF i, of broken g] lost(2) bal(2) unfolding st'(1) by (auto split: if_splits)
  moreover have "length (errsChan st') = length (filter (\<lambda>g. g = Failed) (goroutines st'))"
    using length_filter_update [OF i, of "\<lambda>g. g = Failed" g] inv fin(3) unfolding st'(1,6) phase_inv_def by (auto split: if_splits)
  moreover have "Finished \<in> set (goroutines st') \<longrightarrow> int cnt \<le> seqCounter st'"
    using inv fin(1,2) set_update_subset_insert [of ?gs i g] unfolding st'(1) phase_inv_def by auto
  moreover have "\<forall>j < length (goroutines st'). sorted_wrt (<) (perWorker st' ! j @ heldBy (goroutines st' ! j))"
    using inv srt i len(2) unfolding st'(1,4) phase_inv_def by (auto simp: nth_list_update)
  ultimately show ?thesis using len st'(2-4) unfolding phase_inv_def by (auto simp: st'(1))
qed

lemma phase_inv_bound: "phase_inv cnt st \<Longrightarrow> i < length (goroutines st) \<Longrightarrow> s \<in> set (perWorker st ! i) \<Longrightarrow> s < min (nat (seqCounter st + 1)) cnt"
proof -
  assume inv: "phase_inv cnt st" and i: "i < length (goroutines st)" and s: "s \<in> set (perWorker st ! i)"
  obtain lost where "mset (concat (perWorker st)) + mset (concat (map heldBy (goroutines st))) + lost = mset [0..<min (nat (seqCounter st + 1)) cnt]"
    using inv unfolding phase_inv_def by blast
  moreover have "s \<in># mset (concat (perWorker st))" using s i inv nth_mem [of i "perWorker st"] by (auto simp: phase_inv_def)
  ultimately have "s \<in># mset [0..<min (nat (seqCounter st + 1)) cnt]" by (metis union_iff)
  then show ?thesis by simp
qed

lemma phase_inv_keep:
  assumes inv: "phase_inv cnt st" and step: "phaseStep net gen cnt i st = Some st'"
  shows "phase_inv cnt st'"
proof -
  have c: "-1 \<le> seqCounter st" and srt: "\<And>j. j < length (goroutines st) \<Longrightarrow> sorted_wrt (<) (perWorker st ! j @ heldBy (goroutines st ! j))"
    using inv unfolding phase_inv_def by blast+
  note upd = phase_inv_step [OF inv]
  show ?thesis
    using step
  proof (cases rule: phaseStep_cases)
    case take
    let ?m = "nat (seqCounter st + 1)"
    have m: "nat (seqCounter st + 1 + 1) = Suc ?m" "?m < cnt" using c take(3) by linarith+
    show ?thesis
      by (rule upd [OF take(1), where g = "Taken ?m" and new = "[]" and gone = "{#}" and taken = "{#?m#}"])
        (use take c m srt [OF take(1)] phase_inv_bound [OF inv take(1)] in \<open>auto simp: sorted_wrt_append min_def\<close>)
  next
    case finish
    show ?thesis
      by (rule upd [OF finish(1), where g = Finished and new = "[]" and gone = "{#}" and taken = "{#}"])
        (use finish c srt [OF finish(1)] in \<open>auto simp: min_def nat_le_iff\<close>)
  next
    case (generate s addr args nw)
    show ?thesis
      by (rule upd [OF generate(1), where g = "Ready s addr args" and new = "[]" and gone = "{#}" and taken = "{#}"])
        (use generate c srt [OF generate(1)] in auto)
  next
    case (serve s addr args wk w)
    show ?thesis
      by (rule upd [OF serve(1), where g = Top and new = "[s]" and gone = "{#}" and taken = "{#}"])
        (use serve c srt [OF serve(1)] in auto)
  next
    case (fail s addr args e wk w)
    show ?thesis
      by (rule upd [OF fail(1), where g = "Sending addr args e" and new = "[]" and gone = "{#s#}" and taken = "{#}"])
        (use fail c srt [OF fail(1)] in \<open>auto simp: sorted_wrt_append\<close>)
  next
    case (send addr args e)
    show ?thesis
      by (rule upd [OF send(1), where g = Failed and new = "[]" and gone = "{#}" and taken = "{#}"])
        (use send c srt [OF send(1)] in auto)
  qed
qed

lemma startPhase_inv: "phase_inv cnt (startPhase nw workers w)"
  by (auto simp: phase_inv_def startPhase_def)

lemma phase_reached: "runSchedule (phaseStep net gen cnt) sched (startPhase nw workers w) = Some st \<Longrightarrow> phase_inv cnt st"
  by (erule schedule_invariant [where I = "phase_inv cnt"]) (rule startPhase_inv, rule phase_inv_keep)

lemma phase_width: "runSchedule (phaseStep net gen cnt) sched (startPhase nw workers w) = Some st \<Longrightarrow> length (goroutines st) = length workers"
  by (erule schedule_invariant [where I = "\<lambda>st. length (goroutines st) = length workers"]) (auto simp: startPhase_def elim: phaseStep_cases)

text \<open>The channel never blocks a goroutine: it has sent nothing before.\<close>

lemma phase_progress:
  assumes "phase_inv cnt st" "\<not> phaseEnded st"
  shows "\<exists>i st'. phaseStep net gen cnt i st = Some st'"
proof -
  obtain i where i: "i < length (goroutines st)" "goroutines st ! i \<notin> {Finished, Failed}"
    using assms(2) by (auto simp: phaseEnded_def in_set_conv_nth)
  then have "length (filter (\<lambda>g. g = Failed) (goroutines st)) < length (goroutines st)" by (intro length_filter_less [of "goroutines st ! i"]) auto
  then have room: "length (errsChan st) < length (goroutines st)" using assms(1) by (simp add: phase_inv_def)
  have "phaseStep net gen cnt i st \<noteq> None"
  proof (cases "goroutines st ! i")
    case (Taken s)
    then show ?thesis using i by (cases "gen s (newSeq st)") (auto simp: phaseStep_def Let_def)
  next
    case (Ready s addr args)
    obtain err wk w where "workerDo net i addr args (pool st ! i) (netState st) = (err, wk, w)" by (metis prod_cases3)
    then show ?thesis using i Ready by (cases err) (auto simp: phaseStep_def Let_def)
  qed (use i room in \<open>auto simp: phaseStep_def Let_def\<close>)
  then show ?thesis by blast
qed

section \<open>On a cluster behind the router\<close>

fun isTaken :: "goroutine \<Rightarrow> bool" where
  "isTaken (Taken s) = True"
| "isTaken _ = False"

fun healthy :: "crc16 \<Rightarrow> router \<Rightarrow> nat \<Rightarrow> goroutine \<Rightarrow> bool" where
  "healthy crc r cnt (Taken s) \<longleftrightarrow> s < cnt"
| "healthy crc r cnt (Ready s addr args) \<longleftrightarrow> fits crc r addr args"
| "healthy crc r cnt (Sending addr args e) \<longleftrightarrow> False"
| "healthy crc r cnt Failed \<longleftrightarrow> False"
| "healthy crc r cnt _ \<longleftrightarrow> True"

definition cluster_inv :: "ctx \<Rightarrow> router \<Rightarrow> nat \<Rightarrow> nat \<Rightarrow> benchConn world phase \<Rightarrow> bool" where
  "cluster_inv cx r cnt nw st \<longleftrightarrow> phase_inv cnt st \<and> covers cx r (netState st)
     \<and> (\<forall>i < length (goroutines st). worker_ok (netState st) i (pool st ! i)) \<and> (\<forall>g \<in> set (goroutines st). healthy (cx_crc cx) r cnt g)
     \<and> newSeq st + length (filter isTaken (goroutines st)) \<le> nw + min (nat (seqCounter st + 1)) cnt"

lemma set_update_healthy: "\<forall>g \<in> set gs. P g \<Longrightarrow> P g' \<Longrightarrow> \<forall>g \<in> set (gs[i := g']). P g"
  using set_update_subset_insert [of gs i g'] by auto

lemma cluster_inv_keep:
  assumes inv: "cluster_inv cx r cnt nw st" and gen: "good_gen (cx_crc cx) r gen" "nw + cnt < 2 ^ 62"
    and step: "phaseStep (benchSim cx) gen cnt i st = Some st'"
  shows "cluster_inv cx r cnt nw st'"
proof -
  note parts = inv [unfolded cluster_inv_def]
  have p': "phase_inv cnt st'" by (rule phase_inv_keep [OF conjunct1 [OF parts] step])
  have h: "\<forall>g \<in> set (goroutines st). healthy (cx_crc cx) r cnt g" and c: "-1 \<le> seqCounter st" and pl: "length (pool st) = length (goroutines st)"
    and wk: "\<forall>j < length (goroutines st). worker_ok (netState st) j (pool st ! j)" and cov: "covers cx r (netState st)"
    and nq: "newSeq st + length (filter isTaken (goroutines st)) \<le> nw + min (nat (seqCounter st + 1)) cnt"
    using parts unfolding phase_inv_def by blast+
  note hu = set_update_healthy [where P = "healthy (cx_crc cx) r cnt", OF h]
  note fu = length_filter_update [of i "goroutines st" isTaken]
  show ?thesis
    using step
  proof (cases rule: phaseStep_cases)
    case take
    have m: "nat (seqCounter st + 1 + 1) = Suc (nat (seqCounter st + 1))" "nat (seqCounter st + 1) < cnt" using c take(3) by linarith+
    then show ?thesis using p' cov wk nq hu [of "Taken (nat (seqCounter st + 1))"] fu [OF take(1), of "Taken (nat (seqCounter st + 1))"]
      unfolding cluster_inv_def take(4) by (simp add: take(2))
  next
    case finish
    have "min (nat (seqCounter st + 1)) cnt = cnt" "min (nat (seqCounter st + 1 + 1)) cnt = cnt" using finish(3) by linarith+
    then show ?thesis using p' cov wk nq hu [of Finished] fu [OF finish(1), of Finished] unfolding cluster_inv_def finish(4) by (simp add: finish(2))
  next
    case (generate s addr args nw')
    have s: "s < cnt" using h generate(1,2) nth_mem [OF generate(1)] by force
    have "newSeq st < 2 ^ 62" using nq gen(2) by linarith
    then have g: "fits (cx_crc cx) r addr args" "nw' \<le> newSeq st + 1" using gen(1) [unfolded good_gen_def, rule_format, of s "newSeq st"] s gen(2) generate(3) by auto
    then show ?thesis using p' cov wk nq hu [of "Ready s addr args"] fu [OF generate(1), of "Ready s addr args"] unfolding cluster_inv_def generate(4)
      by (simp add: generate(2))
  next
    case (serve s addr args wk' w)
    have fit: "fits (cx_crc cx) r addr args" using h serve(1,2) nth_mem [OF serve(1)] by force
    have ok: "worker_ok (netState st) i (pool st ! i)" using wk serve(1) by blast
    from workerDo_sim [OF cov fit ok] serve(3) have w: "covers cx r w" "worker_ok w i wk'" "\<forall>j wk2. j \<noteq> i \<and> worker_ok (netState st) j wk2 \<longrightarrow> worker_ok w j wk2" by auto
    have "\<forall>j < length (goroutines st). worker_ok w j ((pool st)[i := wk'] ! j)" using w(2,3) wk pl serve(1) by (auto simp: nth_list_update)
    then show ?thesis using p' w(1) nq hu [of Top] fu [OF serve(1), of Top] unfolding cluster_inv_def serve(4) by (simp add: serve(2))
  next
    case (fail s addr args e wk' w)
    have fit: "fits (cx_crc cx) r addr args" using h fail(1,2) nth_mem [OF fail(1)] by force
    have ok: "worker_ok (netState st) i (pool st ! i)" using wk fail(1) by blast
    from workerDo_sim [OF cov fit ok] fail(3) show ?thesis by auto
  next
    case (send addr args e)
    then show ?thesis using h nth_mem [OF send(1)] by force
  qed
qed

lemma cluster_reached:
  assumes "covers cx r w" "\<forall>i < length workers. worker_ok w i (workers ! i)" "good_gen (cx_crc cx) r gen" "nw + cnt < 2 ^ 62"
    and "runSchedule (phaseStep (benchSim cx) gen cnt) sched (startPhase nw workers w) = Some st"
  shows "cluster_inv cx r cnt nw st"
proof (rule schedule_invariant [OF assms(5)])
  show "cluster_inv cx r cnt nw (startPhase nw workers w)"
    using assms(1,2) startPhase_inv [of cnt nw workers w] by (simp add: cluster_inv_def startPhase_def)
qed (rule cluster_inv_keep [OF _ assms(3,4)])

section \<open>Properties\<close>

lemma ended_accounts:
  assumes "phase_inv cnt st" "phaseEnded st" "goroutines st \<noteq> []" "errsChan st = []"
  shows "mset (concat (perWorker st)) = mset [0..<cnt]"
proof -
  have f: "\<forall>g \<in> set (goroutines st). g = Finished"
    using assms(1,2,4) by (auto simp: phase_inv_def phaseEnded_def filter_empty_conv)
  then have "Finished \<in> set (goroutines st)" using assms(3) by (cases "goroutines st") auto
  then have c: "int cnt \<le> seqCounter st" using assms(1) unfolding phase_inv_def by blast
  have m: "min (nat (seqCounter st + 1)) cnt = cnt" using c by linarith
  have none: "concat (map heldBy (goroutines st)) = []" "filter broken (goroutines st) = []" using f by (auto simp: filter_empty_conv)
  show ?thesis using assms(1) unfolding phase_inv_def m none by auto
qed

text \<open>C24: a phase always ends, whatever the network, the generator and the scheduler do: no schedule takes more than three
  steps for each request and one for each worker, as long as some worker has not ended there is one that can take a step, and
  every schedule can be continued to the end of the phase.\<close>

theorem phase_terminates:
  assumes "runSchedule (phaseStep net gen cnt) sched (startPhase nw workers w) = Some st"
  shows "length sched \<le> 3 * cnt + length workers
     \<and> (\<not> phaseEnded st \<longrightarrow> (\<exists>i st'. phaseStep net gen cnt i st = Some st'))
     \<and> (\<exists>rest st'. runSchedule (phaseStep net gen cnt) rest st = Some st' \<and> phaseEnded st')"
proof -
  have "sum_list (map goCost (replicate n Top)) = n" for n by (induction n) simp_all
  then have "phaseCost cnt (startPhase nw workers w) = 3 * cnt + length workers" by (simp add: phaseCost_def startPhase_def)
  then have len: "length sched \<le> 3 * cnt + length workers" using phase.schedule_bound [OF assms] by simp
  note inv = phase_reached [OF assms]
  obtain rest st' where r: "runSchedule (phaseStep net gen cnt) rest st = Some st'" "\<forall>i. phaseStep net gen cnt i st' = None"
    using phase.run_to_end by blast
  have "phase_inv cnt st'" by (rule schedule_invariant [where I = "phase_inv cnt", OF r(1) inv]) (rule phase_inv_keep)
  then have "phaseEnded st'" using phase_progress [of cnt st' net gen] r(2) by fastforce
  with len r(1) phase_progress [OF inv] show ?thesis by blast
qed

text \<open>C25: in a phase with at least one worker, for any network, generator and schedule: no sequence number is served twice, each
  worker serves its numbers in ascending order, a phase without an error has served every number exactly once, and with
  errors at least as many numbers are missing as there are errors.\<close>

theorem phase_serves_once:
  assumes "runSchedule (phaseStep net gen cnt) sched (startPhase nw workers w) = Some st" "phaseEnded st" "workers \<noteq> []"
  shows "distinct (concat (perWorker st)) \<and> (\<forall>ss \<in> set (perWorker st). sorted_wrt (<) ss)
     \<and> (case phaseResult st of
          Inr ss \<Rightarrow> mset ss = mset [0..<cnt]
        | Inl e \<Rightarrow> e \<in> set (errsChan st) \<and> length (concat (perWorker st)) + length (errsChan st) \<le> cnt)"
proof -
  note inv = phase_reached [OF assms(1)]
  have n: "length (goroutines st) = length workers"
    by (rule phase_width [OF assms(1)])
  obtain lost where lost: "mset (concat (perWorker st)) + mset (concat (map heldBy (goroutines st))) + lost = mset [0..<min (nat (seqCounter st + 1)) cnt]"
    "size lost = length (filter broken (goroutines st))" using inv unfolding phase_inv_def by blast
  obtain xs where xs: "mset xs = mset (concat (map heldBy (goroutines st))) + lost" using ex_mset by blast
  then have "mset (concat (perWorker st) @ xs) = mset [0..<min (nat (seqCounter st + 1)) cnt]" using lost(1) by (simp add: add.assoc)
  then have "distinct (concat (perWorker st) @ xs)" using mset_eq_imp_distinct_iff distinct_upt by blast
  then have d: "distinct (concat (perWorker st))" unfolding distinct_append by blast
  have "\<forall>i < length (perWorker st). sorted_wrt (<) (perWorker st ! i @ heldBy (goroutines st ! i))" using inv unfolding phase_inv_def by presburger
  then have s: "\<forall>ss \<in> set (perWorker st). sorted_wrt (<) ss" unfolding sorted_wrt_append by (metis in_set_conv_nth)
  have ended: "filter broken (goroutines st) = filter (\<lambda>g. g = Failed) (goroutines st)"
    by (rule filter_cong) (use assms(2) in \<open>auto simp: phaseEnded_def\<close>)
  have "size lost = length (errsChan st)" using inv lost(2) ended unfolding phase_inv_def by simp
  moreover have "size (mset (concat (perWorker st))) + size lost \<le> cnt"
    using arg_cong [OF lost(1), of size] by simp
  ultimately have "length (concat (perWorker st)) + length (errsChan st) \<le> cnt" by simp
  moreover have "errsChan st = [] \<Longrightarrow> mset (concat (perWorker st)) = mset [0..<cnt]"
    using ended_accounts [OF inv assms(2)] n assms(3) by (metis length_0_conv)
  ultimately show ?thesis using d s by (auto simp: phaseResult_def split: list.split)
qed

text \<open>a benchmark phase against a healthy cluster succeeds: if behind every address of the router there is a live server that owns the
  slot, no request of any of the generators is redirected, refused for keys of different slots or left unanswered, in any
  schedule; the phase ends with every sequence number served exactly once, and the cluster and the workers are ready for the next one.\<close>

theorem phase_on_cluster:
  assumes "covers cx r w" "\<forall>i < length workers. worker_ok w i (workers ! i)" "workers \<noteq> []" "length ns \<le> 1024" "CHR ''{'' \<notin> set ns" "nw + cnt < 2 ^ 62"
    and "gen \<in> {getGen (cx_crc cx) r ns ratio, mgetGen (cx_crc cx) r ns ratio, setGen (cx_crc cx) r ns existing,
                msetGen (cx_crc cx) r ns existing, preloadGen (cx_crc cx) r ns groups}"
    and "runSchedule (phaseStep (benchSim cx) gen cnt) sched (startPhase nw workers w) = Some st"
  shows "errsChan st = [] \<and> covers cx r (netState st) \<and> (\<forall>i < length workers. worker_ok (netState st) i (pool st ! i))
     \<and> (phaseEnded st \<longrightarrow> (\<exists>ss. phaseResult st = Inr ss \<and> mset ss = mset [0..<cnt]))"
proof -
  have "good_gen (cx_crc cx) r gen" using gens_good [OF assms(4,5)] assms(7) by auto
  note inv = cluster_reached [OF assms(1,2) this assms(6,8)]
  have n: "length (goroutines st) = length workers"
    by (rule phase_width [OF assms(8)])
  have "Failed \<notin> set (goroutines st)" using inv unfolding cluster_inv_def by force
  then have "filter (\<lambda>g. g = Failed) (goroutines st) = []" by (auto simp: filter_empty_conv)
  then have e: "errsChan st = []" using inv unfolding cluster_inv_def phase_inv_def by simp
  have "\<exists>ss. phaseResult st = Inr ss \<and> mset ss = mset [0..<cnt]" if "phaseEnded st"
  proof -
    have "goroutines st \<noteq> []" using n assms(3) by auto
    then show ?thesis using ended_accounts [OF _ that _ e, of cnt] inv e by (auto simp: cluster_inv_def phaseResult_def)
  qed
  then show ?thesis using inv e n unfolding cluster_inv_def by auto
qed

section \<open>Witnesses\<close>

text \<open>Two workers share three requests on a network that answers everything with OK.\<close>

definition okNet :: "(benchConn, unit) benchNet" where
  "okNet = \<lparr>cn_dial = (\<lambda>c a w. (None, w)), cn_write = (\<lambda>c a w. (None, w)), cn_read = (\<lambda>c w. (Inr (RStr ''OK''), w)), cn_sprint = (\<lambda>v. []),
     cn_deadline = (\<lambda>c w. (None, w))\<rparr>"

definition plainGen :: reqGen where
  "plainGen sq nw = ((''h:1'', [''GET'', ''k'']), nw)"

definition okSchedule :: "nat list" where
  "okSchedule = [0, 1, 1, 0, 0, 1, 1, 1, 0, 1, 1]"

abbreviation okEnd :: "unit phase" where
  "okEnd \<equiv> \<lparr>seqCounter = 4, newSeq = 0, goroutines = [Finished, Finished],
     pool = [\<lparr>conns = [''h:1'' \<mapsto> WorkerConn 0 ''h:1'']\<rparr>, \<lparr>conns = [''h:1'' \<mapsto> WorkerConn 1 ''h:1'']\<rparr>],
     perWorker = [[0], [1, 2]], errsChan = [], netState = ()\<rparr>"

lemma ok_run: "runSchedule (phaseStep okNet plainGen 3) okSchedule (startPhase 0 (newWorkers 2) ()) = Some okEnd"
  by (simp add: okSchedule_def phaseStep_def startPhase_def newWorkers_def plainGen_def workerDo_def dial_def exchange_def okNet_def numeral_2_eq_2 Let_def)

theorem phase_terminates_witness: "length okSchedule \<le> 3 * 3 + length (newWorkers 2)"
  using phase_terminates [OF ok_run] by blast

theorem phase_serves_once_witness: "phaseResult okEnd = Inr [0, 1, 2] \<and> mset [0, 1, 2] = mset [0..<3]"
proof -
  have "phaseEnded okEnd" "newWorkers 2 \<noteq> []" by (simp_all add: phaseEnded_def newWorkers_def)
  from phase_serves_once [OF ok_run this] show ?thesis by (simp add: phaseResult_def)
qed

text \<open>One server owns every slot and the router sends everything there.\<close>

lemma fullWorld_covers: "covers exampleCtx (newStandaloneRouter ''h:7000'') fullWorld"
  using fullServer_ok by (auto simp: covers_def newStandaloneRouter_def fullWorld_def)

theorem phase_on_cluster_witness:
  "\<exists>sched st ss. runSchedule (phaseStep (benchSim exampleCtx) (msetGen (\<lambda>_. 7) (newStandaloneRouter ''h:7000'') ''mset'' False) 3) sched
       (startPhase 0 (newWorkers 2) fullWorld) = Some st \<and> phaseEnded st \<and> phaseResult st = Inr ss \<and> mset ss = mset [0, 1, 2]"
proof -
  let ?r = "newStandaloneRouter ''h:7000''"
  let ?gen = "msetGen (\<lambda>_. 7) ?r ''mset'' False"
  have crc: "cx_crc exampleCtx = (\<lambda>_. 7)" by (simp add: exampleCtx_def)
  obtain sched st where run: "runSchedule (phaseStep (benchSim exampleCtx) ?gen 3) sched (startPhase 0 (newWorkers 2) fullWorld) = Some st" "\<forall>i. phaseStep (benchSim exampleCtx) ?gen 3 i st = None"
    using phase.run_to_end by blast
  have ended: "phaseEnded st" using phase_progress [OF phase_reached [OF run(1)]] run(2) by (metis option.distinct(1))
  have ok: "\<forall>i < length (newWorkers 2). worker_ok fullWorld i (newWorkers 2 ! i)" "newWorkers 2 \<noteq> []" by (simp_all add: newWorkers_def worker_ok_def)
  have "?gen \<in> {getGen (cx_crc exampleCtx) ?r ''mset'' 1, mgetGen (cx_crc exampleCtx) ?r ''mset'' 1, setGen (cx_crc exampleCtx) ?r ''mset'' False,
                msetGen (cx_crc exampleCtx) ?r ''mset'' False, preloadGen (cx_crc exampleCtx) ?r ''mset'' True}" unfolding crc by blast
  from phase_on_cluster [OF fullWorld_covers ok _ _ _ this run(1)] ended
  obtain ss where "phaseResult st = Inr ss" "mset ss = mset [0..<3]" by auto
  moreover have "[0..<3] = [0, 1, 2]" by (simp add: upt_rec)
  ultimately show ?thesis using run(1) ended by auto
qed

end
