(* ===== verification/Bench_Metrics.thy ===== *)
theory Bench_Metrics
  imports Go_Float
begin

text \<open>
  \<^verbatim>\<open>cmd/ember-bench\<close>, from the measured times to the reported numbers. Times are nanoseconds, floats the rational numbers of \<open>Go_Float\<close>. The
  theorem is that in spite of the floating-point arithmetic \<^verbatim>\<open>percentile\<close> picks the nearest rank, so
  that the reported percentiles are measured times and in order. The time of a phase is positive (Go's quotient for zero would be infinite).
\<close>

record runMetric =
  OpsSec :: rat
  P50Ms :: rat
  P95Ms :: rat
  P99Ms :: rat
  MaxMs :: rat

definition percentile :: "rat list \<Rightarrow> rat \<Rightarrow> rat" where
  "percentile sortedMs p =
     (if sortedMs = [] then 0
      else let idx0 = toInt (flAdd (flMul (flDiv p 100) (fl (of_nat (length sortedMs)))) (fl (9999999 / 10000000))) - 1;
               idx1 = (if idx0 < 0 then 0 else idx0);
               idx2 = (if idx1 \<ge> int (length sortedMs) then int (length sortedMs) - 1 else idx1)
           in sortedMs ! nat idx2)"

text \<open>\<^verbatim>\<open>Duration.Seconds\<close>.\<close>

definition Seconds :: "int \<Rightarrow> rat" where
  "Seconds d = flAdd (fl (of_int (d div 1000000000))) (flDiv (fl (of_int (d mod 1000000000))) 1000000000)"

definition inMs :: "int \<Rightarrow> rat" where
  "inMs d = flDiv (fl (of_int d)) 1000000"

text \<open>\<^const>\<open>None\<close> is the panic of \<^verbatim>\<open>ms[len(ms)-1]\<close> on an empty slice.\<close>

definition metricsFromRun :: "int list \<Rightarrow> int \<Rightarrow> runMetric option" where
  "metricsFromRun durs elapsed =
     (let ms = sort (map inMs durs)
      in if ms = [] then None
         else Some \<lparr>OpsSec = flDiv (fl (of_nat (length durs))) (Seconds elapsed), P50Ms = percentile ms 50, P95Ms = percentile ms 95,
                    P99Ms = percentile ms 99, MaxMs = ms ! (length ms - 1)\<rparr>)"

definition median :: "rat list \<Rightarrow> rat option" where
  "median vals = (let s = sort vals in if s = [] then None else Some (s ! (length s div 2)))"

definition medianRun :: "runMetric list \<Rightarrow> runMetric option" where
  "medianRun runs =
     do { o1 \<leftarrow> median (map OpsSec runs); p50 \<leftarrow> median (map P50Ms runs); p95 \<leftarrow> median (map P95Ms runs);
          p99 \<leftarrow> median (map P99Ms runs); m \<leftarrow> median (map MaxMs runs);
          Some \<lparr>OpsSec = o1, P50Ms = p50, P95Ms = p95, P99Ms = p99, MaxMs = m\<rparr> }"

section \<open>A test case\<close>

definition repeats :: nat where "repeats = 5"

datatype 'e caseError = WarmupError 'e | RepeatError nat 'e

text \<open>\<open>exec\<close> is \<^verbatim>\<open>runPhase\<close> on the chosen workers: an error, or the times of the requests and of the phase.\<close>

fun repeatRuns :: "(nat \<Rightarrow> 's \<Rightarrow> ('e + int list \<times> int) \<times> 's) \<Rightarrow> nat \<Rightarrow> nat \<Rightarrow> runMetric list \<Rightarrow> 's \<Rightarrow> (('e caseError + runMetric list) \<times> 's) option" where
  "repeatRuns exec requests 0 runs st = Some (Inr runs, st)"
| "repeatRuns exec requests (Suc todo) runs st =
     (case exec requests st of
        (Inl e, st1) \<Rightarrow> Some (Inl (RepeatError (length runs + 1) e), st1)
      | (Inr (durs, elapsed), st1) \<Rightarrow>
          (case metricsFromRun durs elapsed of
             None \<Rightarrow> None
           | Some m \<Rightarrow> repeatRuns exec requests todo (runs @ [m]) st1))"

definition runTestCase :: "(nat \<Rightarrow> 's \<Rightarrow> ('e + int list \<times> int) \<times> 's) \<Rightarrow> nat \<Rightarrow> nat \<Rightarrow> 's \<Rightarrow> (('e caseError + runMetric \<times> runMetric list) \<times> 's) option" where
  "runTestCase exec requests warmup st =
     (case (if warmup > 0 then exec warmup st else (Inr ([], 0), st)) of
        (Inl e, st1) \<Rightarrow> Some (Inl (WarmupError e), st1)
      | (Inr _, st1) \<Rightarrow>
          (case repeatRuns exec requests repeats [] st1 of
             None \<Rightarrow> None
           | Some (Inl e, st2) \<Rightarrow> Some (Inl e, st2)
           | Some (Inr runs, st2) \<Rightarrow> map_option (\<lambda>m. (Inr (m, runs), st2)) (medianRun runs)))"

section \<open>The nearest rank\<close>

text \<open>The computed position is off by far less than the distance to the next integer.\<close>

lemma position_error:
  assumes "p \<le> 100" "n \<le> 1048576"
  defines "c \<equiv> 9999999 / 10000000 :: rat"
  shows "\<bar>flAdd (flMul (flDiv (of_nat p) 100) (fl (of_nat n))) (fl c) - (of_nat (p * n) / 100 + c)\<bar> \<le> 1 / 100000000"
proof -
  define q :: rat where "q = of_nat p / 100"
  define N :: rat where "N = of_nat n"
  have q: "0 \<le> q" "q \<le> 1" using assms(1) by (simp_all add: q_def)
  have N: "0 \<le> N" "N \<le> 1048576" using assms(2) by (simp_all add: N_def)
  have e1: "\<bar>fl q - q\<bar> \<le> 1 / 9007199254740992" using fl_error [of q 1] q by simp
  have e2: "\<bar>fl N - N\<bar> \<le> 1 / 8589934592" using fl_error [of N 21] N by simp
  have fN: "\<bar>fl N\<bar> \<le> 1048577" using e2 N by linarith
  have "fl q * fl N - q * N = (fl q - q) * fl N + q * (fl N - N)" by (simp add: algebra_simps)
  then have "\<bar>fl q * fl N - q * N\<bar> \<le> \<bar>fl q - q\<bar> * \<bar>fl N\<bar> + \<bar>q\<bar> * \<bar>fl N - N\<bar>" by (metis abs_mult abs_triangle_ineq)
  also have "\<dots> \<le> 1 / 9007199254740992 * 1048577 + 1 * (1 / 8589934592)"
    by (intro add_mono mult_mono) (use e1 e2 fN q in auto)
  finally have e3: "\<bar>fl q * fl N - q * N\<bar> \<le> 1 / 1073741824" by simp
  have qN: "0 \<le> q * N" "q * N \<le> 1048576" using q N mult_mono [of q 1 N 1048576] by simp_all
  define P where "P = fl q * fl N"
  have "\<bar>P - q * N\<bar> \<le> 1" unfolding P_def by (rule order_trans [OF e3]) simp
  then have "\<bar>P\<bar> \<le> 1048577" using qN by linarith
  then have "\<bar>P\<bar> < 2 ^ 21" by (rule order_le_less_trans) simp
  from fl_error [OF this] have e4: "\<bar>fl P - P\<bar> \<le> 1 / 8589934592" by simp
  have e5: "\<bar>fl c - c\<bar> \<le> 1 / 9007199254740992" using fl_error [of c 1] by (simp add: c_def)
  define S where "S = fl P + fl c"
  have S: "\<bar>S - (q * N + c)\<bar> \<le> 1 / 1073741824 + 1 / 8589934592 + 1 / 9007199254740992" using e3 e4 e5 unfolding S_def P_def by linarith
  have "\<bar>S - (q * N + c)\<bar> \<le> 1" by (rule order_trans [OF S]) simp
  moreover have "0 \<le> c" "c \<le> 1" by (simp_all add: c_def)
  ultimately have "\<bar>S\<bar> \<le> 1048578" using qN by linarith
  then have "\<bar>S\<bar> < 2 ^ 21" by (rule order_le_less_trans) simp
  from fl_error [OF this] have e6: "\<bar>fl S - S\<bar> \<le> 1 / 8589934592" by simp
  have "\<bar>fl S - (q * N + c)\<bar> \<le> 1 / 100000000" using S e6 by linarith
  then show ?thesis by (simp add: flAdd_def flMul_def flDiv_def q_def N_def S_def P_def)
qed

lemma percentile_rank:
  assumes "1 \<le> p" "p \<le> 100" "ms \<noteq> []" "length ms \<le> 1048576"
  shows "percentile ms (of_nat p) = ms ! ((p * length ms + 99) div 100 - 1)"
    "(p * length ms + 99) div 100 - 1 < length ms" "1 \<le> (p * length ms + 99) div 100"
proof -
  define n where "n = length ms"
  define k where "k = (p * n + 99) div 100"
  define y where "y = flAdd (flMul (flDiv (of_nat p) 100) (fl (of_nat n))) (fl (9999999 / 10000000))"
  have n: "1 \<le> n" "n \<le> 1048576" using assms(3,4) by (simp_all add: n_def Suc_le_eq)
  have pn: "1 \<le> p * n" "p * n \<le> 100 * n" using assms(1,2) n(1) by simp_all
  have k: "p * n \<le> 100 * k" "100 * k \<le> p * n + 99" unfolding k_def by simp_all
  have "1 \<le> k" "k \<le> n" using k pn by linarith+
  have rk: "(of_nat (p * n) :: rat) \<le> 100 * of_nat k" "100 * of_nat k \<le> (of_nat (p * n) :: rat) + 99" using k of_nat_mono [of _ _, where 'a = rat] by (metis of_nat_mult of_nat_numeral, metis of_nat_add of_nat_mult of_nat_numeral)
  have err: "\<bar>y - (of_nat (p * n) / 100 + 9999999 / 10000000)\<bar> \<le> 1 / 100000000" unfolding y_def by (rule position_error [OF assms(2) n(2)])
  have "of_nat k \<le> y" "y < of_nat k + 1" using err rk by linarith+
  then have "toInt y = int k" using \<open>1 \<le> k\<close> by (simp add: toInt_def) linarith
  then have "percentile ms (of_nat p) = ms ! (k - 1)"
    using assms(3) \<open>1 \<le> k\<close> \<open>k \<le> n\<close> unfolding percentile_def Let_def n_def [symmetric] y_def [symmetric] by (auto simp: nat_diff_distrib n_def)
  then show "percentile ms (of_nat p) = ms ! ((p * length ms + 99) div 100 - 1)" by (simp add: k_def n_def)
  show "(p * length ms + 99) div 100 - 1 < length ms" "1 \<le> (p * length ms + 99) div 100"
    using \<open>1 \<le> k\<close> \<open>k \<le> n\<close> n(1) by (simp_all add: k_def n_def)
qed

lemma sorted_rank:
  assumes "sorted xs" "j < length xs"
  shows "Suc j \<le> length (filter (\<lambda>x. x \<le> xs ! j) xs)" "length (filter (\<lambda>x. x < xs ! j) xs) \<le> j"
proof -
  have "filter (\<lambda>x. x \<le> xs ! j) (take (Suc j) xs) = take (Suc j) xs"
    using assms by (intro filter_True) (auto simp: in_set_conv_nth intro!: sorted_nth_mono)
  then have "length (filter (\<lambda>x. x \<le> xs ! j) (take (Suc j) xs @ drop (Suc j) xs)) = Suc j + length (filter (\<lambda>x. x \<le> xs ! j) (drop (Suc j) xs))"
    using assms(2) unfolding filter_append by simp
  then show "Suc j \<le> length (filter (\<lambda>x. x \<le> xs ! j) xs)" by simp
  have "filter (\<lambda>x. x < xs ! j) (drop j xs) = []"
    using assms by (auto simp: filter_empty_conv in_set_conv_nth not_less intro!: sorted_nth_mono)
  then have "filter (\<lambda>x. x < xs ! j) (take j xs @ drop j xs) = filter (\<lambda>x. x < xs ! j) (take j xs)" unfolding filter_append by simp
  then show "length (filter (\<lambda>x. x < xs ! j) xs) \<le> j" using length_filter_le [of "\<lambda>x. x < xs ! j" "take j xs"] by simp
qed

text \<open>What is meant by the \<open>p\<close>-th percentile: a measured value that at least \<open>p\<close> per cent of the values do not exceed, while less than \<open>p\<close> per
  cent are below it.\<close>

definition nearest_rank :: "nat \<Rightarrow> rat list \<Rightarrow> rat \<Rightarrow> bool" where
  "nearest_rank p vals v \<longleftrightarrow> v \<in> set vals \<and> p * length vals \<le> 100 * length (filter (\<lambda>x. x \<le> v) vals)
     \<and> 100 * length (filter (\<lambda>x. x < v) vals) < p * length vals"

lemma percentile_nearest:
  assumes "1 \<le> p" "p \<le> 100" "vals \<noteq> []" "length vals \<le> 1048576"
  shows "nearest_rank p vals (percentile (sort vals) (of_nat p))"
proof -
  define k where "k = (p * length vals + 99) div 100"
  have ne: "sort vals \<noteq> []" using assms(3) by (metis length_0_conv length_sort)
  note r = percentile_rank [OF assms(1,2) ne, unfolded length_sort, OF assms(4), folded k_def]
  have k: "p * length vals \<le> 100 * k" "100 * k \<le> p * length vals + 99" unfolding k_def by simp_all
  note s = sorted_rank [OF sorted_sort, of "k - 1" vals]
  have "length (filter P (sort vals)) = length (filter P vals)" for P by (simp add: filter_sort)
  note s = s [unfolded this length_sort, OF r(2)]
  have "sort vals ! (k - 1) \<in> set vals" using r(2) nth_mem [of "k - 1" "sort vals"] by simp
  then show ?thesis unfolding nearest_rank_def r(1) using s k r(3) by linarith
qed

lemma percentile_mono:
  assumes "1 \<le> p" "p \<le> q" "q \<le> 100" "vals \<noteq> []" "length vals \<le> 1048576"
  shows "percentile (sort vals) (of_nat p) \<le> percentile (sort vals) (of_nat q)" "percentile (sort vals) (of_nat q) \<le> sort vals ! (length vals - 1)"
proof -
  have ne: "sort vals \<noteq> []" using assms(4) by (metis length_0_conv length_sort)
  have "1 \<le> q" "p \<le> 100" using assms(1-3) by linarith+
  note r = percentile_rank [OF assms(1) \<open>p \<le> 100\<close> ne, unfolded length_sort, OF assms(5)] percentile_rank [OF \<open>1 \<le> q\<close> assms(3) ne, unfolded length_sort, OF assms(5)]
  have "(p * length vals + 99) div 100 \<le> (q * length vals + 99) div 100" by (intro div_le_mono) (use assms(2) in simp)
  then show "percentile (sort vals) (of_nat p) \<le> percentile (sort vals) (of_nat q)"
    unfolding r(1,4) by (intro sorted_nth_mono) (use r(5) in auto)
  show "percentile (sort vals) (of_nat q) \<le> sort vals ! (length vals - 1)" unfolding r(4) by (intro sorted_nth_mono) (use r(5) in auto)
qed

section \<open>Properties\<close>

text \<open>C32: the metrics of a run with at least one and at most 1048576 requests exist, and although they are computed in floating-point
  arithmetic the three percentiles are the exact nearest ranks of the measured times; they are in order and do not exceed the
  maximum, which is a measured time no other exceeds.\<close>

theorem metrics_nearest_rank:
  assumes "durs \<noteq> []" "length durs \<le> 1048576"
  shows "\<exists>m. metricsFromRun durs elapsed = Some m
     \<and> nearest_rank 50 (map inMs durs) (P50Ms m) \<and> nearest_rank 95 (map inMs durs) (P95Ms m) \<and> nearest_rank 99 (map inMs durs) (P99Ms m)
     \<and> P50Ms m \<le> P95Ms m \<and> P95Ms m \<le> P99Ms m \<and> P99Ms m \<le> MaxMs m
     \<and> MaxMs m \<in> inMs ` set durs \<and> (\<forall>d \<in> set durs. inMs d \<le> MaxMs m)"
proof -
  let ?v = "map inMs durs"
  have v: "?v \<noteq> []" "length ?v \<le> 1048576" using assms by simp_all
  have ne: "sort ?v \<noteq> []" using v(1) by (metis length_0_conv length_sort)
  note near = percentile_nearest [OF _ _ v, of 50] percentile_nearest [OF _ _ v, of 95] percentile_nearest [OF _ _ v, of 99]
  note ordered = percentile_mono(1) [OF _ _ _ v, of 50 95] percentile_mono(1) [OF _ _ _ v, of 95 99] percentile_mono(2) [OF _ _ _ v, of 99 99]
  have top: "\<forall>x \<in> set (sort ?v). x \<le> sort ?v ! (length durs - 1)"
  proof
    fix x
    assume "x \<in> set (sort ?v)"
    then obtain j where "j < length (sort ?v)" "x = sort ?v ! j" unfolding in_set_conv_nth by blast
    then show "x \<le> sort ?v ! (length durs - 1)" by (auto intro!: sorted_nth_mono)
  qed
  have "sort ?v ! (length durs - 1) \<in> set (sort ?v)" by (rule nth_mem) (use assms(1) in simp)
  then have mem: "sort ?v ! (length durs - 1) \<in> inMs ` set durs" by simp
  define m where "m = \<lparr>OpsSec = flDiv (fl (of_nat (length durs))) (Seconds elapsed), P50Ms = percentile (sort ?v) 50, P95Ms = percentile (sort ?v) 95,
    P99Ms = percentile (sort ?v) 99, MaxMs = sort ?v ! (length durs - 1)\<rparr>"
  have "metricsFromRun durs elapsed = Some m" using ne by (simp add: metricsFromRun_def m_def Let_def del: sort_key_simps)
  then show ?thesis
    using near ordered top mem by (intro exI [of _ m]) (simp add: m_def)
qed

theorem metrics_nearest_rank_witness:
  "\<exists>m. metricsFromRun [3000000, 1000000, 2000000] 6000000 = Some m \<and> nearest_rank 50 (map inMs [3000000, 1000000, 2000000]) (P50Ms m)
     \<and> P50Ms m \<le> MaxMs m"
  using metrics_nearest_rank [of "[3000000, 1000000, 2000000]" 6000000] by force

end
