(* ===== verification/Bench_Run.thy ===== *)
theory Bench_Run
  imports Bench_Phase Bench_Metrics
begin

text \<open>
  \<^verbatim>\<open>runProduct\<close> of \<^verbatim>\<open>cmd/ember-bench\<close>: topology discovery, the four preloads and the forty test cases, each a warm-up and five measured
  phases on a prefix of the workers. What the runtime decides is an oracle: the scheduler of each phase, and the times the clock shows. A
  phase is run by the machine of \<open>Bench_Phase\<close> for as many steps as a phase can have at most. The list of cases kept for
  the trace downloads is left out.
\<close>

definition maxConcurrency :: nat where "maxConcurrency = 100"
definition concurrencies :: "nat list" where "concurrencies = [1, 10, 50, 100]"

definition getVariants :: "(string \<times> rat) list" where
  "getVariants = [(''100% hit'', 1), (''50% hit / 50% miss'', 1 / 2), (''100% miss'', 0)]"

definition writeVariants :: "(string \<times> bool) list" where
  "writeVariants = [(''existing'', True), (''new'', False)]"

record testResult =
  trProduct :: string
  trCommand :: string
  trVariant :: string
  trConcurrency :: nat
  trMedian :: runMetric
  trRuns :: "runMetric list"

section \<open>A phase as a function\<close>

record 'w bench =
  bWorkers :: "worker list"
  bNet :: 'w
  setNewSeq :: nat
  msetNewSeq :: nat
  bPhases :: nat

record 'w decisions =
  pickOf :: "nat \<Rightarrow> 'w phase \<Rightarrow> nat"
  tookOf :: "nat \<Rightarrow> nat \<Rightarrow> int"
  elapsedOf :: "nat \<Rightarrow> int"

text \<open>The counter a generator was made with.\<close>

datatype counter = NoCounter | SetCounter | MsetCounter

fun counterOf :: "counter \<Rightarrow> 'w bench \<Rightarrow> nat" where
  "counterOf NoCounter b = 0"
| "counterOf SetCounter b = setNewSeq b"
| "counterOf MsetCounter b = msetNewSeq b"

fun storeCounter :: "counter \<Rightarrow> nat \<Rightarrow> 'w bench \<Rightarrow> 'w bench" where
  "storeCounter NoCounter n b = b"
| "storeCounter SetCounter n b = b\<lparr>setNewSeq := n\<rparr>"
| "storeCounter MsetCounter n b = b\<lparr>msetNewSeq := n\<rparr>"

text \<open>The scheduler's choice goes on if it can, otherwise the first goroutine that can.\<close>

fun drive :: "nat \<Rightarrow> ('w phase \<Rightarrow> nat) \<Rightarrow> (nat \<Rightarrow> 'w phase \<Rightarrow> 'w phase option) \<Rightarrow> 'w phase \<Rightarrow> 'w phase" where
  "drive 0 pick stp st = st"
| "drive (Suc n) pick stp st =
     (case stp (pick st) st of
        Some st' \<Rightarrow> drive n pick stp st'
      | None \<Rightarrow>
          (case List.map_filter (\<lambda>i. stp i st) [0..<length (goroutines st)] of
             [] \<Rightarrow> st
           | st' # _ \<Rightarrow> drive n pick stp st'))"

definition runPhase :: "'w decisions \<Rightarrow> (benchConn, 'w) benchNet \<Rightarrow> reqGen \<Rightarrow> counter \<Rightarrow> nat \<Rightarrow> nat \<Rightarrow> 'w bench
    \<Rightarrow> ((string \<times> string list \<times> benchError) + int list \<times> int) \<times> 'w bench" where
  "runPhase dec net gen ctr conc cnt b =
     (let workers = take conc (bWorkers b);
          k = bPhases b;
          st = drive (3 * cnt + length workers) (pickOf dec k) (phaseStep net gen cnt) (startPhase (counterOf ctr b) workers (bNet b));
          b' = (storeCounter ctr (newSeq st) b)\<lparr>bWorkers := pool st @ drop conc (bWorkers b), bNet := netState st, bPhases := k + 1\<rparr>
      in (case phaseResult st of Inl e \<Rightarrow> Inl e | Inr ss \<Rightarrow> Inr (map (tookOf dec k) ss, elapsedOf dec k), b'))"

section \<open>The run\<close>

datatype fatal =
    DiscoverFailed benchError
  | PreloadFailed string "string \<times> string list \<times> benchError"
  | CaseFailed string string nat "(string \<times> string list \<times> benchError) caseError"

fun preloads :: "'w decisions \<Rightarrow> (benchConn, 'w) benchNet \<Rightarrow> crc16 \<Rightarrow> router \<Rightarrow> (string \<times> bool) list \<Rightarrow> 'w bench \<Rightarrow> fatal option \<times> 'w bench" where
  "preloads dec net crc r [] b = (None, b)"
| "preloads dec net crc r ((ns, groups) # rest) b =
     (case runPhase dec net (preloadGen crc r ns groups) NoCounter maxConcurrency (preloadCount groups) b of
        (Inl e, b1) \<Rightarrow> (Some (PreloadFailed ns e), b1)
      | (Inr _, b1) \<Rightarrow> preloads dec net crc r rest b1)"

type_synonym benchCase = "string \<times> string \<times> nat \<times> reqGen \<times> counter"

definition benchCases :: "crc16 \<Rightarrow> router \<Rightarrow> benchCase list" where
  "benchCases crc r =
     concat (map (\<lambda>(v, ratio). map (\<lambda>c. (''GET'', v, c, getGen crc r ''get'' ratio, NoCounter)) concurrencies) getVariants)
     @ concat (map (\<lambda>(v, existing). map (\<lambda>c. (''SET'', v, c, setGen crc r ''set'' existing, SetCounter)) concurrencies) writeVariants)
     @ concat (map (\<lambda>(v, ratio). map (\<lambda>c. (''MGET'', v, c, mgetGen crc r ''mget'' ratio, NoCounter)) concurrencies) getVariants)
     @ concat (map (\<lambda>(v, existing). map (\<lambda>c. (''MSET'', v, c, msetGen crc r ''mset'' existing, MsetCounter)) concurrencies) writeVariants)"

definition runOne :: "'w decisions \<Rightarrow> (benchConn, 'w) benchNet \<Rightarrow> string \<Rightarrow> nat \<Rightarrow> nat \<Rightarrow> benchCase \<Rightarrow> 'w bench \<Rightarrow> ((fatal + testResult) \<times> 'w bench) option" where
  "runOne dec net product requests warmup c b =
     (case c of (cmd, variant, conc, gen, ctr) \<Rightarrow>
        (case runTestCase (runPhase dec net gen ctr conc) requests warmup b of
           None \<Rightarrow> None
         | Some (Inl e, b1) \<Rightarrow> Some (Inl (CaseFailed cmd variant conc e), b1)
         | Some (Inr (med, runs), b1) \<Rightarrow>
             Some (Inr \<lparr>trProduct = product, trCommand = cmd, trVariant = variant, trConcurrency = conc, trMedian = med, trRuns = runs\<rparr>, b1)))"

fun runCases :: "'w decisions \<Rightarrow> (benchConn, 'w) benchNet \<Rightarrow> string \<Rightarrow> nat \<Rightarrow> nat \<Rightarrow> benchCase list \<Rightarrow> testResult list \<Rightarrow> 'w bench
    \<Rightarrow> ((fatal + testResult list) \<times> 'w bench) option" where
  "runCases dec net product requests warmup [] results b = Some (Inr results, b)"
| "runCases dec net product requests warmup (c # cs) results b =
     (case runOne dec net product requests warmup c b of
        None \<Rightarrow> None
      | Some (Inl e, b1) \<Rightarrow> Some (Inl e, b1)
      | Some (Inr t, b1) \<Rightarrow> runCases dec net product requests warmup cs (results @ [t]) b1)"

definition runProduct :: "'w decisions \<Rightarrow> (benchConn, 'w) benchNet \<Rightarrow> crc16 \<Rightarrow> string \<Rightarrow> string list \<Rightarrow> nat \<Rightarrow> nat \<Rightarrow> 'w
    \<Rightarrow> ((fatal + testResult list) \<times> 'w) option" where
  "runProduct dec net crc product addrs requests warmup w =
     (case discoverClusterRouter net addrs w of
        None \<Rightarrow> None
      | Some (Inl e, w1) \<Rightarrow> Some (Inl (DiscoverFailed e), w1)
      | Some (Inr r, w1) \<Rightarrow>
          (case preloads dec net crc r [(''get'', False), (''mget'', True), (''set'', False), (''mset'', True)]
                  \<lparr>bWorkers = newWorkers maxConcurrency, bNet = w1, setNewSeq = 0, msetNewSeq = 0, bPhases = 0\<rparr> of
             (Some e, b) \<Rightarrow> Some (Inl e, bNet b)
           | (None, b) \<Rightarrow> map_option (\<lambda>(res, b). (res, bNet b)) (runCases dec net product requests warmup (benchCases crc r) [] b)))"

section \<open>A phase run by the scheduler ends\<close>

lemma drive_schedule: "\<exists>sched. runSchedule stp sched st = Some (drive n pick stp st) \<and> (length sched = n \<or> (\<forall>i < length (goroutines (drive n pick stp st)). stp i (drive n pick stp st) = None))"
proof (induction n arbitrary: st)
  case 0
  show ?case by (intro exI [of _ "[]"]) simp
next
  case (Suc n)
  have step: ?case if "stp i st = Some st'" "drive (Suc n) pick stp st = drive n pick stp st'" for i st'
    using Suc [of st'] that by (metis length_Cons runSchedule.simps(2) bind.bind_lunit)
  show ?case
  proof (cases "stp (pick st) st")
    case (Some st')
    then show ?thesis using step by simp
  next
    case None
    show ?thesis
    proof (cases "List.map_filter (\<lambda>i. stp i st) [0..<length (goroutines st)]")
      case Nil
      then have "\<forall>i < length (goroutines st). stp i st = None" by (auto simp: List.map_filter_def filter_empty_conv)
      then show ?thesis using None Nil by (intro exI [of _ "[]"]) simp
    next
      case (Cons st' rest)
      then have "st' \<in> set (List.map_filter (\<lambda>i. stp i st) [0..<length (goroutines st)])" by simp
      then obtain i where "stp i st = Some st'" by (auto simp: List.map_filter_def)
      then show ?thesis using step None Cons by simp
    qed
  qed
qed

lemma drive_ends:
  assumes "st = drive (3 * cnt + length workers) pick (phaseStep net gen cnt) (startPhase nw workers w)"
  shows "phaseEnded st" "\<exists>sched. runSchedule (phaseStep net gen cnt) sched (startPhase nw workers w) = Some st"
proof -
  obtain sched where s: "runSchedule (phaseStep net gen cnt) sched (startPhase nw workers w) = Some st"
    "length sched = 3 * cnt + length workers \<or> (\<forall>i < length (goroutines st). phaseStep net gen cnt i st = None)"
    using drive_schedule [of "phaseStep net gen cnt" "startPhase nw workers w" "3 * cnt + length workers" pick] assms by blast
  have "sum_list (map goCost (replicate n Top)) = n" for n by (induction n) simp_all
  then have "phaseCost cnt (startPhase nw workers w) = 3 * cnt + length workers" by (simp add: phaseCost_def startPhase_def)
  then have c: "length sched + phaseCost cnt st \<le> 3 * cnt + length workers" using phase.schedule_bound [OF s(1)] by simp
  show "phaseEnded st"
  proof (rule ccontr)
    assume "\<not> phaseEnded st"
    then obtain i st' where i: "phaseStep net gen cnt i st = Some st'" using phase_progress [OF phase_reached [OF s(1)]] by blast
    then have "i < length (goroutines st)" by (cases rule: phaseStep_cases) simp_all
    moreover have "0 < phaseCost cnt st" using phase.cheaper [OF i] by simp
    ultimately show False using s(2) c i by auto
  qed
  show "\<exists>sched. runSchedule (phaseStep net gen cnt) sched (startPhase nw workers w) = Some st" using s(1) by blast
qed

section \<open>On a healthy cluster\<close>

text \<open>A phase leaves the connections of the workers it does not use alone.\<close>

lemma others_step:
  assumes "cluster_inv cx r cnt nw st" "phaseStep (benchSim cx) gen cnt i st = Some st'" "length (goroutines st) \<le> j" "worker_ok (netState st) j wk"
  shows "worker_ok (netState st') j wk"
  using assms(2)
proof (cases rule: phaseStep_cases)
  case (serve s addr args wk' w)
  have "healthy (cx_crc cx) r cnt (goroutines st ! i)" using assms(1) nth_mem [OF serve(1)] by (simp add: cluster_inv_def)
  then have fit: "fits (cx_crc cx) r addr args" by (simp add: serve(2))
  have "covers cx r (netState st)" "worker_ok (netState st) i (pool st ! i)" using assms(1) serve(1) by (auto simp: cluster_inv_def)
  from workerDo_sim [OF this(1) fit this(2)] serve(1,3,4) assms(3,4) show ?thesis by auto
next
  case (fail s addr args e wk' w)
  have "healthy (cx_crc cx) r cnt (goroutines st ! i)" using assms(1) nth_mem [OF fail(1)] by (simp add: cluster_inv_def)
  then have fit: "fits (cx_crc cx) r addr args" by (simp add: fail(2))
  have "covers cx r (netState st)" "worker_ok (netState st) i (pool st ! i)" using assms(1) fail(1) by (auto simp: cluster_inv_def)
  from workerDo_sim [OF this(1) fit this(2)] fail(3) show ?thesis by auto
qed (use assms(4) in simp_all)

lemma others_kept:
  assumes "covers cx r w" "\<forall>i < length workers. worker_ok w i (workers ! i)" "good_gen (cx_crc cx) r gen" "nw + cnt < 2 ^ 62"
    and "runSchedule (phaseStep (benchSim cx) gen cnt) sched (startPhase nw workers w) = Some st" "length workers \<le> j" "worker_ok w j wk"
  shows "worker_ok (netState st) j wk"
proof -
  let ?I = "\<lambda>st. cluster_inv cx r cnt nw st \<and> length (goroutines st) = length workers \<and> worker_ok (netState st) j wk"
  have "?I st"
  proof (rule schedule_invariant [where I = ?I, OF assms(5)])
    show "?I (startPhase nw workers w)"
      using assms(1,2,7) startPhase_inv [of cnt nw workers w] by (simp add: cluster_inv_def startPhase_def)
  next
    fix i st st'
    assume I: "?I st" and s: "phaseStep (benchSim cx) gen cnt i st = Some st'"
    have "length (goroutines st') = length (goroutines st)" using s by (cases rule: phaseStep_cases) simp_all
    then show "?I st'" using I cluster_inv_keep [OF _ assms(3,4) s] others_step [OF _ s] assms(6) by auto
  qed
  then show ?thesis by blast
qed

definition bench_ok :: "ctx \<Rightarrow> router \<Rightarrow> benchConn world bench \<Rightarrow> bool" where
  "bench_ok cx r b \<longleftrightarrow> covers cx r (bNet b) \<and> length (bWorkers b) = maxConcurrency
     \<and> (\<forall>i < maxConcurrency. worker_ok (bNet b) i (bWorkers b ! i))"

lemma healthy_phase:
  assumes "bench_ok cx r b" "good_gen (cx_crc cx) r gen" "counterOf ctr b + cnt < 2 ^ 62" "0 < conc" "conc \<le> maxConcurrency"
  shows "\<exists>ds el b'. runPhase dec (benchSim cx) gen ctr conc cnt b = (Inr (ds, el), b') \<and> length ds = cnt \<and> bench_ok cx r b'
     \<and> setNewSeq b' \<le> setNewSeq b + cnt \<and> msetNewSeq b' \<le> msetNewSeq b + cnt"
proof -
  let ?ws = "take conc (bWorkers b)" and ?nw = "counterOf ctr b"
  have ok: "covers cx r (bNet b)" "length (bWorkers b) = maxConcurrency" "\<And>i. i < maxConcurrency \<Longrightarrow> worker_ok (bNet b) i (bWorkers b ! i)"
    using assms(1) by (auto simp: bench_ok_def)
  have ws: "length ?ws = conc" "\<forall>i < length ?ws. worker_ok (bNet b) i (?ws ! i)" using ok(2,3) assms(5) by auto
  define st where "st = drive (3 * cnt + length ?ws) (pickOf dec (bPhases b)) (phaseStep (benchSim cx) gen cnt) (startPhase ?nw ?ws (bNet b))"
  obtain sched where sched: "runSchedule (phaseStep (benchSim cx) gen cnt) sched (startPhase ?nw ?ws (bNet b)) = Some st"
    using drive_ends(2) [OF st_def] by blast
  note inv = cluster_reached [OF ok(1) ws(2) assms(2,3) sched]
  have width: "length (goroutines st) = conc" using phase_width [OF sched] ws(1) by simp
  have pool: "length (pool st) = conc" using inv width by (simp add: cluster_inv_def phase_inv_def)
  have "Failed \<notin> set (goroutines st)" using inv unfolding cluster_inv_def by force
  then have "filter (\<lambda>g. g = Failed) (goroutines st) = []" by (auto simp: filter_empty_conv)
  then have e: "errsChan st = []" using inv unfolding cluster_inv_def phase_inv_def by simp
  have ne: "goroutines st \<noteq> []" using width assms(4) by auto
  have "mset (concat (perWorker st)) = mset [0..<cnt]"
    using ended_accounts [OF _ drive_ends(1) [OF st_def] ne e] inv by (simp add: cluster_inv_def)
  then have len: "length (concat (perWorker st)) = cnt" by (metis length_upt minus_nat.diff_0 size_mset)
  have seq: "newSeq st \<le> ?nw + cnt" using inv unfolding cluster_inv_def by linarith
  define b' where "b' = (storeCounter ctr (newSeq st) b)\<lparr>bWorkers := pool st @ drop conc (bWorkers b), bNet := netState st, bPhases := bPhases b + 1\<rparr>"
  have run: "runPhase dec (benchSim cx) gen ctr conc cnt b
      = (Inr (map (tookOf dec (bPhases b)) (concat (perWorker st)), elapsedOf dec (bPhases b)), b')"
    unfolding runPhase_def Let_def st_def [symmetric] b'_def by (simp add: e phaseResult_def)
  have wk: "worker_ok (netState st) i ((pool st @ drop conc (bWorkers b)) ! i)" if "i < maxConcurrency" for i
  proof (cases "i < conc")
    case True
    then show ?thesis using inv width pool by (auto simp: cluster_inv_def nth_append)
  next
    case False
    then have "worker_ok (netState st) i (bWorkers b ! i)"
      using others_kept [OF ok(1) ws(2) assms(2,3) sched] ws(1) ok(3) [OF that] by auto
    then show ?thesis using False pool ok(2) that by (simp add: nth_append)
  qed
  have "bench_ok cx r b'" using wk inv pool ok(2) assms(5) by (auto simp: bench_ok_def b'_def cluster_inv_def)
  moreover have "setNewSeq b' \<le> setNewSeq b + cnt" "msetNewSeq b' \<le> msetNewSeq b + cnt"
    using seq by (cases ctr; simp add: b'_def)+
  ultimately show ?thesis using run len by (metis length_map)
qed

definition seqs :: "nat \<Rightarrow> 'w bench \<Rightarrow> bool" where
  "seqs n b \<longleftrightarrow> setNewSeq b \<le> n \<and> msetNewSeq b \<le> n"

lemma seqs_counter: "seqs n b \<Longrightarrow> counterOf ctr b \<le> n"
  by (cases ctr) (simp_all add: seqs_def)

lemma healthy_phase_seqs:
  assumes "bench_ok cx r b" "good_gen (cx_crc cx) r gen" "seqs n b" "n + cnt < 2 ^ 62" "0 < conc" "conc \<le> maxConcurrency"
  shows "\<exists>ds el b'. runPhase dec (benchSim cx) gen ctr conc cnt b = (Inr (ds, el), b') \<and> length ds = cnt \<and> bench_ok cx r b' \<and> seqs (n + cnt) b'"
proof -
  have "counterOf ctr b + cnt < 2 ^ 62" using seqs_counter [OF assms(3), of ctr] assms(4) by linarith
  from healthy_phase [OF assms(1,2) this assms(5,6), of dec] assms(3) show ?thesis unfolding seqs_def by fastforce
qed

lemma medians_exist: "xs \<noteq> [] \<Longrightarrow> \<exists>m. median xs = Some m" "runs \<noteq> [] \<Longrightarrow> \<exists>m. medianRun runs = Some m"
proof -
  show m: "\<exists>m. median xs = Some m" if "xs \<noteq> []" for xs :: "rat list"
  proof -
    have "sort xs \<noteq> []" using that by (metis length_0_conv length_sort)
    then show ?thesis by (simp add: median_def Let_def)
  qed
  show "\<exists>m. medianRun runs = Some m" if "runs \<noteq> []"
    using that m [of "map OpsSec runs"] m [of "map P50Ms runs"] m [of "map P95Ms runs"] m [of "map P99Ms runs"] m [of "map MaxMs runs"]
    by (auto simp: medianRun_def)
qed

lemma metrics_exist: "durs \<noteq> [] \<Longrightarrow> \<exists>m. metricsFromRun durs elapsed = Some m"
proof -
  assume "durs \<noteq> []"
  then have "sort (map inMs durs) \<noteq> []" by (metis length_0_conv length_sort list.map_disc_iff)
  then show ?thesis by (simp add: metricsFromRun_def Let_def del: sort_key_simps)
qed

lemma repeats_ok:
  assumes "bench_ok cx r b" "good_gen (cx_crc cx) r gen" "seqs n b" "n + todo * requests < 2 ^ 62" "0 < conc" "conc \<le> maxConcurrency" "0 < requests"
  shows "\<exists>runs' b'. repeatRuns (runPhase dec (benchSim cx) gen ctr conc) requests todo runs b = Some (Inr runs', b')
     \<and> length runs' = length runs + todo \<and> bench_ok cx r b' \<and> seqs (n + todo * requests) b'"
  using assms(1,3,4)
proof (induction todo arbitrary: b n runs)
  case (Suc todo)
  have "n + requests < 2 ^ 62" using Suc.prems(3) by simp
  then obtain ds el b1 where p: "runPhase dec (benchSim cx) gen ctr conc requests b = (Inr (ds, el), b1)" "length ds = requests"
    "bench_ok cx r b1" "seqs (n + requests) b1"
    using healthy_phase_seqs [OF Suc.prems(1) assms(2) Suc.prems(2) _ assms(5,6)] by blast
  have "ds \<noteq> []" using p(2) assms(7) by auto
  then obtain m where m: "metricsFromRun ds el = Some m" using metrics_exist by blast
  have "n + requests + todo * requests < 2 ^ 62" using Suc.prems(3) by (simp add: algebra_simps)
  from Suc.IH [OF p(3,4) this, of "runs @ [m]"] show ?case using p(1) m by (auto simp: algebra_simps)
qed simp

lemma test_case_ok:
  assumes "bench_ok cx r b" "good_gen (cx_crc cx) r gen" "seqs n b" "n + (warmup + repeats * requests) < 2 ^ 62" "0 < conc" "conc \<le> maxConcurrency" "0 < requests"
  shows "\<exists>m runs b'. runTestCase (runPhase dec (benchSim cx) gen ctr conc) requests warmup b = Some (Inr (m, runs), b')
     \<and> length runs = repeats \<and> bench_ok cx r b' \<and> seqs (n + (warmup + repeats * requests)) b'"
proof -
  obtain x b1 where w: "(if warmup > 0 then runPhase dec (benchSim cx) gen ctr conc warmup b else (Inr ([], 0), b)) = (Inr x, b1)"
    "bench_ok cx r b1" "seqs (n + warmup) b1"
  proof (cases "warmup > 0")
    case True
    have "n + warmup < 2 ^ 62" using assms(4) by simp
    from healthy_phase_seqs [OF assms(1,2,3) this assms(5,6)] True that show thesis by (metis (no_types, lifting))
  next
    case False
    then show thesis using that assms(1,3) by simp
  qed
  have "n + warmup + repeats * requests < 2 ^ 62" using assms(4) by simp
  from repeats_ok [OF w(2) assms(2) w(3) this assms(5,6,7), of dec ctr "[]"]
  obtain runs b2 where r: "repeatRuns (runPhase dec (benchSim cx) gen ctr conc) requests repeats [] b1 = Some (Inr runs, b2)"
    "length runs = repeats" "bench_ok cx r b2" "seqs (n + warmup + repeats * requests) b2" by auto
  have "runs \<noteq> []" using r(2) by (auto simp: repeats_def)
  then obtain m where "medianRun runs = Some m" using medians_exist(2) by blast
  then show ?thesis using w(1) r by (simp add: runTestCase_def add.assoc)
qed

definition good_case :: "ctx \<Rightarrow> router \<Rightarrow> benchCase \<Rightarrow> bool" where
  "good_case cx r c \<longleftrightarrow> (case c of (cmd, variant, conc, gen, ctr) \<Rightarrow> good_gen (cx_crc cx) r gen \<and> 0 < conc \<and> conc \<le> maxConcurrency)"

definition labelOf :: "benchCase \<Rightarrow> string \<times> string \<times> nat" where
  "labelOf c = (case c of (cmd, variant, conc, gen, ctr) \<Rightarrow> (cmd, variant, conc))"

lemma cases_ok:
  assumes "bench_ok cx r b" "\<forall>c \<in> set cs. good_case cx r c" "seqs n b" "n + length cs * (warmup + repeats * requests) < 2 ^ 62" "0 < requests"
  shows "\<exists>ts b'. runCases dec (benchSim cx) product requests warmup cs results b = Some (Inr (results @ ts), b') \<and> bench_ok cx r b'
     \<and> map (\<lambda>t. (trCommand t, trVariant t, trConcurrency t)) ts = map labelOf cs \<and> (\<forall>t \<in> set ts. length (trRuns t) = repeats \<and> trProduct t = product)"
  using assms(1-4)
proof (induction cs arbitrary: b n results)
  case (Cons c cs)
  obtain cmd variant conc gen ctr where c: "c = (cmd, variant, conc, gen, ctr)" by (metis prod_cases5)
  have g: "good_gen (cx_crc cx) r gen" "0 < conc" "conc \<le> maxConcurrency" using Cons.prems(2) by (auto simp: c good_case_def)
  have "n + (warmup + repeats * requests) < 2 ^ 62" using Cons.prems(4) by simp
  from test_case_ok [OF Cons.prems(1) g(1) Cons.prems(3) this g(2,3) assms(5), of dec ctr]
  obtain m runs b1 where t: "runTestCase (runPhase dec (benchSim cx) gen ctr conc) requests warmup b = Some (Inr (m, runs), b1)"
    "length runs = repeats" "bench_ok cx r b1" "seqs (n + (warmup + repeats * requests)) b1" by blast
  have "n + (warmup + repeats * requests) + length cs * (warmup + repeats * requests) < 2 ^ 62" using Cons.prems(4) by (simp add: algebra_simps)
  note few = this
  define t0 where "t0 = \<lparr>trProduct = product, trCommand = cmd, trVariant = variant, trConcurrency = conc, trMedian = m, trRuns = runs\<rparr>"
  have one: "runOne dec (benchSim cx) product requests warmup c b = Some (Inr t0, b1)" using t(1) by (simp add: runOne_def c t0_def)
  have rest: "\<forall>c \<in> set cs. good_case cx r c" using Cons.prems(2) by simp
  obtain ts b2 where ts: "runCases dec (benchSim cx) product requests warmup cs (results @ [t0]) b1 = Some (Inr ((results @ [t0]) @ ts), b2)"
    "bench_ok cx r b2" "map (\<lambda>t. (trCommand t, trVariant t, trConcurrency t)) ts = map labelOf cs"
    "\<forall>t \<in> set ts. length (trRuns t) = repeats \<and> trProduct t = product"
    using Cons.IH [OF t(3) rest t(4) few, of "results @ [t0]"] by blast
  have "runCases dec (benchSim cx) product requests warmup (c # cs) results b = Some (Inr (results @ t0 # ts), b2)"
    using one ts(1) by simp
  moreover have "map (\<lambda>t. (trCommand t, trVariant t, trConcurrency t)) (t0 # ts) = map labelOf (c # cs)"
    using ts(3) by (simp add: t0_def c labelOf_def)
  moreover have "\<forall>t \<in> set (t0 # ts). length (trRuns t) = repeats \<and> trProduct t = product" using ts(4) t(2) by (simp add: t0_def)
  ultimately show ?case using ts(2) by blast
qed simp

lemma benchCases_good: "\<forall>c \<in> set (benchCases (cx_crc cx) r). good_case cx r c" "length (benchCases crc r) = 40"
proof -
  note g = gens_good [of "''get''"] gens_good [of "''set''"] gens_good [of "''mget''"] gens_good [of "''mset''"]
  show "\<forall>c \<in> set (benchCases (cx_crc cx) r). good_case cx r c"
    by (auto simp: benchCases_def concurrencies_def getVariants_def writeVariants_def good_case_def maxConcurrency_def g)
qed (simp add: benchCases_def concurrencies_def getVariants_def writeVariants_def)

lemma preloads_ok:
  assumes "bench_ok cx r b" "\<forall>(ns, groups) \<in> set ps. length ns \<le> 1024 \<and> CHR ''{'' \<notin> set ns" "seqs n b" "n + length ps * hitRangeSize < 2 ^ 62"
  shows "\<exists>b'. preloads dec (benchSim cx) (cx_crc cx) r ps b = (None, b') \<and> bench_ok cx r b' \<and> seqs (n + length ps * hitRangeSize) b'"
  using assms
proof (induction ps arbitrary: b n)
  case (Cons p ps)
  obtain ns groups where p: "p = (ns, groups)" by force
  have cnt: "preloadCount groups \<le> hitRangeSize" by (simp add: preloadCount_def hitGroupCount_def hitRangeSize_def keysPerGroup_def)
  have g: "good_gen (cx_crc cx) r (preloadGen (cx_crc cx) r ns groups)" using gens_good(5) Cons.prems(2) by (auto simp: p)
  have "n + preloadCount groups < 2 ^ 62" using Cons.prems(4) cnt by simp
  from healthy_phase_seqs [OF Cons.prems(1) g Cons.prems(3) this, of maxConcurrency dec NoCounter]
  obtain ds el b1 where b1: "runPhase dec (benchSim cx) (preloadGen (cx_crc cx) r ns groups) NoCounter maxConcurrency (preloadCount groups) b = (Inr (ds, el), b1)"
    "bench_ok cx r b1" "seqs (n + preloadCount groups) b1" by (auto simp: maxConcurrency_def)
  have "seqs (n + hitRangeSize) b1" using b1(3) cnt by (auto simp: seqs_def)
  moreover have "n + hitRangeSize + length ps * hitRangeSize < 2 ^ 62" using Cons.prems(4) by (simp add: algebra_simps)
  ultimately obtain b2 where "preloads dec (benchSim cx) (cx_crc cx) r ps b1 = (None, b2)" "bench_ok cx r b2"
    "seqs (n + hitRangeSize + length ps * hitRangeSize) b2" using Cons.IH [OF b1(2)] Cons.prems(2) by auto
  then show ?case using b1(1) by (simp add: p algebra_simps)
qed simp

section \<open>Property\<close>

text \<open>C22: a benchmark of a healthy cluster runs to its end: if some seed answers, after any number that refuse, and behind every address its view of
  the cluster names there is a live server that owns the slot, then for every scheduler and every clock the discovery, the preloads and the
  forty test cases succeed, there is one result with five measured runs for each command, variant and concurrency, in that order, and
  every slot is still served afterwards.\<close>

theorem benchmark_completes:
  assumes "\<forall>d \<in> set dead. srv w d = None" "srv w seed = Some sv" "sv_inv cx True sv" "svCluster sv = Some s"
    and "\<forall>slot < 16384. \<exists>sv'. srv w (ownerAddr cx s slot) = Some sv' \<and> sv_inv cx True sv' \<and> slot \<in> ownSlots sv'"
    and "0 < requests" "requests < 2 ^ 50" "warmup < 2 ^ 50"
  shows "\<exists>results w'. runProduct dec (benchSim cx) (cx_crc cx) product (dead @ seed # seeds) requests warmup w = Some (Inr results, w')
     \<and> map (\<lambda>t. (trCommand t, trVariant t, trConcurrency t)) results
         = [(''GET'', v, n). v \<leftarrow> map fst getVariants, n \<leftarrow> concurrencies] @ [(''SET'', v, n). v \<leftarrow> map fst writeVariants, n \<leftarrow> concurrencies]
           @ [(''MGET'', v, n). v \<leftarrow> map fst getVariants, n \<leftarrow> concurrencies] @ [(''MSET'', v, n). v \<leftarrow> map fst writeVariants, n \<leftarrow> concurrencies]
     \<and> (\<forall>t \<in> set results. trProduct t = product \<and> length (trRuns t) = 5)
     \<and> (\<forall>slot < 16384. \<exists>sv'. srv w' (ownerAddr cx s slot) = Some sv' \<and> sv_inv cx True sv' \<and> slot \<in> ownSlots sv')"
proof -
  let ?w = "dialled (SeedConn seed) seed w"
  obtain r where r: "discoverSlots (benchSim cx) seed w = Some (Inr r, ?w)" "\<forall>slot < 16384. slotAddr r ! slot = ownerAddr cx s slot"
    using discoverSlots_sim [OF assms(2-4)] by blast
  have disc: "discoverClusterRouter (benchSim cx) (dead @ seed # seeds) w = Some (Inr r, ?w)"
    using discover_dead [OF assms(1), of cx "dead @ seed # seeds" "seed # seeds" None] r(1) by (auto simp: discoverClusterRouter_def)
  define b0 where "b0 = \<lparr>bWorkers = newWorkers maxConcurrency, bNet = ?w, setNewSeq = 0, msetNewSeq = 0, bPhases = 0\<rparr>"
  have b0: "bench_ok cx r b0" "seqs 0 b0"
    using assms(5) r(2) by (auto simp: bench_ok_def b0_def covers_def seqs_def newWorkers_def worker_ok_def)
  let ?ps = "[(''get'', False), (''mget'', True), (''set'', False), (''mset'', True)]"
  obtain b1 where b1: "preloads dec (benchSim cx) (cx_crc cx) r ?ps b0 = (None, b1)" "bench_ok cx r b1" "seqs (0 + length ?ps * hitRangeSize) b1"
    using preloads_ok [OF b0(1) _ b0(2), of ?ps dec] by (auto simp: hitRangeSize_def)
  have "0 + length ?ps * hitRangeSize + length (benchCases (cx_crc cx) r) * (warmup + repeats * requests) < 2 ^ 62"
    using assms(7,8) by (simp add: benchCases_good(2) hitRangeSize_def repeats_def)
  from cases_ok [OF b1(2) benchCases_good(1) b1(3) this assms(6), of dec product "[]"] obtain ts b2 where
    ts: "runCases dec (benchSim cx) product requests warmup (benchCases (cx_crc cx) r) [] b1 = Some (Inr ts, b2)" "bench_ok cx r b2"
    "map (\<lambda>t. (trCommand t, trVariant t, trConcurrency t)) ts = map labelOf (benchCases (cx_crc cx) r)"
    "\<forall>t \<in> set ts. length (trRuns t) = repeats \<and> trProduct t = product" by auto
  have "runProduct dec (benchSim cx) (cx_crc cx) product (dead @ seed # seeds) requests warmup w = Some (Inr ts, bNet b2)"
    using disc b1(1) ts(1) by (simp add: runProduct_def b0_def)
  moreover have "\<forall>slot < 16384. \<exists>sv'. srv (bNet b2) (ownerAddr cx s slot) = Some sv' \<and> sv_inv cx True sv' \<and> slot \<in> ownSlots sv'"
    using ts(2) r(2) by (auto simp: bench_ok_def covers_def)
  ultimately show ?thesis
    using ts(3,4) by (auto simp: benchCases_def labelOf_def repeats_def getVariants_def writeVariants_def concurrencies_def)
qed

section \<open>Witness\<close>

theorem benchmark_completes_witness:
  "\<exists>results w'. runProduct \<lparr>pickOf = (\<lambda>k st. k), tookOf = (\<lambda>k n. 1000), elapsedOf = (\<lambda>k. 5000)\<rparr> (benchSim exampleCtx) (\<lambda>_. 7) ''EmberDB''
       [''x:1'', ''h:7000''] 3 2 fullWorld = Some (Inr results, w') \<and> trVariant (results ! 0) = ''100% hit''"
proof -
  obtain s where s: "svCluster fullServer = Some s" "Host (store s (self_ref s)) = ''h''" "ClientPort (store s (self_ref s)) = 7000"
    using fullServer_ok(3) by blast
  have wf: "cs_wf s" "is_iteration (cx_nodes exampleCtx)" using sv_invD(1) [OF fullServer_ok(1)] s(1) by (auto simp: srv_ok_def)
  have own: "ownerAddr exampleCtx s slot = ''h:7000''" if slot: "slot < 16384" for slot
  proof -
    have "self_ref s \<in> owners s slot" using fullServer_ok(2) s(1) slot by (auto simp: ownSlots_def owners_def)
    from GetSlotOwner_facts(3) [OF wf slot this] show ?thesis using full_addr by (simp add: ownerAddr_def s(2,3))
  qed
  have w: "\<forall>d \<in> set [''x:1'']. srv fullWorld d = None" "srv fullWorld ''h:7000'' = Some fullServer" by (simp_all add: fullWorld_def)
  have all: "\<forall>slot < 16384. \<exists>sv'. srv fullWorld (ownerAddr exampleCtx s slot) = Some sv' \<and> sv_inv exampleCtx True sv' \<and> slot \<in> ownSlots sv'"
    using fullServer_ok(1,2) w(2) own by auto
  have crc: "cx_crc exampleCtx = (\<lambda>_. 7)" by (simp add: exampleCtx_def)
  have n: "0 < (3 :: nat)" "(3 :: nat) < 2 ^ 50" "(2 :: nat) < 2 ^ 50" by simp_all
  let ?dec = "\<lparr>pickOf = (\<lambda>k st. k), tookOf = (\<lambda>k n. 1000), elapsedOf = (\<lambda>k. 5000)\<rparr>"
  obtain results w' where run: "runProduct ?dec (benchSim exampleCtx) (\<lambda>_. 7) ''EmberDB'' ([''x:1''] @ ''h:7000'' # []) 3 2 fullWorld = Some (Inr results, w')"
    "map (\<lambda>t. (trCommand t, trVariant t, trConcurrency t)) results
         = [(''GET'', v, n). v \<leftarrow> map fst getVariants, n \<leftarrow> concurrencies] @ [(''SET'', v, n). v \<leftarrow> map fst writeVariants, n \<leftarrow> concurrencies]
           @ [(''MGET'', v, n). v \<leftarrow> map fst getVariants, n \<leftarrow> concurrencies] @ [(''MSET'', v, n). v \<leftarrow> map fst writeVariants, n \<leftarrow> concurrencies]"
    using benchmark_completes [OF w fullServer_ok(1) s(1) all n, of ?dec "''EmberDB''" "[]", unfolded crc] by blast
  then have "map (\<lambda>t. (trCommand t, trVariant t, trConcurrency t)) results ! 0 = (''GET'', ''100% hit'', 1)" "results \<noteq> []"
    by (auto simp: getVariants_def concurrencies_def)
  then have "trVariant (results ! 0) = ''100% hit''" by simp
  then show ?thesis using run(1) by auto
qed

end
