(* ===== verification/Cluster_Frames.thy ===== *)
theory Cluster_Frames
  imports Server_Dispatch
begin

text \<open>
  What travels over the links of the cluster bus, in small steps: one turn of \<^verbatim>\<open>clusterReadLoop\<close>, the writer goroutine
  \<^verbatim>\<open>clusterWriteLoop\<close> with the calls of \<^verbatim>\<open>conn.Write\<close> inside \<^verbatim>\<open>writeFull\<close>, and the invariant of the links: our outbound
  links are links of ours, and whatever waits in a channel is a whole frame that the decoder of the peer accepts.
\<close>

section \<open>Byte streams of frames\<close>

definition frame :: "string \<Rightarrow> bool" where
  "frame b = (case deserializeClusterMsg b of Inl _ \<Rightarrow> False | Inr _ \<Rightarrow> True)"

definition frameLen :: "string \<Rightarrow> nat" where
  "frameLen x = unat (Uint32 (sub x 4 4))"

text \<open>The beginning of a stream of frames, cut off anywhere.\<close>

function stream_ok :: "string \<Rightarrow> bool" where
  "stream_ok x =
     (if length x < 8 then True
      else if take 4 x \<noteq> ''RCmb'' \<or> frameLen x < 2106 \<or> \<not> 54 dvd (frameLen x - 2106) then False
      else if length x < frameLen x then True
      else stream_ok (drop (frameLen x) x))"
  by pat_completeness auto
termination by (relation "measure length") auto

declare stream_ok.simps [simp del]

definition whole :: "string \<Rightarrow> bool" where
  "whole x \<longleftrightarrow> (\<exists>bufs. (\<forall>b \<in> set bufs. frame b) \<and> x = concat bufs)"

lemma frame_iff:
  "frame b \<longleftrightarrow> 2106 \<le> length b \<and> take 4 b = ''RCmb'' \<and> frameLen b = length b \<and> 54 dvd (length b - 2106)"
  by (auto simp: frame_def deserializeClusterMsg_def Let_def sizes frameLen_def sub_def mod_eq_0_iff_dvd split: if_splits)

lemma frameLen_append: "8 \<le> length x \<Longrightarrow> frameLen (x @ y) = frameLen x"
  by (simp add: frameLen_def sub_append_left)

lemma frameLen_take: "8 \<le> n \<Longrightarrow> n \<le> length x \<Longrightarrow> frameLen (take n x) = frameLen x"
  using frameLen_append [of "take n x" "drop n x"] by simp

lemma stream_ok_short [simp]: "length x < 8 \<Longrightarrow> stream_ok x"
  by (subst stream_ok.simps) simp

lemma stream_ok_frame: "frame b \<Longrightarrow> stream_ok (b @ x) = stream_ok x"
  by (subst stream_ok.simps) (auto simp: frame_iff frameLen_append)

lemma stream_ok_turn:
  assumes "stream_ok x" "8 \<le> length x"
  shows "take 4 x = ''RCmb''" "2106 \<le> frameLen x" "54 dvd (frameLen x - 2106)"
    "frameLen x \<le> length x \<Longrightarrow> frame (take (frameLen x) x)" "frameLen x \<le> length x \<Longrightarrow> stream_ok (drop (frameLen x) x)"
proof -
  have a: "take 4 x = ''RCmb''" "2106 \<le> frameLen x" "54 dvd (frameLen x - 2106)"
    "frameLen x \<le> length x \<longrightarrow> stream_ok (drop (frameLen x) x)"
    using assms by (subst (asm) stream_ok.simps, simp split: if_splits)+
  then show "take 4 x = ''RCmb''" "2106 \<le> frameLen x" "54 dvd (frameLen x - 2106)" by auto
  from a(4) show "frameLen x \<le> length x \<Longrightarrow> stream_ok (drop (frameLen x) x)" by simp
  show "frameLen x \<le> length x \<Longrightarrow> frame (take (frameLen x) x)"
    using a by (simp add: frame_iff frameLen_take min_def)
qed

lemma stream_ok_prefix: "stream_ok (x @ y) \<Longrightarrow> stream_ok x"
proof (induction x rule: stream_ok.induct)
  case (1 x)
  show ?case
  proof (cases "length x < 8")
    case False
    then have l: "frameLen (x @ y) = frameLen x" "take 4 (x @ y) = take 4 x" by (simp_all add: frameLen_append)
    have "8 \<le> length (x @ y)" using False by simp
    note t = stream_ok_turn [OF 1(2) this, unfolded l]
    have "stream_ok (drop (frameLen x) x)" if "frameLen x \<le> length x"
    proof (rule 1(1))
      show "\<not> length x < 8" "\<not> (take 4 x \<noteq> ''RCmb'' \<or> frameLen x < 2106 \<or> \<not> 54 dvd (frameLen x - 2106))" "\<not> length x < frameLen x"
        using False t that by auto
      show "stream_ok (drop (frameLen x) x @ y)" using t(5) that by simp
    qed
    then show ?thesis using t(1-3) by (subst stream_ok.simps) (auto simp: not_less)
  qed simp
qed

lemma whole_Nil [simp]: "whole []"
  unfolding whole_def by (rule exI [of _ "[]"]) simp

lemma whole_append_frame: "whole x \<Longrightarrow> frame b \<Longrightarrow> whole (x @ b)"
  unfolding whole_def by (elim exE) (rename_tac bufs, rule_tac x = "bufs @ [b]" in exI, auto)

lemma stream_ok_whole:
  assumes "whole x"
  shows "stream_ok (x @ y) = stream_ok y"
proof -
  obtain bufs where "\<forall>b \<in> set bufs. frame b" "x = concat bufs" using assms by (auto simp: whole_def)
  then show ?thesis by (induction bufs arbitrary: x) (auto simp: stream_ok_frame)
qed

lemma whole_stream: "whole (x @ y) \<Longrightarrow> stream_ok x"
  using stream_ok_prefix stream_ok_whole [of "x @ y" "[]"] by auto

section \<open>The two goroutines of a link\<close>

text \<open>What one connection of the bus has seen: the bytes that have arrived and wait for the reader, those it has read,
  the buffer \<^verbatim>\<open>writeFull\<close> is busy with, the bytes that were written, and which goroutine still runs.\<close>

record linkIO =
  ioInbox :: string
  ioRead :: string
  ioReading :: bool
  ioOut :: string
  ioSent :: string
  ioWriting :: bool

definition newIO :: linkIO where
  "newIO = \<lparr>ioInbox = [], ioRead = [], ioReading = True, ioOut = [], ioSent = [], ioWriting = True\<rparr>"

text \<open>The reader can make its next turn once \<^verbatim>\<open>io.ReadFull\<close> has the prefix and, if that is not refused, the whole frame.\<close>

definition readReady :: "string \<Rightarrow> bool" where
  "readReady x \<longleftrightarrow> 8 \<le> length x \<and> (take 4 x \<noteq> ''RCmb'' \<or> frameLen x < 8 \<or> frameLen x \<le> length x)"

text \<open>One turn of \<^verbatim>\<open>clusterReadLoop\<close>: the state, what is left of the input, and whether the loop goes on.\<close>

definition readTurn :: "runtime \<Rightarrow> linkRef \<Rightarrow> string \<Rightarrow> ClusterState \<Rightarrow> (ClusterState \<times> string \<times> bool) option" where
  "readTurn rt l x s =
     (if take 4 x \<noteq> ''RCmb'' then Some (s, drop 8 x, False)
      else if frameLen x < 8 then None
      else case deserializeClusterMsg (take (frameLen x) x) of
             Inl _ \<Rightarrow> None
           | Inr msg \<Rightarrow> do { s' \<leftarrow> clusterProcessMsg (rtEnv rt) (rtUuid rt) (rtNow rt) l msg s;
                             Some (s', drop (frameLen x) x, True) })"

text \<open>The turns make up the loop.\<close>

lemma clusterReadLoop_turns:
  "clusterReadLoop rt i l x s =
     (if readReady x then
        (case readTurn (rt i) l x s of
           None \<Rightarrow> None
         | Some (s', y, go) \<Rightarrow> if go then clusterReadLoop rt (i + 1) l y s' else Some s')
      else Some s)"
  by (subst clusterReadLoop.simps)
     (auto simp: readReady_def readTurn_def frameLen_def Let_def split: option.split sum.split Option.bind_split)

text \<open>\<^verbatim>\<open>clusterWriteLoop\<close>: with nothing left to write the writer takes the oldest message off the channel; a call of
  \<^verbatim>\<open>conn.Write\<close> takes some bytes of it, and an error ends the goroutine.\<close>

definition writerTake :: "string list \<Rightarrow> linkIO \<Rightarrow> (string list \<times> linkIO) option" where
  "writerTake q io =
     (if ioWriting io \<and> ioOut io = [] then (case q of [] \<Rightarrow> None | buf # rest \<Rightarrow> Some (rest, io\<lparr>ioOut := buf\<rparr>)) else None)"

definition writerWrite :: "nat \<Rightarrow> bool \<Rightarrow> linkIO \<Rightarrow> linkIO" where
  "writerWrite n err io =
     io\<lparr>ioSent := ioSent io @ take n (ioOut io), ioOut := drop n (ioOut io), ioWriting := \<not> err\<rparr>"

definition io_ok :: "linkIO \<Rightarrow> bool" where
  "io_ok io \<longleftrightarrow> stream_ok (ioInbox io) \<and> whole (ioRead io) \<and> stream_ok (ioSent io) \<and> (ioWriting io \<longrightarrow> whole (ioSent io @ ioOut io))"

lemma newIO_ok: "io_ok newIO"
  by (simp add: io_ok_def newIO_def)

lemma writerTake_ok:
  assumes "io_ok io" "\<forall>b \<in> set q. frame b" "writerTake q io = Some (q', io')"
  shows "io_ok io' \<and> (\<forall>b \<in> set q'. frame b) \<and> (\<exists>b. q = b # q')"
  using assms by (auto simp: writerTake_def io_ok_def whole_append_frame split: if_splits list.splits)

lemma writerWrite_ok:
  assumes "io_ok io" "ioWriting io"
  shows "io_ok (writerWrite n err io)"
proof -
  have w: "whole (ioSent io @ ioOut io)" using assms by (simp add: io_ok_def)
  then have "whole ((ioSent io @ take n (ioOut io)) @ drop n (ioOut io))" by simp
  from whole_stream [OF this] w show ?thesis using assms(1) by (simp add: io_ok_def writerWrite_def)
qed

section \<open>What operations do to the links\<close>

text \<open>Nothing but frames is added to the channels, no link and no outbound pointer is changed.\<close>

definition link_rel :: "ClusterState \<Rightarrow> ClusterState \<Rightarrow> bool" where
  "link_rel s s' \<longleftrightarrow> nextLink s' = nextLink s \<and> nextRef s \<le> nextRef s'
     \<and> (\<forall>l. lInbound (links s' l) = lInbound (links s l))
     \<and> (\<forall>l. \<exists>bs. lSend (links s' l) = lSend (links s l) @ bs \<and> (\<forall>b \<in> set bs. frame b))
     \<and> (\<forall>r < nextRef s. outbound (store s' r) = outbound (store s r))
     \<and> (\<forall>r. nextRef s \<le> r \<and> r < nextRef s' \<longrightarrow> outbound (store s' r) = None)"

lemma link_relI:
  assumes "nextLink s' = nextLink s" "nextRef s \<le> nextRef s'" "\<And>l. lInbound (links s' l) = lInbound (links s l)"
    "\<And>l. lSend (links s' l) = lSend (links s l)" "\<And>r. r < nextRef s \<Longrightarrow> outbound (store s' r) = outbound (store s r)"
    "\<And>r. nextRef s \<le> r \<Longrightarrow> r < nextRef s' \<Longrightarrow> outbound (store s' r) = None"
  shows "link_rel s s'"
  using assms by (simp add: link_rel_def)

lemma link_rel_refl [simp]: "link_rel s s"
  by (auto simp: link_rel_def)

lemma link_rel_trans:
  assumes "link_rel s t" "link_rel t u"
  shows "link_rel s u"
proof -
  have "\<exists>bs. lSend (links u l) = lSend (links s l) @ bs \<and> (\<forall>b \<in> set bs. frame b)" for l
  proof -
    obtain bs cs where "lSend (links t l) = lSend (links s l) @ bs" "\<forall>b \<in> set bs. frame b"
      "lSend (links u l) = lSend (links t l) @ cs" "\<forall>b \<in> set cs. frame b"
      using assms unfolding link_rel_def by metis
    then show ?thesis by (intro exI [of _ "bs @ cs"]) auto
  qed
  moreover have "outbound (store u r) = None" if "nextRef s \<le> r" "r < nextRef u" for r
    using assms that by (cases "r < nextRef t") (auto simp: link_rel_def)
  ultimately show ?thesis using assms unfolding link_rel_def by auto
qed

lemma outbound_simps [simp]:
  "outbound (UpdateGossip nm a b c n) = outbound n" "outbound (UpdateMessage nm a b c ws n) = outbound n"
  "outbound (SetOwnedSlots ws n) = outbound n" "outbound (MarkPongReceived t n) = outbound n"
  "outbound (SetPingSent t n) = outbound n" "outbound (NewNode u p h fl tmp) = None" "outbound (newFromGossip u g) = None"
  by (simp_all add: UpdateGossip_def UpdateMessage_def SetOwnedSlots_def MarkPongReceived_def SetPingSent_def NewNode_def newFromGossip_def)

lemma SetNode_rel: "SetNode p s = Some s' \<Longrightarrow> link_rel s s'"
  by (auto simp: SetNode_def bind_eq_Some_conv intro!: link_relI)

lemma updNode_rel: "(\<And>n. outbound (f n) = outbound n) \<Longrightarrow> link_rel s (updNode r f s)"
  by (auto simp: updNode_def intro!: link_relI)

lemma allocNode_rel: "allocNode n s = (s', r) \<Longrightarrow> outbound n = None \<Longrightarrow> link_rel s s'"
  by (auto simp: allocNode_def intro!: link_relI)

lemma processGossip_rel: "processGossip uuid gs s = Some s' \<Longrightarrow> link_rel s s'"
proof (induction gs arbitrary: s)
  case (Cons g gs)
  show ?case
  proof (cases "deref s (Self s)")
    case (Some self)
    obtain p ex where g: "GetNode (nodeName g) s = (p, ex)" by force
    obtain s1 r where a: "allocNode (newFromGossip uuid g) s = (s1, r)" by force
    consider "processGossip uuid gs s = Some s'" | s2 where "SetNode (Some r) s1 = Some s2" "processGossip uuid gs s2 = Some s'"
      | r' where "processGossip uuid gs (updNode r' (UpdateGossip (nodeName g) (uint (g_port g)) (uint (g_cport g)) (uint (g_flags g))) s) = Some s'"
      using Cons.prems Some g a by (auto simp: bind_eq_Some_conv split: if_splits)
    then show ?thesis
    proof cases
      case (2 s2)
      then show ?thesis using allocNode_rel [OF a] SetNode_rel [OF 2(1)] Cons.IH [OF 2(2)] link_rel_trans by (metis outbound_simps(7))
    next
      case (3 r')
      show ?thesis by (rule link_rel_trans [OF updNode_rel Cons.IH [OF 3]]) simp
    qed (rule Cons.IH)
  qed (use Cons.prems in simp)
qed simp

lemma senderNode_rel: "senderNode uuid l msg s = (s1, r) \<Longrightarrow> link_rel s s1"
  by (auto simp: senderNode_def Let_def allocNode_def updNode_def updLink_def DeleteNode_def
      split: option.splits if_splits intro!: link_relI)

lemma ping_frame:
  assumes "cs_wf s" "serializeClusterMsg (pingMsg mt rs s) = Some buf"
  shows "frame buf"
proof -
  let ?m = "pingMsg mt rs s"
  have m: "Sig ?m = ''RCmb''" "length (Sig ?m) = 4" "length (msgSlots ?m) = 256"
    using cs_wfD(8) [OF assms(1) cs_wfD(2) [OF assms(1)]] by (simp_all add: pingMsg_def Let_def node_wf_def)
  have buf: "buf = wireBytes ?m" "length buf = unat (totLen ?m)" using assms(2) by (auto simp: serialize_wire split: if_splits)
  have len: "length buf = 2106 + 54 * length (Gossip ?m)" using length_wire [OF m(2,3)] buf(1) by simp
  have "frameLen buf = length buf"
    by (simp add: frameLen_def buf(2)) (simp add: buf(1) sub_wire_fixed [OF m(2)] fixed_fields [OF m(2)] u32c.dec_enc)
  moreover have "take 4 buf = ''RCmb''" using m(1) by (simp add: buf(1) wireBytes_def fixedBytes_def)
  ultimately show ?thesis using len by (simp add: frame_iff)
qed

lemma sendPing_rel:
  assumes "cs_wf s" "env_ok e" "lInbound (links s l) \<and> mt = CLUSTERMSG_TYPE_PING \<longrightarrow> lNode (links s l) \<noteq> None"
    "clusterSendPing e now l mt s = Some s'"
  shows "link_rel s s'" "Nodes s' = Nodes s"
proof -
  obtain rs where rs: "s' = (case serializeClusterMsg (pingMsg mt rs s) of None \<Rightarrow> markPing now l mt s
      | Some buf \<Rightarrow> updLink l (\<lambda>lk. lk\<lparr>lSend := lSend lk @ [buf]\<rparr>) (markPing now l mt s))"
    using clusterSendPing_core [OF assms(1-3), of now] assms(4) by auto
  have mark: "link_rel s (markPing now l mt s)" unfolding markPing_def by (auto intro: updNode_rel)
  have send: "link_rel t (updLink l (\<lambda>lk. lk\<lparr>lSend := lSend lk @ [buf]\<rparr>) t)" if "frame buf" for t buf
    using that by (auto simp: link_rel_def updLink_def)
  show "link_rel s s'"
    unfolding rs using mark link_rel_trans [OF mark send [OF ping_frame [OF assms(1)]]] by (auto split: option.split)
  show "Nodes s' = Nodes s" by (simp add: rs split: option.split)
qed

lemma processMsg_rel:
  assumes "bus_wf s" "env_ok e" "length (msgSlots msg) = 256" "clusterProcessMsg e uuid now l msg s = Some s'"
  shows "link_rel s s'"
proof -
  obtain s1 r where s1: "senderNode uuid l msg s = (s1, r)" by force
  obtain s2 s3 where s: "SetNode (Some r) s1 = Some s2" "clusterProcessGossip uuid msg s2 = Some s3" "bus_wf s3"
    using receive_spec [OF assms(1,3) s1] by blast
  have s3: "link_rel s s3"
    using link_rel_trans [OF link_rel_trans [OF senderNode_rel [OF s1] SetNode_rel [OF s(1)]] processGossip_rel] s(2)
    by (simp add: clusterProcessGossip_def)
  have "link_rel s3 s'"
  proof -
    consider "clusterSendPing e now l CLUSTERMSG_TYPE_PONG s3 = Some s'" | "s' = updNode r (MarkPongReceived (Some now)) s3" | "s' = s3"
    proof -
      have "clusterProcessMsg e uuid now l msg s =
          (if msgType msg = of_int CLUSTERMSG_TYPE_PING then clusterSendPing e now l CLUSTERMSG_TYPE_PONG s3
           else if msgType msg = of_int CLUSTERMSG_TYPE_PONG then Some (updNode r (MarkPongReceived (Some now)) s3) else Some s3)"
        using s1 s(1,2) by (simp add: clusterProcessMsg_def)
      then show thesis using that assms(4) by (metis option.inject)
    qed
    then show ?thesis
    proof cases
      case 1
      then show ?thesis
        using sendPing_rel(1) [of s3 e l CLUSTERMSG_TYPE_PONG now] s(3) assms(2)
        by (simp add: bus_wf_def CLUSTERMSG_TYPE_PONG_def CLUSTERMSG_TYPE_PING_def)
    qed (simp_all add: updNode_rel)
  qed
  with s3 show ?thesis by (rule link_rel_trans)
qed

section \<open>The invariant of the links\<close>

definition bus_ok :: "ClusterState \<Rightarrow> bool" where
  "bus_ok s \<longleftrightarrow> bus_wf s \<and> dom (lookup (Nodes s)) \<noteq> {} \<and> (\<forall>l. \<forall>b \<in> set (lSend (links s l)). frame b)
     \<and> (\<forall>r < nextRef s. \<forall>l. outbound (store s r) = Some l \<longrightarrow> l < nextLink s \<and> \<not> lInbound (links s l))"

lemma bus_okD:
  assumes "bus_ok s"
  shows "bus_wf s" "cs_wf s" "dom (lookup (Nodes s)) \<noteq> {}" "b \<in> set (lSend (links s l)) \<Longrightarrow> frame b"
    "r < nextRef s \<Longrightarrow> outbound (store s r) = Some l \<Longrightarrow> l < nextLink s \<and> \<not> lInbound (links s l)"
  using assms by (auto simp: bus_ok_def bus_wf_def)

lemma bus_ok_rel:
  assumes "bus_ok s" "link_rel s s'" "bus_wf s'" "dom (lookup (Nodes s')) \<noteq> {}"
  shows "bus_ok s'"
proof -
  have "frame b" if b: "b \<in> set (lSend (links s' l))" for l b
  proof -
    obtain bs where "lSend (links s' l) = lSend (links s l) @ bs" "\<forall>b \<in> set bs. frame b"
      using assms(2) unfolding link_rel_def by blast
    then show ?thesis using b bus_okD(4) [OF assms(1)] by auto
  qed
  moreover have "l < nextLink s' \<and> \<not> lInbound (links s' l)" if "r < nextRef s'" "outbound (store s' r) = Some l" for r l
  proof -
    have "r < nextRef s" using assms(2) that by (rule_tac ccontr) (auto simp: link_rel_def not_less)
    then show ?thesis using assms(2) that bus_okD(5) [OF assms(1)] by (auto simp: link_rel_def)
  qed
  ultimately show ?thesis using assms(3,4) by (simp add: bus_ok_def)
qed

text \<open>Links are only added and their channels only filled.\<close>

definition grows :: "ClusterState \<Rightarrow> ClusterState \<Rightarrow> bool" where
  "grows s s' \<longleftrightarrow> nextLink s \<le> nextLink s' \<and> (\<forall>l < nextLink s. \<exists>bs. lSend (links s' l) = lSend (links s l) @ bs)"

lemma link_rel_grows: "link_rel s s' \<Longrightarrow> grows s s'"
  by (auto simp: link_rel_def grows_def)

lemma grows_refl [simp]: "grows s s"
  by (simp add: grows_def)

lemma grows_trans: "grows s t \<Longrightarrow> grows t u \<Longrightarrow> grows s u"
  unfolding grows_def by (metis append.assoc order_less_le_trans order_trans)

lemma readTurn_ok:
  assumes "bus_ok s" "env_ok (rtEnv rt)" "stream_ok x" "readReady x"
  shows "\<exists>s'. readTurn rt l x s = Some (s', drop (frameLen x) x, True) \<and> bus_ok s' \<and> grows s s' \<and> frame (take (frameLen x) x)
     \<and> stream_ok (drop (frameLen x) x)"
proof -
  have "8 \<le> length x" using assms(4) by (simp add: readReady_def)
  note t = stream_ok_turn [OF assms(3) this]
  have le: "frameLen x \<le> length x" using assms(4) t(1,2) by (auto simp: readReady_def)
  obtain msg where msg: "deserializeClusterMsg (take (frameLen x) x) = Inr msg"
    using t(4) [OF le] by (auto simp: frame_def split: sum.splits)
  have sl: "length (msgSlots msg) = 256" using serialize_deserialize [OF msg] by (simp add: msg_ok_def)
  obtain s' where s': "clusterProcessMsg (rtEnv rt) (rtUuid rt) (rtNow rt) l msg s = Some s'" "bus_wf s'" "msg_learnt l msg s s'"
    using process_result [OF bus_okD(1) [OF assms(1)] assms(2) sl] by blast
  note rel = processMsg_rel [OF bus_okD(1) [OF assms(1)] assms(2) sl s'(1)]
  have "bus_ok s'" by (rule bus_ok_rel [OF assms(1) rel s'(2)]) (use s'(3) in \<open>auto simp: msg_learnt_def\<close>)
  then show ?thesis using t(1,2,4,5) le msg s'(1) link_rel_grows [OF rel] by (simp add: readTurn_def)
qed

lemma SetSlot_three:
  assumes "ClusterSetSlot ul [a0, a1, nodeID] s = Some (s', e)"
  shows "s' = s \<or> (\<exists>slot p. ImportingSlotsFrom slot p s = Some s') \<or> (\<exists>slot p. MigratingSlotsTo slot p s = Some s')
     \<or> (\<exists>slot p. setSlotNode slot p s = Some s')"
proof (cases "Atoi a0")
  case (Inr slot)
  obtain p ok where g: "GetNode nodeID s = (p, ok)" by force
  show ?thesis
    using assms unfolding ClusterSetSlot_def list.case Inr sum.case Let_def g prod.case
    by (auto simp: bind_eq_Some_conv split: if_splits)
qed (use assms in \<open>simp add: ClusterSetSlot_def\<close>)

lemma SetSlot_result:
  assumes "ClusterSetSlot ul args s = Some (s', e)"
  shows "s' = s \<or> (\<exists>slot. s' = SetSlotStable slot s) \<or> (\<exists>slot p. ImportingSlotsFrom slot p s = Some s')
     \<or> (\<exists>slot p. MigratingSlotsTo slot p s = Some s') \<or> (\<exists>slot p. setSlotNode slot p s = Some s')"
proof -
  consider a0 a1 where "args = [a0, a1]" | a0 a1 a2 where "args = [a0, a1, a2]"
    | "ClusterSetSlot ul args s = Some (s, Some BadSetSlotArgs)"
    by (cases args rule: list.exhaust; cases "tl args" rule: list.exhaust; cases "tl (tl args)" rule: list.exhaust;
        cases "tl (tl (tl args))" rule: list.exhaust) (auto simp: ClusterSetSlot_def)
  then show ?thesis
  proof cases
    case 1
    then show ?thesis using assms by (auto simp: ClusterSetSlot_def split: sum.splits if_splits)
  next
    case (2 a0 a1 a2)
    then show ?thesis using SetSlot_three assms by blast
  qed (use assms in simp)
qed

lemma slot_edit_outbound:
  "AddSlot slot n = Some n' \<Longrightarrow> outbound n' = outbound n" "RemoveSlot slot n = Some n' \<Longrightarrow> outbound n' = outbound n"
  "AddSlotRange a b n = Some n' \<Longrightarrow> outbound n' = outbound n"
  by (auto simp: AddSlot_def RemoveSlot_def AddSlotRange_def bind_eq_Some_conv simp del: upt_Suc)

lemma ownEdit_outbound: "ownEdit me slot n = Some n' \<Longrightarrow> outbound n' = outbound n"
  unfolding ownEdit_def by (auto dest: slot_edit_outbound split: if_splits)

lemma setSlotNode_rel:
  assumes "Self s = Some (self_ref s)" "setSlotNode slot p s = Some t"
  shows "link_rel s t" "Nodes t = Nodes s"
proof -
  obtain r where p: "p = Some r" using assms(2) by (cases p) (auto simp: setSlotNode_def deref_def)
  let ?me = "store s (self_ref s)"
  have "setSlotNode slot p s = map_option (\<lambda>n'. finishSlot slot r n' s) (ownEdit (Name (store s r) = Name ?me) slot ?me)"
    using setSlotNode_eq [OF assms(1)] assms(1)
    by (cases "ownEdit (Name (store s r) = Name ?me) slot ?me")
       (auto simp: p setSlotNode_def ownEdit_def deref_def Let_def split: if_splits)
  from this [symmetric, unfolded assms(2)]
  obtain n' where n': "ownEdit (Name (store s r) = Name ?me) slot ?me = Some n'" "t = finishSlot slot r n' s"
    unfolding map_option_eq_Some by blast
  have out: "outbound n' = outbound ?me" by (rule ownEdit_outbound [OF n'(1)])
  show "link_rel s t" unfolding n'(2) by (intro link_relI) (simp_all add: finishSlot_def updNode_def out)
  show "Nodes t = Nodes s" by (simp add: n'(2))
qed

lemma slot_marks_rel:
  "link_rel s (SetSlotStable slot s)" "Nodes (SetSlotStable slot s) = Nodes s"
  "ImportingSlotsFrom slot p s = Some t \<Longrightarrow> link_rel s t" "ImportingSlotsFrom slot p s = Some t \<Longrightarrow> Nodes t = Nodes s"
  "MigratingSlotsTo slot p s = Some t \<Longrightarrow> link_rel s t" "MigratingSlotsTo slot p s = Some t \<Longrightarrow> Nodes t = Nodes s"
  by (auto simp: SetSlotStable_def ImportingSlotsFrom_def MigratingSlotsTo_def bind_eq_Some_conv intro!: link_relI)

lemma ClusterSetSlot_ok:
  assumes "bus_ok s" "ClusterSetSlot ul args s = Some (s', e)"
  shows "bus_ok s' \<and> grows s s'"
proof -
  have wf: "bus_wf s'" using SetSlot_safe [OF bus_okD(1) [OF assms(1)], of ul args] assms(2) by auto
  note self = cs_wfD(1) [OF bus_okD(2) [OF assms(1)]]
  have "link_rel s s' \<and> Nodes s' = Nodes s"
    using SetSlot_result [OF assms(2)] by (elim disjE exE) (auto simp: slot_marks_rel setSlotNode_rel [OF self])
  then show ?thesis using bus_ok_rel [OF assms(1) _ wf] bus_okD(3) [OF assms(1)] link_rel_grows by simp
qed

lemma addSlotsRange_ok:
  assumes "bus_ok s" "b < 16384" "addSlotsRange a b s = Some s'"
  shows "bus_ok s' \<and> grows s s'"
proof -
  have wf: "bus_wf s'" using addSlotsRange_spec [OF bus_okD(1) [OF assms(1)] assms(2), of a] assms(3) by auto
  have "link_rel s s' \<and> Nodes s' = Nodes s"
    using assms(3) slot_edit_outbound(3) by (auto simp: addSlotsRange_def bind_eq_Some_conv updNode_def intro!: link_relI)
  then show ?thesis using bus_ok_rel [OF assms(1) _ wf] bus_okD(3) [OF assms(1)] link_rel_grows by simp
qed

text \<open>A new link starts with an empty channel.\<close>

lemma CreateClusterLink_ok:
  assumes "bus_ok s" "case node of None \<Rightarrow> True | Some r \<Rightarrow> \<not> inb \<and> r < nextRef s" "CreateClusterLink conn node inb s = (s', l)"
  shows "bus_ok s'" "lInbound (links s' l) = inb" "Nodes s' = Nodes s" "grows s s'"
proof -
  let ?s1 = "s\<lparr>links := (links s)(nextLink s := newClusterLink conn node inb), nextLink := nextLink s + 1\<rparr>"
  have s': "s' = (case node of None \<Rightarrow> ?s1 | Some r \<Rightarrow> updNode r (SetOutbound (Some (nextLink s))) ?s1)" and l: "l = nextLink s"
    using assms(2,3) by (auto simp: CreateClusterLink_def Let_def split: option.splits)
  have old: "l' < nextLink s \<and> \<not> lInbound (links s l')" if "r < nextRef s" "outbound (store s r) = Some l'" for r l'
    by (rule bus_okD(5) [OF assms(1) that])
  have wf1: "cs_wf ?s1" using bus_okD(2) [OF assms(1)] by (simp add: cs_wf_def)
  have wf: "bus_wf s'"
  proof (cases node)
    case None
    then show ?thesis using wf1 bus_okD(1) [OF assms(1)] by (auto simp: s' bus_wf_def newClusterLink_def)
  next
    case (Some r)
    have "cs_wf (updNode r (SetOutbound (Some (nextLink s))) ?s1)"
      by (rule cs_wf_updNode [OF wf1]) (use Some assms(2) bus_okD(2) [OF assms(1)] in \<open>auto dest: cs_wfD(8)\<close>)
    then show ?thesis using Some assms(2) bus_okD(1) [OF assms(1)] by (auto simp: s' bus_wf_def newClusterLink_def updNode_def)
  qed
  have N: "Nodes s' = Nodes s" by (simp add: s' updNode_def split: option.split)
  have "frame b" if "b \<in> set (lSend (links s' k))" for k b
    using that bus_okD(4) [OF assms(1)] by (auto simp: s' updNode_def newClusterLink_def split: option.splits if_splits)
  moreover have "l' < nextLink s' \<and> \<not> lInbound (links s' l')" if "r < nextRef s'" "outbound (store s' r) = Some l'" for r l'
    using that old [of r l'] assms(2) by (auto simp: s' updNode_def newClusterLink_def split: option.splits if_splits)
  ultimately show "bus_ok s'" using wf N bus_okD(3) [OF assms(1)] by (simp add: bus_ok_def)
  show "lInbound (links s' l) = inb" by (simp add: s' l updNode_def newClusterLink_def split: option.split)
  show "Nodes s' = Nodes s" by (rule N)
  show "grows s s'" by (simp add: grows_def s' updNode_def split: option.split)
qed

lemma sendPing_ok:
  assumes "bus_ok s" "env_ok e" "\<not> lInbound (links s l)"
  shows "\<exists>s'. clusterSendPing e now l CLUSTERMSG_TYPE_PING s = Some s' \<and> bus_ok s' \<and> grows s s'"
proof -
  obtain s' where s': "clusterSendPing e now l CLUSTERMSG_TYPE_PING s = Some s'" "bus_wf s'"
    using ping_safe [OF bus_okD(1) [OF assms(1)] assms(2,3)] by blast
  have "link_rel s s'" "Nodes s' = Nodes s" using sendPing_rel [OF bus_okD(2) [OF assms(1)] assms(2) _ s'(1)] assms(3) by auto
  then show ?thesis using s' bus_ok_rel [OF assms(1) _ s'(2)] bus_okD(3) [OF assms(1)] link_rel_grows by simp
qed

lemma handshake_ok:
  assumes "bus_ok s" "env_ok (rtEnv rt)"
  shows "\<exists>s' e. ClusterStartHandshake dial rt h p s = Some (s', e) \<and> bus_ok s' \<and> grows s s'"
proof -
  let ?n = "NewNode (rtUuid rt) p h (CLUSTER_HANDSHAKE_NODE OR CLUSTER_MEET_NODE) True"
  obtain s1 r where a: "allocNode ?n s = (s1, r)" by force
  note a' = allocNode_wf [OF bus_okD(2) [OF assms(1)] NewNode_wf(1) a]
  obtain s2 where s2: "SetNode (Some r) s1 = Some s2" "cs_wf s2" "nextRef s2 = nextRef s + 1" "links s2 = links s"
    "lookup (Nodes s2) = (lookup (Nodes s1))(Name (store s1 r) \<mapsto> Some r)"
    using SetNode_wf [OF a'(1), of r] a'(2,4,7) by auto
  have rel2: "link_rel s s2" using link_rel_trans [OF allocNode_rel [OF a] SetNode_rel [OF s2(1)]] by simp
  have "bus_wf s2" using bus_okD(1) [OF assms(1)] s2 by (auto simp: bus_wf_def intro: less_SucI)
  then have ok2: "bus_ok s2" using bus_ok_rel [OF assms(1) rel2] s2(5) by simp
  show ?thesis
  proof (cases "dial (JoinHostPort h (Itoa (wrap64 (p + CLUSTER_BUS_PORT_INCR))))")
    case (Inl e)
    then show ?thesis using a s2(1) ok2 link_rel_grows [OF rel2] by (simp add: ClusterStartHandshake_def)
  next
    case (Inr peer)
    obtain s3 l where c: "CreateClusterLink (Some peer) (Some r) False s2 = (s3, l)" by force
    have "case Some r of None \<Rightarrow> True | Some r \<Rightarrow> \<not> False \<and> r < nextRef s2" using s2(3) a'(2) by simp
    note c' = CreateClusterLink_ok [OF ok2 this c]
    obtain s4 where s4: "clusterSendPing (rtEnv rt) (rtNow rt) l CLUSTERMSG_TYPE_PING s3 = Some s4" "bus_ok s4" "grows s3 s4"
      using sendPing_ok [OF c'(1) assms(2)] c'(2) by blast
    have "grows s s4" by (rule grows_trans [OF link_rel_grows [OF rel2] grows_trans [OF c'(4) s4(3)]])
    then show ?thesis using a s2(1) c Inr s4(1,2) by (simp add: ClusterStartHandshake_def)
  qed
qed

lemma ClusterCron_ok:
  assumes "bus_ok s" "env_ok pick" "env_ok (rtEnv rt)"
  shows "\<exists>s'. ClusterCron pick rt iterations s = Some s' \<and> bus_ok s' \<and> grows s s'"
proof -
  let ?ps = "rangeNodes (order pick 0) (Nodes s)"
  note wf = bus_okD(2) [OF assms(1)]
  have ran: "set ?ps = ran (lookup (Nodes s))" by (rule set_rangeNodes) (use assms(2) in \<open>auto simp: env_ok_def\<close>)
  then have ps: "None \<notin> set ?ps" using cs_wfD(7) [OF wf] by (auto simp: ran_def)
  obtain q where q: "cronScan s (rnd pick 0 (len (Nodes s))) 0 ?ps = Some q"
    "\<And>l. q = Some l \<Longrightarrow> \<exists>k. Some k \<in> set ?ps \<and> outbound (store s k) = Some l"
    using cronScan_spec [OF ps] by blast
  have "finite (dom (lookup (Nodes s)))" by (metis List.finite_set set_keys)
  then have ne: "len (Nodes s) \<noteq> 0" using bus_okD(3) [OF assms(1)] len_eq_card [OF cs_wfD(4) [OF wf]] by auto
  show ?thesis
  proof (cases "iterations mod 10 = 0 \<and> q \<noteq> None")
    case True
    then obtain l k where l: "q = Some l" "Some k \<in> ran (lookup (Nodes s))" "outbound (store s k) = Some l"
      using q(2) ran by auto
    have "\<not> lInbound (links s l)"
      using bus_okD(5) [OF assms(1) _ l(3)] known_wf [OF wf, of k] l(2) by (simp add: known_def)
    from sendPing_ok [OF assms(1,3) this] show ?thesis using True l(1) q(1) ne by (simp add: ClusterCron_def)
  next
    case False
    then show ?thesis using q(1) ne assms(1) by (auto simp: ClusterCron_def)
  qed
qed

lemma dequeue_ok:
  assumes "bus_ok s" "set q \<subseteq> set (lSend (links s l))"
  shows "bus_ok (updLink l (\<lambda>lk. lk\<lparr>lSend := q\<rparr>) s)"
proof -
  have "bus_wf (updLink l (\<lambda>lk. lk\<lparr>lSend := q\<rparr>) s)" using bus_okD(1) [OF assms(1)] by (simp add: bus_wf_def)
  moreover have "nextLink (updLink l (\<lambda>lk. lk\<lparr>lSend := q\<rparr>) s) = nextLink s" by (simp add: updLink_def)
  ultimately show ?thesis using assms bus_okD(3,4,5) [OF assms(1)] by (auto simp: bus_ok_def)
qed

lemma initState_ok: "node_wf n \<Longrightarrow> outbound n = None \<Longrightarrow> bus_ok (initState n)"
proof -
  assume n: "node_wf n" "outbound n = None"
  have "Name n \<in> dom (lookup (Nodes (initState n)))" by (simp add: initState_def lookup_def dom_def)
  then show ?thesis using initState_bus [OF n(1)] n(2) by (auto simp: bus_ok_def initState_def)
qed

section \<open>The commands\<close>

definition cluster_kept :: "ClusterState \<Rightarrow> clusterStep \<Rightarrow> bool" where
  "cluster_kept s out \<longleftrightarrow> (\<forall>cs rs go. out = Some (cs, rs, go) \<longrightarrow> (\<exists>s'. cs = Some s' \<and> bus_ok s' \<and> grows s s'))"

lemma cluster_kept_intros:
  "bus_ok s' \<Longrightarrow> grows s s' \<Longrightarrow> cluster_kept s (Some (Some s', rs, go))" "bus_ok s' \<Longrightarrow> grows s s' \<Longrightarrow> cluster_kept s (refuse (Some s') e)"
  "(\<And>x. y = Some x \<Longrightarrow> cluster_kept s (f x)) \<Longrightarrow> cluster_kept s (Option.bind y f)"
  by (auto simp: cluster_kept_def refuse_def bind_eq_Some_conv)

lemma handleCluster_kept:
  assumes "bus_ok s" "env_ok (rtEnv (cx_rt cx))"
  shows "cluster_kept s (handleCluster cx cluster (Some s) args)"
proof -
  note kept = cluster_kept_intros(1,2) [OF assms(1) grows_refl] cluster_kept_intros(3)
  have nodes: "cluster_kept s (clusterNodesCmd cx (Some s))"
    by (auto simp: clusterNodesCmd_def split: sum.split intro!: kept)
  have add: "cluster_kept s (do { s' \<leftarrow> addSlotsRange (nat a) (nat b) s; Some (Some s', [WriteOK], True) })" if "b < int CLUSTER_SLOTS" for a b
  proof -
    have "nat b < 16384" using that by (simp add: CLUSTER_SLOTS_def)
    then show ?thesis using addSlotsRange_ok [OF assms(1)] by (blast intro: cluster_kept_intros)
  qed
  have slots: "cluster_kept s (clusterAddSlotsRangeCmd cx (Some s) rest)" for rest
    using add by (auto simp: clusterAddSlotsRangeCmd_def intro!: kept(2) split: list.split sum.split)
  have hs: "cluster_kept s (do { (s', err) \<leftarrow> ClusterStartHandshake (cx_dial cx) (cx_rt cx) h p s;
      case err of None \<Rightarrow> Some (Some s', [WriteOK], True) | Some e \<Rightarrow> refuse (Some s') (''ERR cluster meet: '' @ e) })" for h p
    using handshake_ok [OF assms, of "cx_dial cx" h p] by (auto intro: cluster_kept_intros split: option.split)
  have meet: "cluster_kept s (clusterMeetCmd cx (Some s) rest)" for rest
    using hs by (auto simp: clusterMeetCmd_def intro!: kept(2) split: list.split sum.split)
  show ?thesis
    using nodes slots meet by (auto simp: handleCluster_def Let_def intro!: kept split: list.split prod.split)
qed

text \<open>The same for a whole command.\<close>

definition view_rel :: "server \<Rightarrow> server \<Rightarrow> bool" where
  "view_rel sv sv' \<longleftrightarrow> (case svCluster sv of None \<Rightarrow> svCluster sv' = None
     | Some s \<Rightarrow> \<exists>s'. svCluster sv' = Some s' \<and> bus_ok s' \<and> grows s s')"

definition view_kept :: "server \<Rightarrow> step \<Rightarrow> bool" where
  "view_kept sv out \<longleftrightarrow> (\<forall>sv' sb rs go. out = Some (sv', sb, rs, go) \<longrightarrow> view_rel sv sv')"

lemma view_rel_same: "\<forall>s. svCluster sv = Some s \<longrightarrow> bus_ok s \<Longrightarrow> svCluster sv' = svCluster sv \<Longrightarrow> view_rel sv sv'"
  by (auto simp: view_rel_def split: option.split)

lemma view_keptI:
  assumes "\<forall>s. svCluster sv = Some s \<longrightarrow> bus_ok s"
  shows "view_kept sv (kvStep sv sb out)" "view_kept sv (Some (sv, sb, rs, go))" "view_kept sv (do { rs \<leftarrow> x; Some (sv, sb, f rs, True) })"
    "view_kept sv (do { (ps, rs) \<leftarrow> y; Some (sv\<lparr>svPS := ps\<rparr>, sb, rs, True) })"
    "view_kept sv (do { (ps, sb', rs) \<leftarrow> z; Some (sv\<lparr>svPS := ps\<rparr>, sb', rs, True) })"
  using view_rel_same [OF assms] by (auto simp: view_kept_def kvStep_def bind_eq_Some_conv)

lemma view_kept_if: "(b \<Longrightarrow> view_kept sv x) \<Longrightarrow> (\<not> b \<Longrightarrow> view_kept sv y) \<Longrightarrow> view_kept sv (if b then x else y)"
  by simp

lemma dispatch_view:
  assumes "\<forall>s. svCluster sv = Some s \<longrightarrow> bus_ok s" "env_ok (rtEnv (cx_rt cx))"
  shows "view_kept sv (dispatch cx cluster sv sb cmd args)"
proof -
  note same = view_keptI [OF assms(1)]
  have setslot: "view_kept sv (do { (cs, rs) \<leftarrow> handleSetSlot cx (svCluster sv) args; Some (sv\<lparr>svCluster := cs\<rparr>, sb, rs, True) })"
  proof (cases "svCluster sv")
    case None
    then show ?thesis by (auto simp: view_kept_def view_rel_def handleSetSlot_def bind_eq_Some_conv)
  next
    case (Some s)
    then have "bus_ok s' \<and> grows s s'" if "ClusterSetSlot (cx_lower cx) args s = Some (s', e)" for s' e using that assms(1) ClusterSetSlot_ok by blast
    then show ?thesis by (auto simp: view_kept_def view_rel_def handleSetSlot_def bind_eq_Some_conv Some)
  qed
  have none: "cs = None" if "handleCluster cx cluster None args = Some (cs, rs, go)" for cs rs go
    using that by (auto simp: handleCluster_def refuse_def clusterNodesCmd_def clusterAddSlotsRangeCmd_def clusterMeetCmd_def
        split: list.splits sum.splits if_splits)
  have clus: "view_kept sv (do { (cs, rs, go) \<leftarrow> handleCluster cx cluster (svCluster sv) args; Some (sv\<lparr>svCluster := cs\<rparr>, sb, rs, go) })"
  proof (cases "svCluster sv")
    case None
    then show ?thesis by (auto simp: view_kept_def view_rel_def bind_eq_Some_conv dest!: none)
  next
    case (Some s)
    then have "\<exists>s'. cs = Some s' \<and> bus_ok s' \<and> grows s s'" if "handleCluster cx cluster (Some s) args = Some (cs, rs, go)" for cs rs go
      using that handleCluster_kept [of s cx cluster args] assms by (simp add: cluster_kept_def)
    then show ?thesis by (auto simp: view_kept_def view_rel_def bind_eq_Some_conv Some)
  qed
  show ?thesis
  proof (cases "map_of keyedCommands cmd")
    case None
    show ?thesis unfolding dispatch_def None option.case by (intro view_kept_if same setslot clus)
  qed (simp add: dispatch_def same(1))
qed

end
