(* ===== verification/Server_System.thy ===== *)
theory Server_System
  imports Server_Session Cluster_Frames
begin

text \<open>
  A whole server process, the way \<^verbatim>\<open>Run\<close> leaves it running: the goroutines of the client connections and of the
  subscribers, the listener of the cluster bus, a reader and a writer for every link, and the cron job. An event is
  what one goroutine, or the network, does next; any order of events is a run. A goroutine that sends into the full channel of a link waits: the
  messages of a link behind the first 256 are those of waiting senders, which Go queues in their order. \<^const>\<open>None\<close> is a
  panic, which ends the process.
\<close>

text \<open>The goroutines that may find a channel full. A handler sends only into the channel of the link it has just made.\<close>

datatype waiter = Reader linkRef | Cron

record conn =
  cReader :: respServer
  cSubs :: subs

record system =
  sysServer :: server
  sysConns :: "nat \<Rightarrow> conn option"
  nextConn :: nat
  sysReplies :: "nat \<Rightarrow> reply list"
  sysIO :: "linkRef \<Rightarrow> linkIO"
  sysTicks :: int
  sysWaits :: "waiter \<Rightarrow> (linkRef \<times> nat) option"

definition startSystem :: "server \<Rightarrow> system" where
  "startSystem sv = \<lparr>sysServer = sv, sysConns = (\<lambda>_. None), nextConn = 0, sysReplies = (\<lambda>_. []), sysIO = (\<lambda>_. newIO), sysTicks = 0,
     sysWaits = (\<lambda>_. None)\<rparr>"

datatype event =
    Accept string
  | Serve nat runtime "string \<Rightarrow> string + string"
  | Forward nat
  | BusAccept "string option"
  | Arrive linkRef string
  | Hangup linkRef
  | ReadFrame linkRef runtime
  | Take linkRef
  | Put linkRef nat bool
  | Tick env runtime

section \<open>The goroutines\<close>

text \<open>One turn of the loop of \<^verbatim>\<open>handleConnection\<close>. A connection that ends drops its subscriptions.\<close>

definition endConnection :: "ctx \<Rightarrow> subs \<Rightarrow> server \<Rightarrow> server option" where
  "endConnection cx sb sv = do { ps \<leftarrow> closeSubscriptions (cx_chans cx sb) sb (svPS sv); Some (sv\<lparr>svPS := ps\<rparr>) }"

definition connTurn :: "ctx \<Rightarrow> bool \<Rightarrow> conn \<Rightarrow> server \<Rightarrow> (server \<times> conn option \<times> reply list) option" where
  "connTurn cx cluster c sv =
     (case Next (cReader c) of
        (_, Inl e) \<Rightarrow> do { sv' \<leftarrow> endConnection cx (cSubs c) sv; Some (sv', None, [WriteError (rdError_text e)]) }
      | (rc, Inr words) \<Rightarrow>
          do { (sv', sb, rs, go) \<leftarrow> runCommand cx cluster words sv (cSubs c);
               if go then Some (sv', Some \<lparr>cReader = rc, cSubs = sb\<rparr>, rs)
               else do { sv'' \<leftarrow> endConnection cx sb sv'; Some (sv'', None, rs) } })"

text \<open>The capacity of the channel \<^verbatim>\<open>newClusterLink\<close> makes, and where a goroutine waits after it has sent.\<close>

definition sendCapacity :: nat where "sendCapacity = 256"

definition grown :: "ClusterState \<Rightarrow> ClusterState \<Rightarrow> linkRef option" where
  "grown s s' = find (\<lambda>l. length (lSend (links s l)) < length (lSend (links s' l))) [0..<nextLink s']"

definition waitAfter :: "ClusterState \<Rightarrow> ClusterState \<Rightarrow> (linkRef \<times> nat) option" where
  "waitAfter s s' =
     (case grown s s' of
        None \<Rightarrow> None
      | Some l \<Rightarrow> (let n = length (lSend (links s' l)) in if n \<le> sendCapacity then None else Some (l, n - sendCapacity)))"

text \<open>A message taken off the channel of \<open>l\<close> lets everyone who waits there move up.\<close>

definition moveUp :: "linkRef \<Rightarrow> (linkRef \<times> nat) option \<Rightarrow> (linkRef \<times> nat) option" where
  "moveUp l w = (case w of None \<Rightarrow> None | Some (l', n) \<Rightarrow> if l' \<noteq> l then Some (l', n) else if n \<le> 1 then None else Some (l', n - 1))"

text \<open>A step of a goroutine on the view of the cluster.\<close>

definition onCluster :: "waiter \<Rightarrow> (ClusterState \<Rightarrow> ClusterState option) \<Rightarrow> system \<Rightarrow> system option" where
  "onCluster g f st =
     do { s \<leftarrow> svCluster (sysServer st);
          s' \<leftarrow> f s;
          Some (st\<lparr>sysServer := (sysServer st)\<lparr>svCluster := Some s'\<rparr>, sysWaits := (sysWaits st)(g := waitAfter s s')\<rparr>) }"

definition updIO :: "linkRef \<Rightarrow> (linkIO \<Rightarrow> linkIO) \<Rightarrow> system \<Rightarrow> system" where
  "updIO l f st = st\<lparr>sysIO := (sysIO st)(l := f (sysIO st l))\<rparr>"

section \<open>Events\<close>

definition linkOpen :: "system \<Rightarrow> linkRef \<Rightarrow> bool" where
  "linkOpen st l = (case svCluster (sysServer st) of None \<Rightarrow> False | Some s \<Rightarrow> l < nextLink s)"

definition queueOf :: "system \<Rightarrow> linkRef \<Rightarrow> string list" where
  "queueOf st l = (case svCluster (sysServer st) of None \<Rightarrow> [] | Some s \<Rightarrow> lSend (links s l))"

text \<open>Which events can happen: nobody acts who has ended or who waits.\<close>

fun enabled :: "event \<Rightarrow> system \<Rightarrow> bool" where
  "enabled (Accept input) st = True"
| "enabled (Serve i rt dial) st = (sysConns st i \<noteq> None)"
| "enabled (Forward ch) st = (buffered (heap (svPS (sysServer st)) ch) \<noteq> [])"
| "enabled (BusAccept host) st = (svCluster (sysServer st) \<noteq> None)"
| "enabled (Arrive l bs) st = (linkOpen st l \<and> ioReading (sysIO st l))"
| "enabled (Hangup l) st = (linkOpen st l \<and> ioReading (sysIO st l) \<and> sysWaits st (Reader l) = None)"
| "enabled (ReadFrame l rt) st =
     (linkOpen st l \<and> ioReading (sysIO st l) \<and> sysWaits st (Reader l) = None \<and> readReady (ioInbox (sysIO st l)))"
| "enabled (Take l) st = (linkOpen st l \<and> writerTake (queueOf st l) (sysIO st l) \<noteq> None)"
| "enabled (Put l n err) st =
     (linkOpen st l \<and> ioWriting (sysIO st l) \<and> ioOut (sysIO st l) \<noteq> [] \<and> n \<le> length (ioOut (sysIO st l)))"
| "enabled (Tick pick rt) st = (svCluster (sysServer st) \<noteq> None \<and> sysWaits st Cron = None)"

fun sysExec :: "ctx \<Rightarrow> bool \<Rightarrow> event \<Rightarrow> system \<Rightarrow> system option" where
  "sysExec cx cluster (Accept input) st =
     Some (st\<lparr>sysConns := (sysConns st)(nextConn st \<mapsto> \<lparr>cReader = \<lparr>rd = input, rerr = None, lims = connLimits\<rparr>, cSubs = GoMap []\<rparr>),
              nextConn := nextConn st + 1\<rparr>)"
| "sysExec cx cluster (Serve i rt dial) st =
     do { c \<leftarrow> sysConns st i;
          (sv, c', rs) \<leftarrow> connTurn (cx\<lparr>cx_rt := rt, cx_dial := dial\<rparr>) cluster c (sysServer st);
          Some (st\<lparr>sysServer := sv, sysConns := (sysConns st)(i := c'), sysReplies := (sysReplies st)(i := sysReplies st i @ rs)\<rparr>) }"
| "sysExec cx cluster (Forward ch) st =
     do { (ps, m) \<leftarrow> recv ch (svPS (sysServer st)); Some (st\<lparr>sysServer := (sysServer st)\<lparr>svPS := ps\<rparr>\<rparr>) }"
| "sysExec cx cluster (BusAccept host) st =
     do { s \<leftarrow> svCluster (sysServer st);
          Some (st\<lparr>sysServer := (sysServer st)\<lparr>svCluster := Some (fst (CreateClusterLink host None True s))\<rparr>\<rparr>) }"
| "sysExec cx cluster (Arrive l bs) st = Some (updIO l (\<lambda>io. io\<lparr>ioInbox := ioInbox io @ bs\<rparr>) st)"
| "sysExec cx cluster (Hangup l) st = Some (updIO l (\<lambda>io. io\<lparr>ioReading := False\<rparr>) st)"
| "sysExec cx cluster (ReadFrame l rt) st =
     do { s \<leftarrow> svCluster (sysServer st);
          (s', rest, go) \<leftarrow> readTurn rt l (ioInbox (sysIO st l)) s;
          st' \<leftarrow> onCluster (Reader l) (\<lambda>_. Some s') st;
          Some (updIO l (\<lambda>io. io\<lparr>ioRead := ioRead io @ take (length (ioInbox io) - length rest) (ioInbox io), ioInbox := rest, ioReading := go\<rparr>) st') }"
| "sysExec cx cluster (Take l) st =
     do { s \<leftarrow> svCluster (sysServer st);
          (q, io) \<leftarrow> writerTake (lSend (links s l)) (sysIO st l);
          Some (updIO l (\<lambda>_. io)
            (st\<lparr>sysServer := (sysServer st)\<lparr>svCluster := Some (updLink l (\<lambda>lk. lk\<lparr>lSend := q\<rparr>) s)\<rparr>,
                sysWaits := (\<lambda>g. moveUp l (sysWaits st g))\<rparr>)) }"
| "sysExec cx cluster (Put l n err) st = Some (updIO l (writerWrite n err) st)"
| "sysExec cx cluster (Tick pick rt) st =
     do { st' \<leftarrow> onCluster Cron (ClusterCron pick rt (sysTicks st)) st; Some (st'\<lparr>sysTicks := sysTicks st + 1\<rparr>) }"

section \<open>Every component stays well formed\<close>

text \<open>What the environment is trusted with: clients send none of the commands that stop the process, the runtime
  makes lawful choices, and what arrives on a link is the beginning of a stream of frames.\<close>

fun trusted :: "ctx \<Rightarrow> bool \<Rightarrow> event \<Rightarrow> system \<Rightarrow> bool" where
  "trusted cx cluster (Accept input) st =
     (\<forall>w \<in> set (fst (commandsOf \<lparr>rd = input, rerr = None, lims = connLimits\<rparr>)). safeCommand cx cluster w)"
| "trusted cx cluster (Serve i rt dial) st = env_ok (rtEnv rt)"
| "trusted cx cluster (Arrive l bs) st = stream_ok (ioInbox (sysIO st l) @ bs)"
| "trusted cx cluster (ReadFrame l rt) st = env_ok (rtEnv rt)"
| "trusted cx cluster (Tick pick rt) st = (env_ok pick \<and> env_ok (rtEnv rt))"
| "trusted cx cluster e st = True"

definition conn_ok :: "ctx \<Rightarrow> bool \<Rightarrow> conn \<Rightarrow> bool" where
  "conn_ok cx cluster c \<longleftrightarrow> subs_wf (cSubs c) \<and> (\<forall>w \<in> set (fst (commandsOf (cReader c))). safeCommand cx cluster w)"

definition sys_inv :: "ctx \<Rightarrow> bool \<Rightarrow> system \<Rightarrow> bool" where
  "sys_inv cx cluster st \<longleftrightarrow> sv_inv cx cluster (sysServer st) \<and> (\<forall>s. svCluster (sysServer st) = Some s \<longrightarrow> bus_ok s)
     \<and> (\<forall>l. io_ok (sysIO st l)) \<and> (\<forall>i c. sysConns st i = Some c \<longrightarrow> conn_ok cx cluster c)"

lemma sys_invD:
  assumes "sys_inv cx cluster st"
  shows "sv_inv cx cluster (sysServer st)" "svCluster (sysServer st) = Some s \<Longrightarrow> bus_ok s" "io_ok (sysIO st l)"
    "sysConns st i = Some c \<Longrightarrow> conn_ok cx cluster c" "svCluster (sysServer st) = Some s \<Longrightarrow> cluster"
  using assms by (auto simp: sys_inv_def sv_inv_def)

lemma ctx_runtime:
  "ctx_ok cx \<Longrightarrow> env_ok (rtEnv rt) \<Longrightarrow> ctx_ok (cx\<lparr>cx_rt := rt, cx_dial := dial\<rparr>)"
  "sv_inv (cx\<lparr>cx_rt := rt, cx_dial := dial\<rparr>) cluster = sv_inv cx cluster"
  "safeCommand (cx\<lparr>cx_rt := rt, cx_dial := dial\<rparr>) cluster = safeCommand cx cluster"
  by (auto simp: ctx_ok_def sv_inv_def srv_ok_def safeCommand_def crashes_def fun_eq_iff split: list.split)

lemma runCommand_view:
  assumes "\<forall>s. svCluster sv = Some s \<longrightarrow> bus_ok s" "env_ok (rtEnv (cx_rt cx))" "runCommand cx cluster w sv sb = Some (sv', sb', rs, go)"
  shows "view_rel sv sv'"
proof (cases w)
  case (Cons v args)
  with assms(3) have "dispatch cx cluster sv sb (BytesToLower v) args = Some (sv', sb', rs, go)" by (simp add: runCommand_def)
  then show ?thesis using dispatch_view [OF assms(1,2)] unfolding view_kept_def by blast
qed (use assms(3) in \<open>simp add: runCommand_def\<close>)

lemma connTurn_ok:
  assumes "sv_inv cx cluster sv" "\<forall>s. svCluster sv = Some s \<longrightarrow> bus_ok s" "conn_ok cx cluster c" "ctx_ok cx"
  shows "\<exists>sv' c' rs. connTurn cx cluster c sv = Some (sv', c', rs) \<and> sv_inv cx cluster sv' \<and> rs \<noteq> []
     \<and> view_rel sv sv' \<and> (\<forall>d. c' = Some d \<longrightarrow> conn_ok cx cluster d)"
proof (cases "Next (cReader c)")
  case (Pair rc x)
  show ?thesis
  proof (cases x)
    case (Inl e)
    obtain ps where "closeSubscriptions (cx_chans cx (cSubs c)) (cSubs c) (svPS sv) = Some ps" "ps_inv ps"
      using closeSubscriptions_spec [OF sv_invD(2) [OF assms(1)]] by blast
    then show ?thesis
      using Pair Inl view_rel_same [OF assms(2)] sv_inv_ps [OF assms(1)] by (simp add: connTurn_def endConnection_def)
  next
    case (Inr w)
    have cm: "commandsOf (cReader c) = (w # fst (commandsOf rc), snd (commandsOf rc))"
      using Pair Inr by (simp add: commandsOf.simps [of "cReader c"] case_prod_unfold Let_def)
    have safe: "safeCommand cx cluster w" "\<forall>w \<in> set (fst (commandsOf rc)). safeCommand cx cluster w"
      using assms(3) by (simp_all add: conn_ok_def cm)
    have sb: "subs_wf (cSubs c)" using assms(3) by (simp add: conn_ok_def)
    obtain sv1 sb1 rs where r: "runCommand cx cluster w sv (cSubs c) = Some (sv1, sb1, rs, True)" "sv_inv cx cluster sv1" "subs_wf sb1" "rs \<noteq> []"
      using runCommand_ok [OF assms(1) sb assms(4) safe(1)] by (auto simp: step_ok_def)
    have "env_ok (rtEnv (cx_rt cx))" using assms(4) by (simp add: ctx_ok_def)
    then have "view_rel sv sv1" by (rule runCommand_view [OF assms(2) _ r(1)])
    then show ?thesis using Pair Inr r safe(2) by (simp add: connTurn_def conn_ok_def)
  qed
qed

lemma view_relD: "view_rel sv sv' \<Longrightarrow> svCluster sv' = Some s' \<Longrightarrow> bus_ok s' \<and> (\<exists>s. svCluster sv = Some s \<and> grows s s')"
  by (auto simp: view_rel_def split: option.splits)

text \<open>Every step but that of a writer only fills the channels, and whoever waits afterwards has just sent or waited before.\<close>

definition fills :: "system \<Rightarrow> system \<Rightarrow> bool" where
  "fills st st' \<longleftrightarrow> (case svCluster (sysServer st) of
       None \<Rightarrow> svCluster (sysServer st') = None \<and> sysWaits st' = sysWaits st
     | Some s \<Rightarrow> \<exists>s'. svCluster (sysServer st') = Some s' \<and> grows s s' \<and> (\<forall>g. sysWaits st' g = sysWaits st g \<or> sysWaits st' g = waitAfter s s'))"

lemma fills_same: "svCluster (sysServer st') = svCluster (sysServer st) \<Longrightarrow> sysWaits st' = sysWaits st \<Longrightarrow> fills st st'"
  by (auto simp: fills_def split: option.split)

lemma fills_view: "view_rel (sysServer st) (sysServer st') \<Longrightarrow> sysWaits st' = sysWaits st \<Longrightarrow> fills st st'"
  by (auto simp: fills_def view_rel_def split: option.splits)

lemma Serve_ok:
  assumes "sys_inv cx cluster st" "ctx_ok cx" "env_ok (rtEnv rt)" "sysConns st i = Some c"
  shows "\<exists>st'. sysExec cx cluster (Serve i rt dial) st = Some st' \<and> sys_inv cx cluster st' \<and> fills st st'"
proof -
  let ?cx = "cx\<lparr>cx_rt := rt, cx_dial := dial\<rparr>"
  note r = ctx_runtime(2,3) [where rt = rt and dial = dial]
  have "conn_ok ?cx cluster = conn_ok cx cluster" by (simp add: conn_ok_def r fun_eq_iff)
  with connTurn_ok [of ?cx cluster "sysServer st" c, unfolded r] sys_invD(1,2,4) [OF assms(1)] assms(4) ctx_runtime(1) [OF assms(2,3)]
  obtain sv' c' rs where t: "connTurn ?cx cluster c (sysServer st) = Some (sv', c', rs)" "sv_inv cx cluster sv'"
    "view_rel (sysServer st) sv'" "\<forall>d. c' = Some d \<longrightarrow> conn_ok cx cluster d"
    by (metis (no_types, lifting))
  let ?st = "st\<lparr>sysServer := sv', sysConns := (sysConns st)(i := c'), sysReplies := (sysReplies st)(i := sysReplies st i @ rs)\<rparr>"
  have "fills st ?st" by (rule fills_view) (simp_all add: t(3))
  then show ?thesis using t assms(1,4) view_relD [OF t(3)] by (auto simp: sys_inv_def)
qed

lemma sys_inv_view:
  assumes "sys_inv cx cluster st" "svCluster (sysServer st) = Some s" "bus_ok s'"
    "sysServer st' = (sysServer st)\<lparr>svCluster := Some s'\<rparr>" "sysConns st' = sysConns st" "\<And>l. io_ok (sysIO st' l)"
  shows "sys_inv cx cluster st'"
proof -
  have "cluster" by (rule sys_invD(5) [OF assms(1,2)])
  then show ?thesis
    using assms(1,3-6) sv_inv_cluster [of cx "sysServer st" s'] bus_okD(1) [OF assms(3)] by (auto simp: sys_inv_def)
qed

lemma ReadFrame_ok:
  assumes "sys_inv cx cluster st" "env_ok (rtEnv rt)" "enabled (ReadFrame l rt) st"
  shows "\<exists>st'. sysExec cx cluster (ReadFrame l rt) st = Some st' \<and> sys_inv cx cluster st' \<and> fills st st'"
proof -
  let ?x = "ioInbox (sysIO st l)"
  obtain s where s: "svCluster (sysServer st) = Some s" using assms(3) by (auto simp: linkOpen_def split: option.splits)
  have io: "io_ok (sysIO st l)" by (rule sys_invD(3) [OF assms(1)])
  obtain s' where s': "readTurn rt l ?x s = Some (s', drop (frameLen ?x) ?x, True)" "bus_ok s'" "frame (take (frameLen ?x) ?x)"
    "stream_ok (drop (frameLen ?x) ?x)" "grows s s'"
    using readTurn_ok [OF sys_invD(2) [OF assms(1) s] assms(2), of ?x l] io assms(3) by (auto simp: io_ok_def)
  have "frameLen ?x \<le> length ?x"
    using assms(3) s'(3) s'(1) by (auto simp: readReady_def readTurn_def frame_iff split: if_splits)
  then have tk: "take (length ?x - length (drop (frameLen ?x) ?x)) ?x = take (frameLen ?x) ?x" by simp
  let ?io = "(sysIO st l)\<lparr>ioRead := ioRead (sysIO st l) @ take (frameLen ?x) ?x, ioInbox := drop (frameLen ?x) ?x, ioReading := True\<rparr>"
  have "io_ok ?io" using io s'(3,4) whole_append_frame by (simp add: io_ok_def)
  then have "sys_inv cx cluster (st\<lparr>sysServer := (sysServer st)\<lparr>svCluster := Some s'\<rparr>, sysWaits := (sysWaits st)(Reader l := waitAfter s s'),
      sysIO := (sysIO st)(l := ?io)\<rparr>)"
    by (intro sys_inv_view [OF assms(1) s s'(2)]) (simp_all add: sys_invD(3) [OF assms(1)])
  then show ?thesis using s s'(1,5) tk by (simp add: onCluster_def updIO_def fills_def)
qed

lemma Take_ok:
  assumes "sys_inv cx cluster st" "enabled (Take l) st"
  shows "\<exists>st'. sysExec cx cluster (Take l) st = Some st' \<and> sys_inv cx cluster st'"
proof -
  obtain s q io where s: "svCluster (sysServer st) = Some s" "writerTake (lSend (links s l)) (sysIO st l) = Some (q, io)"
    using assms(2) by (auto simp: linkOpen_def queueOf_def split: option.splits)
  note bus = sys_invD(2) [OF assms(1) s(1)]
  have t: "io_ok io" "set q \<subseteq> set (lSend (links s l))"
    using writerTake_ok [OF sys_invD(3) [OF assms(1)] _ s(2)] bus_okD(4) [OF bus] by auto
  have "sys_inv cx cluster (st\<lparr>sysServer := (sysServer st)\<lparr>svCluster := Some (updLink l (\<lambda>lk. lk\<lparr>lSend := q\<rparr>) s)\<rparr>,
      sysWaits := (\<lambda>g. moveUp l (sysWaits st g)), sysIO := (sysIO st)(l := io)\<rparr>)"
    by (intro sys_inv_view [OF assms(1) s(1) dequeue_ok [OF bus t(2)]]) (simp_all add: sys_invD(3) [OF assms(1)] t(1))
  then show ?thesis using s by (simp add: updIO_def)
qed

lemma Tick_ok:
  assumes "sys_inv cx cluster st" "env_ok pick" "env_ok (rtEnv rt)" "svCluster (sysServer st) = Some s"
  shows "\<exists>st'. sysExec cx cluster (Tick pick rt) st = Some st' \<and> sys_inv cx cluster st' \<and> fills st st'"
proof -
  obtain s' where s': "ClusterCron pick rt (sysTicks st) s = Some s'" "bus_ok s'" "grows s s'"
    using ClusterCron_ok [OF sys_invD(2) [OF assms(1,4)] assms(2,3)] by blast
  note io = sys_invD(3) [OF assms(1)]
  from sys_inv_view [OF assms(1,4) s'(2)] show ?thesis using assms(4) s'(1,3) io by (simp add: onCluster_def fills_def)
qed

lemma BusAccept_ok:
  assumes "sys_inv cx cluster st" "svCluster (sysServer st) = Some s"
  shows "\<exists>st'. sysExec cx cluster (BusAccept host) st = Some st' \<and> sys_inv cx cluster st' \<and> fills st st'"
proof -
  obtain s' l where c: "CreateClusterLink host None True s = (s', l)" by force
  have ok: "bus_ok s'" "grows s s'" using CreateClusterLink_ok(1,4) [OF sys_invD(2) [OF assms] _ c] by simp_all
  from sys_inv_view [OF assms ok(1)] show ?thesis using sys_invD(3) [OF assms(1)] assms(2) c ok(2) by (simp add: fills_def)
qed

lemma sys_inv_io: "sys_inv cx cluster st \<Longrightarrow> io_ok (f (sysIO st l)) \<Longrightarrow> sys_inv cx cluster (updIO l f st)"
  by (auto simp: sys_inv_def updIO_def)

lemma sysExec_ok:
  assumes "sys_inv cx cluster st" "ctx_ok cx" "enabled e st" "trusted cx cluster e st"
  shows "\<exists>st'. sysExec cx cluster e st = Some st' \<and> sys_inv cx cluster st' \<and> (fills st st' \<or> (\<exists>l. e = Take l))"
proof (cases e)
  case (Accept input)
  then show ?thesis using assms(1,4) by (auto simp: sys_inv_def conn_ok_def subs_wf_def fills_same)
next
  case (Forward ch)
  then obtain ps m where r: "recv ch (svPS (sysServer st)) = Some (ps, m)"
    using assms(3) by (cases "buffered (heap (svPS (sysServer st)) ch)") (auto simp: recv_def)
  have "sv_inv cx cluster ((sysServer st)\<lparr>svPS := ps\<rparr>)"
    using sv_inv_ps [OF sys_invD(1) [OF assms(1)]] recv_inv [OF sv_invD(2) [OF sys_invD(1) [OF assms(1)]] r] by blast
  then show ?thesis using Forward r assms(1) by (auto simp: sys_inv_def fills_same)
next
  case (Arrive l bs)
  have "io_ok ((sysIO st l)\<lparr>ioInbox := ioInbox (sysIO st l) @ bs\<rparr>)"
    using assms(4) sys_invD(3) [OF assms(1), of l] by (simp add: Arrive io_ok_def)
  then show ?thesis using Arrive sys_inv_io [OF assms(1), of "\<lambda>io. io\<lparr>ioInbox := ioInbox io @ bs\<rparr>"] by (simp add: fills_same updIO_def)
next
  case (Hangup l)
  have "io_ok ((sysIO st l)\<lparr>ioReading := False\<rparr>)" using sys_invD(3) [OF assms(1), of l] by (simp add: io_ok_def)
  then show ?thesis using Hangup sys_inv_io [OF assms(1), of "\<lambda>io. io\<lparr>ioReading := False\<rparr>"] by (simp add: fills_same updIO_def)
next
  case (Put l n err)
  then show ?thesis
    using sys_inv_io [OF assms(1), of "writerWrite n err" l] writerWrite_ok [OF sys_invD(3) [OF assms(1)]] assms(3) by (simp add: fills_same updIO_def)
next
  case (Serve i rt dial)
  then show ?thesis using Serve_ok [OF assms(1,2)] assms(3,4) by fastforce
next
  case (BusAccept host)
  then show ?thesis using BusAccept_ok [OF assms(1)] assms(3) by fastforce
next
  case (ReadFrame l rt)
  then show ?thesis using ReadFrame_ok [OF assms(1)] assms(3,4) by (metis trusted.simps(4))
next
  case (Take l)
  then show ?thesis using Take_ok [OF assms(1)] assms(3) by metis
next
  case (Tick pick rt)
  then show ?thesis using Tick_ok [OF assms(1)] assms(3,4) by fastforce
qed

section \<open>Waiting senders\<close>

text \<open>Whoever waits at a link has its message behind a full channel.\<close>

definition waits_ok :: "system \<Rightarrow> bool" where
  "waits_ok st \<longleftrightarrow> (\<forall>g l n. sysWaits st g = Some (l, n) \<longrightarrow> 0 < n \<and> linkOpen st l \<and> sendCapacity + n \<le> length (queueOf st l))"

lemma waitAfter_Some:
  assumes "waitAfter s s' = Some (l, n)"
  shows "0 < n" "l < nextLink s'" "length (lSend (links s' l)) = sendCapacity + n"
  using assms by (auto simp: waitAfter_def grown_def Let_def find_Some_iff split: option.splits if_splits)

lemma fills_waits:
  assumes "waits_ok st" "fills st st'"
  shows "waits_ok st'"
proof (cases "svCluster (sysServer st)")
  case None
  then show ?thesis using assms by (simp add: waits_ok_def fills_def linkOpen_def)
next
  case (Some s)
  then obtain s' where s': "svCluster (sysServer st') = Some s'" "grows s s'"
    "\<And>g. sysWaits st' g = sysWaits st g \<or> sysWaits st' g = waitAfter s s'"
    using assms(2) by (auto simp: fills_def)
  have "0 < n \<and> linkOpen st' l \<and> sendCapacity + n \<le> length (queueOf st' l)" if w: "sysWaits st' g = Some (l, n)" for g l n
  proof (cases "waitAfter s s' = Some (l, n)")
    case True
    then show ?thesis using waitAfter_Some [OF True] s'(1) by (simp add: linkOpen_def queueOf_def)
  next
    case False
    then have "sysWaits st g = Some (l, n)" using s'(3) [of g] w by auto
    then have old: "0 < n" "l < nextLink s" "sendCapacity + n \<le> length (lSend (links s l))"
      using assms(1) Some by (auto simp: waits_ok_def linkOpen_def queueOf_def)
    then obtain bs where "lSend (links s' l) = lSend (links s l) @ bs" using s'(2) by (auto simp: grows_def)
    then show ?thesis using old s'(1,2) by (simp add: linkOpen_def queueOf_def grows_def)
  qed
  then show ?thesis by (simp add: waits_ok_def)
qed

lemma moveUp_Some:
  "moveUp l w = Some (l', n) \<longleftrightarrow> (if l' = l then w = Some (l, Suc n) \<and> 0 < n else w = Some (l', n))"
  by (auto simp: moveUp_def split: option.splits if_splits)

lemma Take_result:
  assumes "sysExec cx cluster (Take l) st = Some st'"
  shows "\<exists>b. queueOf st l = b # queueOf st' l" "l' \<noteq> l \<Longrightarrow> queueOf st' l' = queueOf st l'" "linkOpen st' = linkOpen st"
    "sysWaits st' g = moveUp l (sysWaits st g)" "ioOut (sysIO st l) = []" "ioWriting (sysIO st l)" "ioWriting (sysIO st' l)"
    "l' \<noteq> l \<Longrightarrow> sysIO st' l' = sysIO st l'"
  using assms
  by (auto simp: bind_eq_Some_conv writerTake_def queueOf_def linkOpen_def updLink_def updIO_def split: if_splits list.splits)

lemma Take_waits:
  assumes "waits_ok st" "sysExec cx cluster (Take l) st = Some st'"
  shows "waits_ok st'"
proof -
  note t = Take_result [OF assms(2)]
  obtain b where b: "queueOf st l = b # queueOf st' l" using t(1) by blast
  have "0 < n \<and> linkOpen st' l' \<and> sendCapacity + n \<le> length (queueOf st' l')" if "sysWaits st' g = Some (l', n)" for g l' n
  proof (cases "l' = l")
    case True
    then have "sysWaits st g = Some (l, Suc n)" "0 < n" using that t(4) [of g] by (auto simp: moveUp_Some)
    then have "linkOpen st l" "sendCapacity + Suc n \<le> length (queueOf st l)" using assms(1) unfolding waits_ok_def by blast+
    then show ?thesis using True b t(3) \<open>0 < n\<close> by simp
  next
    case False
    then have "sysWaits st g = Some (l', n)" using that t(4) [of g] by (auto simp: moveUp_Some)
    then show ?thesis using assms(1) False t(2,3) by (auto simp: waits_ok_def)
  qed
  then show ?thesis by (simp add: waits_ok_def)
qed

lemma sysExec_safe:
  assumes "sys_inv cx cluster st" "waits_ok st" "ctx_ok cx" "enabled e st" "trusted cx cluster e st"
  shows "\<exists>st'. sysExec cx cluster e st = Some st' \<and> sys_inv cx cluster st' \<and> waits_ok st'"
  using sysExec_ok [OF assms(1,3,4,5)] fills_waits [OF assms(2)] Take_waits [OF assms(2)] by blast

section \<open>Runs\<close>

text \<open>Any system that moves by events: the states a run can reach, and the contract under which no run gets stuck in a
  panic.\<close>

inductive reach :: "('s \<Rightarrow> bool) \<Rightarrow> ('e \<Rightarrow> 's \<Rightarrow> bool) \<Rightarrow> ('e \<Rightarrow> 's \<Rightarrow> 's option) \<Rightarrow> 's \<Rightarrow> bool" for init allowed exec where
  reach_start: "init s \<Longrightarrow> reach init allowed exec s"
| reach_step: "reach init allowed exec s \<Longrightarrow> allowed e s \<Longrightarrow> exec e s = Some s' \<Longrightarrow> reach init allowed exec s'"

locale event_system =
  fixes init :: "'s \<Rightarrow> bool" and allowed :: "'e \<Rightarrow> 's \<Rightarrow> bool" and exec :: "'e \<Rightarrow> 's \<Rightarrow> 's option" and inv :: "'s \<Rightarrow> bool"
  assumes starts_well: "init s \<Longrightarrow> inv s"
    and moves_well: "inv s \<Longrightarrow> allowed e s \<Longrightarrow> \<exists>s'. exec e s = Some s' \<and> inv s'"
begin

lemma run_inv: "reach init allowed exec s \<Longrightarrow> inv s"
proof (induction rule: reach.induct)
  case (reach_step s e s')
  then show ?case using moves_well [of s e] by auto
qed (use starts_well in simp)

lemma run_safe:
  assumes "reach init allowed exec s" "allowed e s"
  shows "\<exists>s'. exec e s = Some s' \<and> inv s'"
  by (rule moves_well [OF run_inv [OF assms(1)] assms(2)])

end

definition launched :: "ctx \<Rightarrow> bool \<Rightarrow> system \<Rightarrow> bool" where
  "launched cx cluster st \<longleftrightarrow> ctx_ok cx \<and> (\<exists>uuid prt host sv. Run uuid prt host cluster = Inr sv \<and> st = startSystem sv)"

lemma launched_inv:
  assumes "launched cx cluster st"
  shows "sys_inv cx cluster st" "waits_ok st"
proof -
  obtain uuid prt host sv where sv: "Run uuid prt host cluster = Inr sv" "st = startSystem sv" and cx: "ctx_ok cx"
    using assms by (auto simp: launched_def)
  have "sv_inv cx cluster sv" by (rule Run_inv [OF _ _ sv(1)]) (use cx in \<open>simp_all add: ctx_ok_def\<close>)
  moreover have "\<forall>s. svCluster sv = Some s \<longrightarrow> bus_ok s"
    using sv(1) initState_ok [OF NewNode_wf(1) outbound_simps(6)] by (auto simp: Run_def split: if_splits sum.splits)
  ultimately show "sys_inv cx cluster st" by (simp add: sys_inv_def sv(2) startSystem_def newIO_ok)
  show "waits_ok st" by (simp add: waits_ok_def sv(2) startSystem_def)
qed

interpretation srv: event_system "launched cx cluster" "\<lambda>e st. enabled e st \<and> trusted cx cluster e st" "sysExec cx cluster"
  "\<lambda>st. ctx_ok cx \<and> sys_inv cx cluster st \<and> waits_ok st" for cx cluster
proof unfold_locales
  fix st
  assume "launched cx cluster st"
  then show "ctx_ok cx \<and> sys_inv cx cluster st \<and> waits_ok st" using launched_inv by (auto simp: launched_def)
next
  fix st e
  assume "ctx_ok cx \<and> sys_inv cx cluster st \<and> waits_ok st" "enabled e st \<and> trusted cx cluster e st"
  then show "\<exists>st'. sysExec cx cluster e st = Some st' \<and> ctx_ok cx \<and> sys_inv cx cluster st' \<and> waits_ok st'"
    using sysExec_safe by blast
qed

definition serverReach :: "ctx \<Rightarrow> bool \<Rightarrow> system \<Rightarrow> bool" where
  "serverReach cx cluster = reach (launched cx cluster) (\<lambda>e st. enabled e st \<and> trusted cx cluster e st) (sysExec cx cluster)"

lemma reach_trans:
  assumes "reach init allowed exec s" "reach ((=) s) allowed exec t"
  shows "reach init allowed exec t"
  using assms(2)
proof (induction rule: reach.induct)
  case (reach_step t e u)
  then show ?case using reach.reach_step by metis
qed (use assms(1) in simp)

section \<open>What becomes of a waiting sender\<close>

text \<open>The events of a writer whose connection takes all bytes.\<close>

fun ofWriter :: "linkRef \<Rightarrow> event \<Rightarrow> bool" where
  "ofWriter l (Take k) = (k = l)"
| "ofWriter l (Put k n err) = (k = l \<and> \<not> err)"
| "ofWriter l e = False"

abbreviation writerReach :: "ctx \<Rightarrow> bool \<Rightarrow> linkRef \<Rightarrow> system \<Rightarrow> system \<Rightarrow> bool" where
  "writerReach cx cluster l st \<equiv> reach ((=) st) (\<lambda>e st. enabled e st \<and> ofWriter l e) (sysExec cx cluster)"

lemma writerReach_one: "enabled e st \<Longrightarrow> ofWriter l e \<Longrightarrow> sysExec cx cluster e st = Some st' \<Longrightarrow> writerReach cx cluster l st st'"
  by (rule reach_step [OF reach_start]) simp_all

lemma writer_finishes:
  assumes "linkOpen st l" "ioWriting (sysIO st l)"
  shows "\<exists>st'. writerReach cx cluster l st st' \<and> sysServer st' = sysServer st \<and> sysWaits st' = sysWaits st
     \<and> ioWriting (sysIO st' l) \<and> ioOut (sysIO st' l) = []"
proof (cases "ioOut (sysIO st l) = []")
  case True
  then show ?thesis using assms(2) by (intro exI [of _ st]) (simp add: reach_start)
next
  case False
  let ?n = "length (ioOut (sysIO st l))"
  have "writerReach cx cluster l st (updIO l (writerWrite ?n False) st)"
    by (rule writerReach_one [of "Put l ?n False"]) (use assms False in simp_all)
  then show ?thesis by (intro exI [of _ "updIO l (writerWrite ?n False) st"]) (simp add: updIO_def writerWrite_def)
qed

lemma waiting_moves_up:
  assumes "waits_ok st" "sysWaits st g = Some (l, n)" "ioWriting (sysIO st l)"
  shows "\<exists>st'. writerReach cx cluster l st st' \<and> waits_ok st' \<and> ioWriting (sysIO st' l) \<and> sysWaits st' g = moveUp l (Some (l, n))"
proof -
  have w: "linkOpen st l" "sendCapacity + n \<le> length (queueOf st l)" "0 < n" using assms(1,2) by (auto simp: waits_ok_def)
  obtain st1 where st1: "writerReach cx cluster l st st1" "sysServer st1 = sysServer st" "sysWaits st1 = sysWaits st"
    "ioWriting (sysIO st1 l)" "ioOut (sysIO st1 l) = []"
    using writer_finishes [OF w(1) assms(3)] by blast
  have ok1: "waits_ok st1" using assms(1) st1(2,3) by (simp add: waits_ok_def linkOpen_def queueOf_def)
  have q: "queueOf st1 l \<noteq> []" "linkOpen st1 l" using w st1(2) by (auto simp: queueOf_def linkOpen_def)
  then have en: "enabled (Take l) st1" using st1(4,5) by (auto simp: writerTake_def split: list.split)
  obtain st2 where st2: "sysExec cx cluster (Take l) st1 = Some st2"
    using q st1(4,5)
    by (cases "svCluster (sysServer st1)"; cases "queueOf st1 l") (auto simp: linkOpen_def queueOf_def writerTake_def)
  note t = Take_result [OF st2]
  have "writerReach cx cluster l st st2" by (rule reach_trans [OF st1(1) writerReach_one [OF en _ st2]]) simp
  then show ?thesis using Take_waits [OF ok1 st2] t(4,7) st1(3) assms(2) by metis
qed

lemma waiting_released:
  assumes "waits_ok st" "sysWaits st g = Some (l, n)" "ioWriting (sysIO st l)"
  shows "\<exists>st'. writerReach cx cluster l st st' \<and> sysWaits st' g = None"
  using assms
proof (induction n arbitrary: st)
  case 0
  then show ?case by (auto simp: waits_ok_def)
next
  case (Suc n)
  obtain st1 where st1: "writerReach cx cluster l st st1" "waits_ok st1" "ioWriting (sysIO st1 l)" "sysWaits st1 g = moveUp l (Some (l, Suc n))"
    using waiting_moves_up [OF Suc.prems] by blast
  show ?case
  proof (cases "n = 0")
    case True
    then show ?thesis using st1 by (auto simp: moveUp_def)
  next
    case False
    then have "sysWaits st1 g = Some (l, n)" using st1(4) by (simp add: moveUp_def)
    from Suc.IH [OF st1(2) this st1(3)] reach_trans [OF st1(1)] show ?thesis by blast
  qed
qed

lemma dead_writer_step:
  assumes "\<not> ioWriting (sysIO st l)" "sysWaits st g = Some (l, n)" "enabled e st" "sysExec cx cluster e st = Some st'"
  shows "\<not> ioWriting (sysIO st' l) \<and> sysWaits st' g = Some (l, n)"
proof (cases e)
  case (Take k)
  then have t: "sysExec cx cluster (Take k) st = Some st'" using assms(4) by simp
  have "k \<noteq> l" using Take_result(6) [OF t] assms(1) by auto
  then show ?thesis using Take_result(4) [OF t, of g] Take_result(8) [OF t, of l] assms(1,2) by (simp add: moveUp_def)
next
  case (ReadFrame k rt)
  then show ?thesis using assms by (cases "l = k") (auto simp: bind_eq_Some_conv onCluster_def updIO_def)
next
  case (Tick pick rt)
  then show ?thesis using assms by (auto simp: bind_eq_Some_conv onCluster_def)
qed (use assms in \<open>auto simp: bind_eq_Some_conv updIO_def writerWrite_def split: if_splits\<close>)

section \<open>Properties\<close>


text \<open>C26: a goroutine that found the channel of a link full depends on the writer of that link alone: while that runs, its own
  steps, on a connection that takes the bytes, release the sender; once it has ended after a failed write, the sender waits for ever, whatever else happens. For
  the cron job that means that no node is pinged any more.\<close>

theorem sender_waits_for_writer:
  assumes "waits_ok st" "sysWaits st g = Some (l, n)"
  shows "(ioWriting (sysIO st l) \<longrightarrow> (\<exists>st'. writerReach cx cluster l st st' \<and> sysWaits st' g = None))
     \<and> (\<not> ioWriting (sysIO st l) \<longrightarrow>
          (\<forall>st'. reach ((=) st) enabled (sysExec cx cluster) st' \<longrightarrow> sysWaits st' g = Some (l, n)
             \<and> (g = Cron \<longrightarrow> (\<forall>pick rt. \<not> enabled (Tick pick rt) st'))))"
proof -
  have "\<not> ioWriting (sysIO st' l) \<and> sysWaits st' g = Some (l, n)"
    if "\<not> ioWriting (sysIO st l)" "reach ((=) st) enabled (sysExec cx cluster) st'" for st'
    using that(2)
  proof (induction rule: reach.induct)
    case (reach_step t e u)
    then show ?case using dead_writer_step by blast
  qed (use that(1) assms(2) in auto)
  then show ?thesis using waiting_released [OF assms] by auto
qed

section \<open>Witnesses\<close>


abbreviation jammedSystem :: "bool \<Rightarrow> system" where
  "jammedSystem alive \<equiv> (startSystem ((exampleServer True)\<lparr>svCluster := Some (exampleState
       \<lparr>links := (\<lambda>_. \<lparr>lNode = None, lInbound = False, lHost = None, lSend = replicate 257 ''m''\<rparr>), nextLink := 1\<rparr>)\<rparr>))
     \<lparr>sysWaits := (\<lambda>g. if g = Cron then Some (0, 1) else None), sysIO := (\<lambda>_. newIO\<lparr>ioWriting := alive\<rparr>)\<rparr>"

theorem sender_waits_for_writer_witness:
  "(\<exists>st'. writerReach exampleCtx True 0 (jammedSystem True) st' \<and> sysWaits st' Cron = None)
   \<and> (\<exists>st'. sysExec exampleCtx True (Accept ''x'') (jammedSystem False) = Some st' \<and> \<not> enabled (Tick (rtEnv exampleRt) exampleRt) st')"
proof -
  have ok: "waits_ok (jammedSystem alive)" for alive
    by (simp add: waits_ok_def startSystem_def linkOpen_def queueOf_def sendCapacity_def)
  have w: "sysWaits (jammedSystem alive) Cron = Some (0, 1)" "ioWriting (sysIO (jammedSystem alive) 0) = alive" for alive
    by (simp_all add: startSystem_def)
  obtain st' where st': "sysExec exampleCtx True (Accept ''x'') (jammedSystem False) = Some st'" by simp
  have "reach ((=) (jammedSystem False)) enabled (sysExec exampleCtx True) st'"
    by (rule reach_step [of _ _ _ "jammedSystem False" "Accept ''x''"]) (use st' in \<open>auto intro: reach_start\<close>)
  then show ?thesis
    using sender_waits_for_writer [OF ok w(1), of True exampleCtx True] sender_waits_for_writer [OF ok w(1), of False exampleCtx True] st'
    unfolding w(2) by blast
qed

end
