(* ===== verification/Cluster_Net.thy ===== *)
theory Cluster_Net
  imports Server_System "HOL-Library.Sublist"
begin

text \<open>
  Any number of servers in cluster mode, each as in \<open>Server_System\<close>, and the network between them. The other end of link \<open>l\<close>
  of server \<open>a\<close> is \<open>wire a l\<close>, a server and a link of that server; the network delivers, in pieces of any size and as late as it
  likes, the bytes that were written there, and it may stop at any point. What one server relies on for the bytes that
  arrive, the others guarantee.
\<close>

type_synonym net = "nat \<Rightarrow> system"
type_synonym wiring = "nat \<Rightarrow> linkRef \<Rightarrow> nat \<times> linkRef"

text \<open>Everything that has arrived on a link, and everything that was written to its other end.\<close>

definition arrived :: "system \<Rightarrow> linkRef \<Rightarrow> string" where
  "arrived st l = ioRead (sysIO st l) @ ioInbox (sysIO st l)"

definition farEnd :: "wiring \<Rightarrow> net \<Rightarrow> nat \<Rightarrow> linkRef \<Rightarrow> string" where
  "farEnd wire nt a l = (case wire a l of (b, k) \<Rightarrow> ioSent (sysIO (nt b) k))"

fun netAllowed :: "(nat \<Rightarrow> ctx) \<Rightarrow> wiring \<Rightarrow> nat \<times> event \<Rightarrow> net \<Rightarrow> bool" where
  "netAllowed cx wire (a, Arrive l bs) nt = (enabled (Arrive l bs) (nt a) \<and> prefix (arrived (nt a) l @ bs) (farEnd wire nt a l))"
| "netAllowed cx wire (a, e) nt = (enabled e (nt a) \<and> trusted (cx a) True e (nt a))"

fun netExec :: "(nat \<Rightarrow> ctx) \<Rightarrow> nat \<times> event \<Rightarrow> net \<Rightarrow> net option" where
  "netExec cx (a, e) nt = do { st \<leftarrow> sysExec (cx a) True e (nt a); Some (nt(a := st)) }"

definition netStarted :: "(nat \<Rightarrow> ctx) \<Rightarrow> net \<Rightarrow> bool" where
  "netStarted cx nt \<longleftrightarrow> (\<forall>a. launched (cx a) True (nt a))"

definition netReach :: "(nat \<Rightarrow> ctx) \<Rightarrow> wiring \<Rightarrow> net \<Rightarrow> bool" where
  "netReach cx wire = reach (netStarted cx) (netAllowed cx wire) (netExec cx)"

section \<open>What a step does to the bytes of a link\<close>

lemma Put_io:
  assumes "sysExec cx cluster e st = Some st'"
  shows "\<exists>x. ioSent (sysIO st' l) = ioSent (sysIO st l) @ x"
proof (cases e)
  case (Take k)
  then show ?thesis using assms
    by (cases "l = k") (auto simp: bind_eq_Some_conv updIO_def writerTake_def split: if_splits list.splits)
next
  case (Put k n err)
  then show ?thesis using assms by (cases "l = k") (auto simp: updIO_def writerWrite_def)
qed (use assms in \<open>auto simp: bind_eq_Some_conv updIO_def onCluster_def\<close>)

lemma readTurn_rest: "readTurn rt l x s = Some (s', rest, go) \<Longrightarrow> \<exists>n. rest = drop n x"
  by (auto simp: readTurn_def bind_eq_Some_conv split: if_splits sum.splits)

lemma arrived_step:
  assumes "sysExec cx cluster e st = Some st'"
  shows "arrived st' l = arrived st l @ (case e of Arrive k bs \<Rightarrow> if k = l then bs else [] | _ \<Rightarrow> [])"
proof (cases e)
  case (ReadFrame k rt)
  obtain s s' rest go where r: "readTurn rt k (ioInbox (sysIO st k)) s = Some (s', rest, go)"
    and st': "sysIO st' = (sysIO st)(k := (sysIO st k)\<lparr>ioRead := ioRead (sysIO st k) @ take (length (ioInbox (sysIO st k)) - length rest) (ioInbox (sysIO st k)),
        ioInbox := rest, ioReading := go\<rparr>)"
    using assms ReadFrame by (auto simp: bind_eq_Some_conv updIO_def onCluster_def)
  obtain n where "rest = drop n (ioInbox (sysIO st k))" using readTurn_rest [OF r] by blast
  then have "take (length (ioInbox (sysIO st k)) - length rest) (ioInbox (sysIO st k)) @ rest = ioInbox (sysIO st k)"
    by (cases "n \<le> length (ioInbox (sysIO st k))") auto
  then show ?thesis using ReadFrame by (simp add: arrived_def st')
qed (use assms in \<open>auto simp: bind_eq_Some_conv updIO_def onCluster_def arrived_def writerTake_def writerWrite_def
    split: if_splits list.splits\<close>)

section \<open>Relying on each other\<close>

definition net_inv :: "(nat \<Rightarrow> ctx) \<Rightarrow> wiring \<Rightarrow> net \<Rightarrow> bool" where
  "net_inv cx wire nt \<longleftrightarrow> (\<forall>a. ctx_ok (cx a) \<and> sys_inv (cx a) True (nt a) \<and> waits_ok (nt a))
     \<and> (\<forall>a l. prefix (arrived (nt a) l) (farEnd wire nt a l))"

lemma farEnd_step:
  assumes "sysExec cx cluster e (nt a) = Some st"
  shows "prefix (farEnd wire nt b l) (farEnd wire (nt(a := st)) b l)"
  using Put_io [OF assms, of "snd (wire b l)"] by (auto simp: farEnd_def split: prod.split)

lemma netAllowed_trusted:
  assumes "net_inv cx wire nt" "netAllowed cx wire (a, e) nt"
  shows "enabled e (nt a)" "trusted (cx a) True e (nt a)"
proof -
  have "trusted (cx a) True (Arrive l bs) (nt a)" if e: "e = Arrive l bs" for l bs
  proof -
    obtain b k where w: "wire a l = (b, k)" by force
    have inv: "sys_inv (cx a) True (nt a)" "sys_inv (cx b) True (nt b)" using assms(1) by (simp_all add: net_inv_def)
    have "stream_ok (ioSent (sysIO (nt b) k))" using sys_invD(3) [OF inv(2)] by (simp add: io_ok_def)
    then have "stream_ok (ioRead (sysIO (nt a) l) @ ioInbox (sysIO (nt a) l) @ bs)"
      using assms(2) stream_ok_prefix by (auto simp: e farEnd_def w arrived_def prefix_def)
    moreover have "whole (ioRead (sysIO (nt a) l))" using sys_invD(3) [OF inv(1)] by (simp add: io_ok_def)
    ultimately show ?thesis by (simp add: stream_ok_whole)
  qed
  then show "enabled e (nt a)" "trusted (cx a) True e (nt a)" using assms(2) by (cases e; auto)+
qed

lemma netExec_inv:
  assumes "net_inv cx wire nt" "netAllowed cx wire ae nt"
  shows "\<exists>nt'. netExec cx ae nt = Some nt' \<and> net_inv cx wire nt'"
proof -
  obtain a e where ae: "ae = (a, e)" by force
  note t = netAllowed_trusted [OF assms(1) assms(2) [unfolded ae]]
  obtain st where st: "sysExec (cx a) True e (nt a) = Some st" "sys_inv (cx a) True st" "waits_ok st"
    using sysExec_safe [OF _ _ _ t] assms(1) by (auto simp: net_inv_def)
  have "prefix (arrived ((nt(a := st)) b) l) (farEnd wire (nt(a := st)) b l)" for b l
  proof -
    have old: "prefix (arrived (nt b) l) (farEnd wire nt b l)" using assms(1) by (simp add: net_inv_def)
    have "prefix (arrived ((nt(a := st)) b) l) (farEnd wire nt b l)"
      using old arrived_step [OF st(1), of l] assms(2) by (cases "b = a"; cases e) (auto simp: ae)
    then show ?thesis using farEnd_step [of "cx a" True e nt a st wire b l] st(1) prefix_order.trans by blast
  qed
  then show ?thesis using assms(1) st by (simp add: net_inv_def ae)
qed

lemma netStarted_inv:
  assumes "netStarted cx nt"
  shows "net_inv cx wire nt"
proof -
  have l: "launched (cx a) True (nt a)" for a using assms by (simp add: netStarted_def)
  have "arrived (nt a) k = []" for a k using l [of a] by (auto simp: launched_def startSystem_def newIO_def arrived_def)
  then show ?thesis using launched_inv [OF l] l by (simp add: net_inv_def launched_def)
qed

interpretation cluster: event_system "netStarted cx" "netAllowed cx wire" "netExec cx" "net_inv cx wire" for cx wire
  by unfold_locales (auto simp: netStarted_inv netExec_inv simp del: netExec.simps)

section \<open>Properties\<close>


section \<open>Witness\<close>


end
