(* ===== verification/Spec2Isabelle.thy ===== *)
theory Spec2Isabelle
  imports Resp_Buffer Client_Shell Bench_Run Cluster_Net
begin

text \<open>
  \<^bold>\<open>EmberDB.\<close> EmberDB is an in-memory key-value server that speaks the RESP protocol, alone or as one node of a cluster that
  divides 16384 hash slots among its nodes. The paths below are relative to \<^verbatim>\<open>src/\<close>.

  \<^bold>\<open>The parts and how they interact.\<close>
  \<^item> A connection of \<^verbatim>\<open>cmd/ember-server\<close> reads commands with the request parser of \<^verbatim>\<open>utils/go-resp/server.go\<close>, dispatches
    each to a handler, and answers through the writers of the same file into the double buffer of
    \<^verbatim>\<open>utils/go-resp/doublebuffer\<close>, whose flusher goroutine sends the bytes.
  \<^item> A handler on a key first asks the view of the cluster (\<^verbatim>\<open>utils/clusters/state.go\<close>) whether this server owns the slot of
    the key, answers with a redirection if not, and otherwise calls the store (\<^verbatim>\<open>utils/kvstore\<close>): one map per data type without
    a cluster, one shard per slot with a cluster.
  \<^item> \<^verbatim>\<open>SUBSCRIBE\<close>, \<^verbatim>\<open>UNSUBSCRIBE\<close> and \<^verbatim>\<open>PUBLISH\<close> go to the hub of \<^verbatim>\<open>utils/pubsub\<close>.
  \<^item> The nodes exchange binary messages (\<^verbatim>\<open>message.go\<close>) over the links of \<^verbatim>\<open>link.go\<close>: a handshake on \<^verbatim>\<open>CLUSTER MEET\<close>, then pings
    and pongs with gossip about other nodes (\<^verbatim>\<open>gossip.go\<close>, \<^verbatim>\<open>cluster.go\<close>), from which every node learns who owns which slot.
  \<^item> \<^verbatim>\<open>cmd/ember-cli\<close> creates clusters, adds nodes, moves slots between nodes and is an interactive client; \<^verbatim>\<open>main.go\<close> is a
    launcher of server processes; \<^verbatim>\<open>cmd/ember-bench\<close> drives load against a server or a cluster.

  \<^bold>\<open>Conventions.\<close> A string and a byte slice are character lists; a fixed-width integer is a word of that width; Go's \<^verbatim>\<open>int\<close> is
  \<open>int\<close> with the 64-bit wrap-around written out where it can be reached. A map is an association list with distinct keys (\<open>gmap\<close>
  of \<open>Ember_Prelude\<close>, with the nil map as a value of its own, since writing to it panics). A panic is a value: operations return
  an option or a result type, and \<open>None\<close> (or the panic constructor) is the end of the process. A pointer to a cluster node is
  a reference into the store of nodes of the state, because the code aliases nodes through \<^verbatim>\<open>Myself\<close>, \<^verbatim>\<open>Nodes\<close> and \<^verbatim>\<open>Slots\<close>. What a mutex protects
  is one step.

  \<^bold>\<open>The theories.\<close>
  \<^item> \<open>Ember_Prelude\<close>, \<open>Go_Strconv\<close>, \<open>Go_Float\<close>: vocabulary, Go maps, \<^verbatim>\<open>strconv\<close>, the case mapping and trimming of strings, and \<^verbatim>\<open>float64\<close> arithmetic as
    rational arithmetic followed by rounding to 53 bits.
  \<^item> \<open>KV_Store\<close> (\<^verbatim>\<open>kvstore.go\<close>, \<^verbatim>\<open>shard.go\<close>), \<open>KV_Strings\<close>, \<open>KV_Lists\<close>, \<open>KV_Hashes\<close> (with \<^verbatim>\<open>sets.go\<close>), \<open>KV_SortedSets\<close>: the store, with
    one definition for each operation in both modes. \<open>KV_Abs\<close> is the abstract specification: five partial functions from keys
    to values, and the abstraction \<open>absKV\<close> through which every operation is shown to refine its abstract step.
  \<^item> \<open>PubSub\<close>: the hub, with Go channels of capacity one as a heap of buffers, and the reachable states of a hub.
  \<^item> \<open>Cluster_Codec\<close> (\<^verbatim>\<open>message.go\<close>, \<^verbatim>\<open>rdb.go\<close>), \<open>Cluster_Node\<close> (\<^verbatim>\<open>node.go\<close>), \<open>Cluster_State\<close> (\<^verbatim>\<open>state.go\<close>, \<^verbatim>\<open>ClusterSetSlot\<close>),
    \<open>Cluster_Gossip\<close> (\<^verbatim>\<open>gossip.go\<close>, pings and message processing), \<open>Cluster_Bus\<close> (\<^verbatim>\<open>link.go\<close>, handshake, cron),
    \<open>Cluster_Rebalance\<close> (\<^verbatim>\<open>ClusterRebalanceNodes\<close>, \<^verbatim>\<open>clusterMoveSlots\<close>, \<^verbatim>\<open>response.go\<close>, \<^verbatim>\<open>progress.go\<close>).
  \<^item> \<open>Resp_Wire\<close> (writers and number parsers), \<open>Resp_Reader\<close> (the request parser), \<open>Resp_Client\<close> (a reference decoder of
    replies), \<open>Resp_Buffer\<close> (the double buffer as a step relation over program counters of its goroutines).
  \<^item> \<open>Server_Routing\<close>, \<open>Server_Commands\<close>, \<open>Server_Dispatch\<close>: every handler of \<^verbatim>\<open>cmd/ember-server\<close>, the dispatcher, the connection
    loop and the set-up of the process. \<open>Server_Session\<close> and \<open>Server_Replies\<close>: command sequences and whole connections, in commands
    and in bytes.
  \<^item> \<open>Cluster_Frames\<close>: the two goroutines of a link step by step, with the calls of \<^verbatim>\<open>conn.Write\<close>, and the invariant of the links.
    \<open>Server_System\<close>: a whole server process, whose goroutines (connections, subscribers, bus listener, readers, writers, cron) act in any
    order and wait at full channels. \<open>Cluster_Net\<close>: any number of such servers with the network between them.
  \<^item> \<open>Server_World\<close>: several servers and a client; the network the client programs take as a parameter is built from the model
    of the server, bytes and all.
  \<^item> \<open>Client_Cli\<close>, \<open>Client_Shell\<close>: \<^verbatim>\<open>cmd/ember-cli\<close> and the launcher. \<open>Bench_Router\<close>, \<open>Bench_Served\<close>, \<open>Bench_Phase\<close>, \<open>Bench_Metrics\<close>, \<open>Bench_Run\<close>:
    \<^verbatim>\<open>cmd/ember-bench\<close>, from one request to a whole run.

  \<^bold>\<open>Interfaces.\<close> \<open>map_readable\<close> and its extension \<open>map_iface\<close> state what a client of a map may rely on; they are interpreted by Go's maps and by
  the sharded store of a cluster node, so the refinement proofs of the store are done once for both modes. \<open>codec\<close> is the contract
  of a fixed-length encoder and its decoder, interpreted by the five field formats of a cluster message. \<open>slot_edit\<close> is the contract of
  \<^verbatim>\<open>AddSlot\<close> and \<^verbatim>\<open>RemoveSlot\<close> on the bitmap of a node. \<open>keyed_handler\<close> is the contract of a handler on one key (arguments, redirection, no
  panic, well-formedness), interpreted by each of the 28 keyed commands. \<open>costly_steps\<close> is the contract of a step relation every
  step of which costs something, interpreted by the phases of the benchmark. \<open>event_system\<close> is the contract of a system that moves by events
  and never panics, interpreted by one running server and by a whole cluster.

  \<^bold>\<open>What is shown.\<close>
  \<^item> The running system: no schedule of its goroutines stops a server, as long as clients do not send the two commands that do and peers
    send frames; a cluster of servers gives itself the second, so it needs no such assumption; a sender at a full channel
    is released by the writer of the link, and by nothing else once that has ended.
  \<^item> The server as a whole: which commands stop the process (exactly two), that every other command is answered and keeps every
    component well formed, that pipelining and arbitrary input are handled, that a connection leaves nothing behind, that a
    redirected command touches nothing, that SET and GET agree through dispatcher, router and store.
  \<^item> The wire: the reader undoes the writer, is total and keeps its limits; replies are self-delimiting and every answer is made
    of whole values; the double buffer loses no byte and no wakeup and keeps the order, and the two ways in which its Close
    deviates.
  \<^item> The store: each operation refines its abstract step, integer commands wrap at 64 bits, ZADD sorts stably.
  \<^item> The hub: no reachable hub panics, and PUBLISH reaches exactly the subscribers with room.
  \<^item> The cluster: the message round trip, what a message teaches its receiver, what a ping announces, the cutting of the byte
    stream into messages, handshake and cron, SETSLOT; the plan of a rebalancing and its limits; moving slots and creating a
    cluster from end to end across several modelled servers.
  \<^item> The programs: creating a cluster divides the slots without leaving the array although it computes in floats; the
    interactive client sends exactly what was typed; the launcher leaves no process; the benchmark routes as the server
    does, each of its phases ends and serves every request once, the percentiles are exact, and a whole run against a healthy cluster completes.

  \<^bold>\<open>Bounds and fuel.\<close> \<open>readValue\<close>, the reference decoder of replies, takes the number of levels to descend; four are used, more than the
  deepest reply of the server (\<^verbatim>\<open>CLUSTER SLOTS\<close>) has. \<open>drainSlot\<close>, which loops for as long as
  a slot has keys, is a \<open>partial_function\<close> into option, and that it returns is proved where it is claimed. \<^verbatim>\<open>pingLoop\<close> counts
  \<^verbatim>\<open>maxIterations\<close> as the source does. A phase of the benchmark is driven for \<open>3 * cnt + length workers\<close>
  steps, which no schedule exceeds. Its sequence numbers stay below \<open>2 ^ 62\<close>, so the counter does not wrap; the
  percentiles are exact for up to 1048576 requests, a range in which the products have too few bits for the rounding to cross an integer.

  \<^bold>\<open>Parameters.\<close> The CRC16 function, \<^verbatim>\<open>ParseFloat\<close> and \<^verbatim>\<open>FormatFloat\<close>, the Unicode tables, map iteration orders, random choices, clocks, dialing, the
  network of the clients with its third-party RESP reader, \<^verbatim>\<open>json.Unmarshal\<close>, \<^verbatim>\<open>fmt.Sprint\<close> of a decoded value, \<^verbatim>\<open>shlex.Split\<close>, docker and
  the processes of the operating system are arguments of the definitions that use them; what a theorem needs of one is a hypothesis of it.

  \<^bold>\<open>Not modelled.\<close> Failures of the listeners, pprof and logging; interleavings inside one handler, which is one step; the bytes a forwarder of
  a subscription writes, which go to the double buffer of its connection; the profiling counters of the double buffer; closing connections
  in the clients; the flags of \<^verbatim>\<open>cmd/ember-bench\<close>, its trace downloads and its JSON report; \<^verbatim>\<open>redis_trace.go\<close>
  and \<^verbatim>\<open>cmd/redis-profiler\<close>, which drive Redis, HTTP downloads and the pprof tool; the example program of go-resp; terminal output. All
  of these are input and output without state of the database.
\<close>

end
